(* ===== verification/Prelude.thy ===== *)
theory Prelude
  imports Main "HOL-Library.Word" "HOL-Library.Monad_Syntax" "HOL-Library.List_Lexorder"
    "HOL-Library.Multiset"
begin

text \<open>
  Shared vocabulary of the development: the machine integers of the Rust sources, byte
  strings and their little-endian codec, the arithmetic that panics on overflow, the interface
  of a byte codec, and the generic list and word lemmas that the component theories use.

  Conventions.  \<^verbatim>\<open>u8\<close>, \<^verbatim>\<open>u32\<close>, \<^verbatim>\<open>u64\<close> and \<^verbatim>\<open>u128\<close> are words of that width;
  \<^verbatim>\<open>usize\<close> (lengths and indices of vectors) is \<open>nat\<close>, because no vector reaches \<open>2 ^ 63\<close>
  elements.  A fixed-size array \<^verbatim>\<open>[u8; N]\<close> is a byte list, and the fact that its
  length is \<open>N\<close> is a well-formedness condition where a theorem needs it.  An operation that can panic
  (arithmetic overflow under Cargo's dev and test profiles, an index out of range, a division by
  zero) returns \<open>option\<close>, and \<open>None\<close> is the panic.  A \<^verbatim>\<open>Result<T, E>\<close> is \<open>E + T\<close>.
\<close>

section \<open>Machine integers and bytes\<close>

type_synonym u8 = "8 word"
type_synonym u32 = "32 word"
type_synonym u64 = "64 word"
type_synonym u128 = "128 word"
type_synonym bytes = "u8 list"

named_theorems codec_simps "byte codecs: lengths and round trips"
named_theorems wf_defs "definitions of the well-formedness predicates"

text \<open>The little-endian digits of a number, base 256.\<close>

fun to_le :: "nat \<Rightarrow> nat \<Rightarrow> bytes" where
  "to_le 0 n = []"
| "to_le (Suc k) n = word_of_nat (n mod 256) # to_le k (n div 256)"

fun of_le :: "bytes \<Rightarrow> nat" where
  "of_le [] = 0"
| "of_le (b # bs) = unat b + 256 * of_le bs"

text \<open>\<^verbatim>\<open>u64::to_le_bytes\<close> and \<^verbatim>\<open>u64::from_le_bytes\<close>.\<close>

definition u64_to_le_bytes :: "u64 \<Rightarrow> bytes" where
  "u64_to_le_bytes x = to_le 8 (unat x)"

definition u64_from_le_bytes :: "bytes \<Rightarrow> u64" where
  "u64_from_le_bytes bs = word_of_nat (of_le bs)"

text \<open>Arithmetic that panics on overflow, and \<^verbatim>\<open>saturating_sub\<close>.\<close>

definition add_or_panic :: "'a::len word \<Rightarrow> 'a word \<Rightarrow> 'a word option" where
  "add_or_panic a b = (if unat a + unat b < 2 ^ LENGTH('a) then Some (a + b) else None)"

definition sub_or_panic :: "'a::len word \<Rightarrow> 'a word \<Rightarrow> 'a word option" where
  "sub_or_panic a b = (if b \<le> a then Some (a - b) else None)"

definition saturating_sub :: "'a::len word \<Rightarrow> 'a word \<Rightarrow> 'a word" where
  "saturating_sub a b = (if b \<le> a then a - b else 0)"

text \<open>\<^verbatim>\<open>iter().sum::<u64>()\<close>: a left fold that panics on overflow.\<close>

fun sum_from :: "'a::len word \<Rightarrow> 'a word list \<Rightarrow> 'a word option" where
  "sum_from acc [] = Some acc"
| "sum_from acc (x # xs) = do { acc' \<leftarrow> add_or_panic acc x; sum_from acc' xs }"

definition sum_or_panic :: "'a::len word list \<Rightarrow> 'a word option" where
  "sum_or_panic xs = sum_from 0 xs"

text \<open>Reading a vector at an index; out of range is a panic.\<close>

definition index_or_panic :: "'a list \<Rightarrow> nat \<Rightarrow> 'a option" where
  "index_or_panic xs i = (if i < length xs then Some (xs ! i) else None)"

text \<open>\<^verbatim>\<open>Result::expect\<close> and \<^verbatim>\<open>assert!\<close>.\<close>

definition expect :: "'e + 'a \<Rightarrow> 'a option" where
  "expect r = (case r of Inl e \<Rightarrow> None | Inr x \<Rightarrow> Some x)"

definition assert :: "bool \<Rightarrow> unit option" where
  "assert b = (if b then Some () else None)"

lemma expect_simps [simp]: "expect (Inl e) = None" "expect (Inr x) = Some x"
  by (simp_all add: expect_def)

lemma assert_True [simp]: "assert True = Some ()"
  by (simp add: assert_def)

section \<open>Lemmas on words and bytes\<close>

lemma unat_less_power: "unat w < 2 ^ LENGTH('a)"
  for w :: "'a::len word"
  by (rule unsigned_less)

lemma unat_u64_less: "unat (x :: u64) < 18446744073709551616"
  using unat_less_power [of x] by simp

lemma unat_word_of_nat_less: "n < 2 ^ LENGTH('a) \<Longrightarrow> unat (word_of_nat n :: 'a::len word) = n"
  by (simp add: unat_of_nat)

lemma word_of_nat_u64_inject:
  assumes "m < 2 ^ 64" and "n < 2 ^ 64"
  shows "(word_of_nat m :: u64) = word_of_nat n \<longleftrightarrow> m = n"
proof
  assume "(word_of_nat m :: u64) = word_of_nat n"
  then have "unat (word_of_nat m :: u64) = unat (word_of_nat n :: u64)" by (rule arg_cong)
  with assms show "m = n" by (simp add: unat_of_nat)
qed simp

lemma length_to_le [simp, codec_simps]: "length (to_le k n) = k"
  by (induction k arbitrary: n) auto

lemma unat_word_of_nat_mod_256 [simp]: "unat (word_of_nat (n mod 256) :: u8) = n mod 256"
  by (simp add: unat_of_nat)

lemma of_le_to_le: "of_le (to_le k n) = n mod 256 ^ k"
proof (induction k arbitrary: n)
  case 0
  then show ?case by simp
next
  case (Suc k)
  have "n mod (256 * 256 ^ k) = 256 * (n div 256 mod 256 ^ k) + n mod 256"
    by (rule mod_mult2_eq)
  then show ?case by (simp add: Suc.IH)
qed

lemma of_le_zeros [simp]: "of_le (replicate n 0) = 0"
  by (induction n) auto

lemma of_le_bound: "of_le bs < 256 ^ length bs"
proof (induction bs)
  case Nil
  then show ?case by simp
next
  case (Cons b bs)
  have "unat b < 256" using unat_less_power [of b] by simp
  with Cons.IH show ?case by simp
qed

lemma to_le_of_le: "to_le (length bs) (of_le bs) = bs"
proof (induction bs)
  case Nil
  then show ?case by simp
next
  case (Cons b bs)
  have b: "unat b < 256" using unat_less_power [of b] by simp
  have "(unat b + 256 * of_le bs) div 256 = of_le bs" using b by simp
  moreover have "(unat b + 256 * of_le bs) mod 256 = unat b" using b by simp
  ultimately show ?case using Cons.IH by simp
qed

lemma length_u64_to_le_bytes [simp, codec_simps]: "length (u64_to_le_bytes x) = 8"
  by (simp add: u64_to_le_bytes_def)

lemma u64_from_to_le [simp, codec_simps]: "u64_from_le_bytes (u64_to_le_bytes x) = x"
proof -
  have "unat x < 256 ^ 8" using unat_less_power [of x] by simp
  then show ?thesis
    by (simp add: u64_to_le_bytes_def u64_from_le_bytes_def of_le_to_le)
qed

lemma u64_to_from_le: "length bs = 8 \<Longrightarrow> u64_to_le_bytes (u64_from_le_bytes bs) = bs"
proof -
  assume len: "length bs = 8"
  have "of_le bs < 2 ^ 64" using of_le_bound [of bs] len by simp
  then have "unat (word_of_nat (of_le bs) :: u64) = of_le bs"
    by (simp add: unat_of_nat)
  then show ?thesis
    using to_le_of_le [of bs] len by (simp add: u64_to_le_bytes_def u64_from_le_bytes_def)
qed

lemma u64_to_le_bytes_inject [simp]: "u64_to_le_bytes x = u64_to_le_bytes y \<longleftrightarrow> x = y"
  by (metis u64_from_to_le)

lemma add_or_panic_Some_iff:
  "add_or_panic a b = Some c \<longleftrightarrow> c = a + b \<and> unat a + unat b < 2 ^ LENGTH('a)"
  for a b c :: "'a::len word"
  by (auto simp: add_or_panic_def)

lemma add_or_panic_unat:
  "add_or_panic a b = Some c \<Longrightarrow> unat c = unat a + unat b"
  for a b c :: "'a::len word"
  by (auto simp: add_or_panic_def unat_add_lem split: if_splits)

lemma add_or_panic_None_iff:
  "add_or_panic a b = None \<longleftrightarrow> 2 ^ LENGTH('a) \<le> unat a + unat b"
  for a b :: "'a::len word"
  by (auto simp: add_or_panic_def)

lemma sub_or_panic_unat:
  "sub_or_panic a b = Some c \<longleftrightarrow> b \<le> a \<and> c = a - b"
  by (auto simp: sub_or_panic_def)

lemma sum_from_Some_iff:
  "sum_from acc xs = Some s \<longleftrightarrow> unat s = unat acc + sum_list (map unat xs)"
proof (induction xs arbitrary: acc)
  case Nil
  then show ?case by (auto dest: unsigned_word_eqI)
next
  case (Cons x xs)
  show ?case
  proof (cases "add_or_panic acc x")
    case None
    then have "unat s < unat acc + unat x"
      by (simp add: add_or_panic_None_iff order.strict_trans2 [OF unat_less_power])
    with None show ?thesis by simp
  next
    case (Some a)
    with Cons.IH [of a] show ?thesis by (simp add: add_or_panic_unat add.assoc)
  qed
qed

lemma sum_or_panic_Some_iff:
  "sum_or_panic xs = Some s \<longleftrightarrow> unat s = sum_list (map unat xs)"
  by (simp add: sum_or_panic_def sum_from_Some_iff)

lemma sum_or_panic_exists:
  "sum_list (map unat xs) < 2 ^ LENGTH('a) \<Longrightarrow> \<exists>s. sum_or_panic xs = Some s"
  for xs :: "'a::len word list"
  by (rule exI [of _ "word_of_nat (sum_list (map unat xs))"])
    (simp add: sum_or_panic_Some_iff unat_of_nat)


section \<open>Lemmas on lists\<close>

lemma append_eq_same_length:
  "length xs = length ys \<Longrightarrow> xs @ us = ys @ vs \<longleftrightarrow> xs = ys \<and> us = vs"
  by simp

lemma take_append_len [simp]: "length xs = n \<Longrightarrow> take n (xs @ ys) = xs"
  by simp

lemma drop_append_len [simp]: "length xs = n \<Longrightarrow> drop n (xs @ ys) = ys"
  by simp

lemma length_concat_const:
  "(\<And>x. x \<in> set xs \<Longrightarrow> length x = k) \<Longrightarrow> length (concat xs) = k * length xs"
  by (induction xs) auto

lemma drop_nth_Suc: "i < length xs \<Longrightarrow> drop i xs = xs ! i # drop (Suc i) xs"
  by (rule Cons_nth_drop_Suc [symmetric])


section \<open>The interface of a byte codec\<close>

text \<open>
  A wire format promises that decoding undoes encoding on well-formed values, and that it is
  canonical: whatever decodes is the encoding of what it decodes to, so no value has two
  encodings.
\<close>

locale codec =
  fixes enc :: "'a \<Rightarrow> 'b list"
    and dec :: "'b list \<Rightarrow> 'e + 'a"
    and wf :: "'a \<Rightarrow> bool"
  assumes dec_enc: "wf x \<Longrightarrow> dec (enc x) = Inr x"
    and enc_dec: "dec bs = Inr x \<Longrightarrow> wf x \<and> enc x = bs"
begin

lemma enc_inject: "wf x \<Longrightarrow> wf y \<Longrightarrow> enc x = enc y \<longleftrightarrow> x = y"
  using dec_enc by (metis Inr_inject)

lemma dec_canonical: "dec bs = Inr x \<Longrightarrow> dec bs' = Inr x \<Longrightarrow> bs = bs'"
  using enc_dec by metis

lemma dec_ok_iff: "(\<exists>x. dec bs = Inr x) \<longleftrightarrow> (\<exists>x. wf x \<and> enc x = bs)"
  using dec_enc enc_dec by metis

end

text \<open>A strictly sorted association list is determined by its look-ups.\<close>

lemma sorted_alist_eq:
  assumes "sorted_wrt (<) (map fst m)"
  shows "m = map (\<lambda>k. (k, the (map_of m k))) (sorted_list_of_set (dom (map_of m)))"
proof -
  have d: "distinct (map fst m)" and s: "sorted (map fst m)" using assms by (simp_all add: strict_sorted_iff)
  have "sorted_list_of_set (dom (map_of m)) = map fst m"
    using d s by (simp add: dom_map_of_conv_image_fst sorted_list_of_set_sort_remdups sorted_sort_id distinct_remdups_id flip: set_map)
  moreover have "map (\<lambda>k. (k, the (map_of m k))) (map fst m) = m"
    using d by (auto intro!: map_idI simp: comp_def)
  ultimately show ?thesis by simp
qed

lemma sorted_alist_ext:
  fixes m m' :: "('k::linorder \<times> 'v) list"
  assumes "sorted_wrt (<) (map fst m)" and "sorted_wrt (<) (map fst m')" and "map_of m = map_of m'"
  shows "m = m'"
  using sorted_alist_eq [OF assms(1)] sorted_alist_eq [OF assms(2)] assms(3) by simp

end
