(* ===== verification/Primitives.thy ===== *)
theory Primitives
  imports Prelude
begin

text \<open>
  \<^verbatim>\<open>crates/primitives\<close>: the domain-separated multi-part hash and the context registry.

  BLAKE3 itself is a third-party package, so its derive-key mode is the parameter \<open>B\<close> of
  every definition that hashes: \<open>B context message\<close> is the 32-byte output of
  \<^verbatim>\<open>Hasher::new_derive_key(context)\<close> after absorbing \<open>message\<close> (absorbing two
  slices is absorbing their concatenation, and \<^verbatim>\<open>blake3::derive_key\<close> is the same
  function on one slice).  The one documented fact that theorems use is \<open>digest32\<close>.
  No theorem assumes that BLAKE3 has no collisions, which would contradict its 32-byte output:
  the security statements are reductions that name the two colliding messages.
\<close>

type_synonym blake3 = "string \<Rightarrow> bytes \<Rightarrow> bytes"

definition digest32 :: "blake3 \<Rightarrow> bool" where
  "digest32 B \<longleftrightarrow> (\<forall>c m. length (B c m) = 32)"

definition collision_at :: "blake3 \<Rightarrow> string \<Rightarrow> bytes \<Rightarrow> bytes \<Rightarrow> bool" where
  "collision_at B c m m' \<longleftrightarrow> m \<noteq> m' \<and> B c m = B c m'"

text \<open>A concrete instance of the parameter, on which witnesses evaluate the definitions.\<close>

definition zero_hash :: blake3 where
  "zero_hash c m = replicate 32 0"

lemma digest32_zero_hash [simp]: "digest32 zero_hash"
  by (simp add: digest32_def zero_hash_def)

section \<open>The multi-part hash\<close>

text \<open>What the loop of \<^verbatim>\<open>hash_parts\<close> feeds to the hasher: each part behind its length.\<close>

definition absorb_parts :: "bytes list \<Rightarrow> bytes" where
  "absorb_parts parts =
     concat (map (\<lambda>part. u64_to_le_bytes (word_of_nat (length part)) @ part) parts)"

definition hash_parts :: "blake3 \<Rightarrow> string \<Rightarrow> bytes list \<Rightarrow> bytes" where
  "hash_parts B context parts = B context (absorb_parts parts)"

definition derive_key :: "blake3 \<Rightarrow> string \<Rightarrow> bytes \<Rightarrow> bytes" where
  "derive_key B context key_material = B context key_material"

section \<open>The context registry (module \<open>ds\<close>)\<close>

definition NOTE_COMMITMENT :: string where "NOTE_COMMITMENT = ''unknown.v0.note.cm''"
definition NULLIFIER :: string where "NULLIFIER = ''unknown.v0.note.nf''"
definition RHO_TRANSFER :: string where "RHO_TRANSFER = ''unknown.v0.note.rho.transfer''"
definition RHO_MINT :: string where "RHO_MINT = ''unknown.v0.note.rho.mint''"
definition MERKLE_NODE :: string where "MERKLE_NODE = ''unknown.v0.tree.node''"
definition MERKLE_EMPTY :: string where "MERKLE_EMPTY = ''unknown.v0.tree.empty''"
definition TX_BINDING :: string where "TX_BINDING = ''unknown.v0.tx.binding''"
definition POW :: string where "POW = ''unknown.v0.antispam.pow''"
definition DEV_PROOF :: string where "DEV_PROOF = ''unknown.v0.devproof.INSECURE''"
definition SK :: string where "SK = ''unknown.v0.key.sk''"
definition ASK :: string where "ASK = ''unknown.v0.key.ask''"
definition NK :: string where "NK = ''unknown.v0.key.nk''"
definition ADDR_TAG :: string where "ADDR_TAG = ''unknown.v0.key.addrtag''"
definition KEM_SEED :: string where "KEM_SEED = ''unknown.v0.key.kemseed''"
definition X25519 :: string where "X25519 = ''unknown.v0.key.x25519''"
definition NOTE_AEAD :: string where "NOTE_AEAD = ''unknown.v0.enc.aead''"

definition ds_contexts :: "string list" where
  "ds_contexts = [NOTE_COMMITMENT, NULLIFIER, RHO_TRANSFER, RHO_MINT, MERKLE_NODE, MERKLE_EMPTY,
     TX_BINDING, POW, DEV_PROOF, SK, ASK, NK, ADDR_TAG, KEM_SEED, X25519, NOTE_AEAD]"

lemmas ds_defs = NOTE_COMMITMENT_def NULLIFIER_def RHO_TRANSFER_def RHO_MINT_def MERKLE_NODE_def
  MERKLE_EMPTY_def TX_BINDING_def POW_def DEV_PROOF_def SK_def ASK_def NK_def ADDR_TAG_def
  KEM_SEED_def X25519_def NOTE_AEAD_def

section \<open>Facts\<close>

lemma length_hash_parts [simp, codec_simps]: "digest32 B \<Longrightarrow> length (hash_parts B c ps) = 32"
  by (simp add: hash_parts_def digest32_def)

lemma length_derive_key [simp, codec_simps]: "digest32 B \<Longrightarrow> length (derive_key B c m) = 32"
  by (simp add: derive_key_def digest32_def)

lemma absorb_parts_Nil [simp]: "absorb_parts [] = []"
  and absorb_parts_Cons:
    "absorb_parts (p # ps) = u64_to_le_bytes (word_of_nat (length p)) @ p @ absorb_parts ps"
  by (simp_all add: absorb_parts_def)

text \<open>The length prefixes make the absorbed message determine the parts.\<close>

lemma absorb_parts_inject:
  assumes "\<forall>p \<in> set ps. length p < 2 ^ 64" and "\<forall>q \<in> set qs. length q < 2 ^ 64"
  shows "absorb_parts ps = absorb_parts qs \<longleftrightarrow> ps = qs"
  using assms
proof (induction ps arbitrary: qs)
  case Nil
  then show ?case by (cases qs) (auto simp: absorb_parts_Cons dest: arg_cong [where f = length])
next
  case (Cons p ps)
  show ?case
  proof (cases qs)
    case Nil
    then show ?thesis by (auto simp: absorb_parts_Cons dest: arg_cong [where f = length])
  next
    case (Cons q qs')
    have "absorb_parts (p # ps) = absorb_parts (q # qs') \<longleftrightarrow> p = q \<and> absorb_parts ps = absorb_parts qs'"
      using Cons.prems Cons by (auto simp: absorb_parts_Cons word_of_nat_u64_inject)
    with Cons.IH [of qs'] Cons.prems Cons show ?thesis by simp
  qed
qed

text \<open>
  The reduction every binding argument uses: equal digests under one context come from equal
  parts, or the two absorbed messages are a BLAKE3 collision.
\<close>

lemma hash_parts_binding:
  assumes "hash_parts B c ps = hash_parts B c qs"
    and "\<forall>p \<in> set ps. length p < 2 ^ 64" and "\<forall>q \<in> set qs. length q < 2 ^ 64"
  shows "ps = qs \<or> collision_at B c (absorb_parts ps) (absorb_parts qs)"
  using assms absorb_parts_inject [OF assms(2,3)] by (auto simp: hash_parts_def collision_at_def)

end
