(* ===== verification/Pow.thy ===== *)
theory Pow
  imports Primitives
begin

text \<open>
  \<^verbatim>\<open>crates/antispam-pow\<close>: the hashcash lane.  The solver's loop need not end, so it is a
  partial function: \<open>None\<close> is a search that runs forever.
\<close>

record PowSolution =
  pow_nonce :: u64

definition pow_to_bytes :: "PowSolution \<Rightarrow> bytes" where
  "pow_to_bytes s = u64_to_le_bytes (pow_nonce s)"

definition pow_from_bytes :: "bytes \<Rightarrow> PowSolution" where
  "pow_from_bytes b = \<lparr>pow_nonce = u64_from_le_bytes b\<rparr>"

definition DEFAULT_DIFFICULTY_BITS :: u32 where "DEFAULT_DIFFICULTY_BITS = 8"

definition pow_hash :: "blake3 \<Rightarrow> bytes \<Rightarrow> u64 \<Rightarrow> bytes" where
  "pow_hash B challenge nonce = hash_parts B POW [challenge, u64_to_le_bytes nonce]"

text \<open>\<^verbatim>\<open>u8::leading_zeros\<close>.\<close>

definition leading_zeros_u8 :: "u8 \<Rightarrow> nat" where
  "leading_zeros_u8 b = length (takeWhile (\<lambda>i. \<not> bit b i) (rev [0..<8]))"

fun leading_zero_bits :: "bytes \<Rightarrow> nat" where
  "leading_zero_bits [] = 0"
| "leading_zero_bits (byte # rest) =
     (if byte = 0 then 8 + leading_zero_bits rest else leading_zeros_u8 byte)"

partial_function (option) solve_loop :: "blake3 \<Rightarrow> bytes \<Rightarrow> u32 \<Rightarrow> u64 \<Rightarrow> PowSolution option" where
  "solve_loop B challenge difficulty_bits nonce =
     (if leading_zero_bits (pow_hash B challenge nonce) \<ge> unat difficulty_bits
      then Some \<lparr>pow_nonce = nonce\<rparr>
      else solve_loop B challenge difficulty_bits (nonce + 1))"

definition solve :: "blake3 \<Rightarrow> bytes \<Rightarrow> u32 \<Rightarrow> PowSolution option" where
  "solve B challenge difficulty_bits = solve_loop B challenge difficulty_bits 0"

definition pow_verify :: "blake3 \<Rightarrow> bytes \<Rightarrow> PowSolution \<Rightarrow> u32 \<Rightarrow> bool" where
  "pow_verify B challenge solution difficulty_bits \<longleftrightarrow>
     leading_zero_bits (pow_hash B challenge (pow_nonce solution)) \<ge> unat difficulty_bits"

section \<open>Facts\<close>

lemma pow_codec [codec_simps, simp]:
  "pow_from_bytes (pow_to_bytes s) = s" "length (pow_to_bytes s) = 8"
  "length b = 8 \<Longrightarrow> pow_to_bytes (pow_from_bytes b) = b"
  by (simp_all add: pow_from_bytes_def pow_to_bytes_def u64_to_from_le)

interpretation pow_solution_codec: codec pow_to_bytes
    "\<lambda>b. if length b = 8 then Inr (pow_from_bytes b) else Inl ()" "\<lambda>_. True"
  by unfold_locales (auto split: if_splits)

lemma leading_zeros_u8_le: "leading_zeros_u8 b \<le> 8"
  unfolding leading_zeros_u8_def by (rule order_trans [OF length_takeWhile_le]) simp

lemma leading_zero_bits_le: "leading_zero_bits h \<le> 8 * length h"
  by (induction h) (auto intro: order_trans [OF leading_zeros_u8_le])

lemma pow_verify_antimono:
  "pow_verify B c s d \<Longrightarrow> d' \<le> d \<Longrightarrow> pow_verify B c s d'"
  by (simp add: pow_verify_def word_le_nat_alt)

lemma pow_verify_0 [simp]: "pow_verify B c s 0"
  by (simp add: pow_verify_def)

lemma solve_difficulty_0 [simp]: "solve B c 0 = Some \<lparr>pow_nonce = 0\<rparr>"
  by (simp add: solve_def solve_loop.simps)

lemma solve_loop_sound:
  assumes "solve_loop B c d n = Some s"
  shows "pow_verify B c s d"
proof (rule solve_loop.raw_induct [where P = "\<lambda>B c d n s. pow_verify B c s d", OF _ assms])
  fix f B c d n s
  assume IH: "\<And>B c d n s. f B c d n = Some s \<Longrightarrow> pow_verify B c s d"
    and eq: "(if unat d \<le> leading_zero_bits (pow_hash B c n) then Some \<lparr>pow_nonce = n\<rparr> else f B c d (n + 1)) = Some s"
  show "pow_verify B c s d"
  proof (cases "unat d \<le> leading_zero_bits (pow_hash B c n)")
    case True
    with eq show ?thesis by (auto simp: pow_verify_def)
  next
    case False
    with eq have "f B c d (n + 1) = Some s" by simp
    then show ?thesis by (rule IH)
  qed
qed

lemma solve_loop_reaches:
  assumes "pow_verify B c \<lparr>pow_nonce = word_of_nat (n + k)\<rparr> d"
    and "\<And>i. n \<le> i \<Longrightarrow> i < n + k \<Longrightarrow> \<not> pow_verify B c \<lparr>pow_nonce = word_of_nat i\<rparr> d"
  shows "solve_loop B c d (word_of_nat n) = Some \<lparr>pow_nonce = word_of_nat (n + k)\<rparr>"
  using assms
proof (induction k arbitrary: n)
  case 0
  then show ?case by (simp add: solve_loop.simps pow_verify_def)
next
  case (Suc k)
  have "solve_loop B c d (word_of_nat (Suc n)) = Some \<lparr>pow_nonce = word_of_nat (Suc n + k)\<rparr>"
    using Suc.prems by (intro Suc.IH) (simp_all del: of_nat_Suc)
  moreover have "\<not> pow_verify B c \<lparr>pow_nonce = word_of_nat n\<rparr> d" using Suc.prems(2) [of n] by simp
  ultimately show ?case by (subst solve_loop.simps) (simp add: pow_verify_def add.commute)
qed

text \<open>The least nonce.\<close>

lemma solve_least:
  "case solve B challenge d of
     Some s \<Rightarrow> pow_verify B challenge s d \<and> (\<nexists>n. n < pow_nonce s \<and> pow_verify B challenge \<lparr>pow_nonce = n\<rparr> d)
   | None \<Rightarrow> \<nexists>s. pow_verify B challenge s d"
proof (cases "\<exists>s. pow_verify B challenge s d")
  case False
  then have "solve B challenge d = None"
    using solve_loop_sound [of B challenge d 0] by (cases "solve B challenge d") (auto simp: solve_def)
  with False show ?thesis by simp
next
  case True
  define ok where "ok i \<longleftrightarrow> pow_verify B challenge \<lparr>pow_nonce = word_of_nat i\<rparr> d" for i
  from True obtain s where "pow_verify B challenge s d" by blast
  then have "ok (unat (pow_nonce s))" by (cases s) (simp add: ok_def)
  then have "\<exists>m. ok m \<and> m \<le> unat (pow_nonce s) \<and> (\<forall>i < m. \<not> ok i)"
    by (intro exI [of _ "LEAST i. ok i"]) (auto intro: LeastI Least_le dest: not_less_Least)
  then obtain m where m: "ok m" "m \<le> unat (pow_nonce s)" "\<And>i. i < m \<Longrightarrow> \<not> ok i" by blast
  have unat_m: "unat (word_of_nat m :: u64) = m"
    using m(2) order.strict_trans1 [OF m(2) unat_less_power] by (intro unat_word_of_nat_less)
  have "solve B challenge d = Some \<lparr>pow_nonce = word_of_nat m\<rparr>"
    unfolding solve_def
    using solve_loop_reaches [of B challenge 0 m d] m(1,3) by (simp add: ok_def)
  moreover have "\<not> pow_verify B challenge \<lparr>pow_nonce = n\<rparr> d" if "n < word_of_nat m" for n
    using that m(3) [of "unat n"] by (simp add: word_less_nat_alt unat_m ok_def)
  ultimately show ?thesis using m(1) by (auto simp: ok_def)
qed

lemma solve_Some:
  assumes "pow_verify B c s d"
  obtains s' where "solve B c d = Some s'" "pow_verify B c s' d"
  using solve_least [of B c d] assms by (auto split: option.splits)

section \<open>Properties\<close>

text \<open>C33. The solver returns exactly when some nonce meets the difficulty; then it returns the least
  such nonce, and the verifier accepts it.\<close>

theorem solve_correct:
  "case solve B challenge d of
     Some s \<Rightarrow> pow_verify B challenge s d \<and> (\<nexists>n. n < pow_nonce s \<and> pow_verify B challenge \<lparr>pow_nonce = n\<rparr> d)
   | None \<Rightarrow> \<nexists>s. pow_verify B challenge s d"
  by (rule solve_least)

end
