(* ===== verification/Quota_Field.thy ===== *)
theory Quota_Field
  imports Prelude
begin

text \<open>
  The module \<^verbatim>\<open>field\<close> of \<^verbatim>\<open>crates/antispam-quota\<close>: arithmetic in the prime field of
  order \<open>2 ^ 61 - 1\<close> on \<^verbatim>\<open>u64\<close> values with \<^verbatim>\<open>u128\<close> intermediates.  \<^verbatim>\<open>sub\<close> computes
  \<open>a + P - b\<close> in \<^verbatim>\<open>u128\<close>, which panics when \<open>b > a + P\<close>; this can only happen for an
  operand that was not reduced.

  That every nonzero residue has order dividing \<open>P - 1\<close>, which \<^verbatim>\<open>inv\<close> relies on, is proved
  here from a certificate: 37 has order \<open>P - 1\<close>, hence its powers are all the nonzero
  residues.
\<close>

section \<open>The operations\<close>

definition P :: u64 where "P = 2305843009213693951"

definition reduce :: "u128 \<Rightarrow> u64" where
  "reduce x = ucast (x mod ucast P)"

definition field_add :: "u64 \<Rightarrow> u64 \<Rightarrow> u64" where
  "field_add a b = ucast (((ucast a :: u128) + ucast b) mod ucast P)"

definition field_sub :: "u64 \<Rightarrow> u64 \<Rightarrow> u64 option" where
  "field_sub a b =
     do { d \<leftarrow> sub_or_panic ((ucast a :: u128) + ucast P) (ucast b);
          Some (ucast (d mod ucast P)) }"

definition field_mul :: "u64 \<Rightarrow> u64 \<Rightarrow> u64" where
  "field_mul a b = reduce ((ucast a :: u128) * ucast b)"

text \<open>The \<^verbatim>\<open>while exp > 0\<close> loop of \<^verbatim>\<open>pow\<close>.\<close>

function field_pow_loop :: "u64 \<Rightarrow> u64 \<Rightarrow> u64 \<Rightarrow> u64" where
  "field_pow_loop base exp acc =
     (if exp > 0
      then field_pow_loop (field_mul base base) (drop_bit 1 exp)
             (if and exp 1 = 1 then field_mul acc base else acc)
      else acc)"
  by pat_completeness auto
termination
  by (relation "measure (\<lambda>(base, exp, acc). unat exp)")
    (auto simp: drop_bit_Suc unat_div_distrib word_less_nat_alt)

definition field_pow :: "u64 \<Rightarrow> u64 \<Rightarrow> u64" where
  "field_pow base exp = field_pow_loop (base mod P) exp 1"

definition field_inv :: "u64 \<Rightarrow> u64" where
  "field_inv a = field_pow a (P - 2)"

section \<open>The operations as arithmetic modulo the prime\<close>

abbreviation p61 :: int where "p61 \<equiv> 2305843009213693951"

lemma uint_P [simp]: "uint P = p61"
  by (simp add: P_def)

lemma uint_ucast_u128 [simp]: "uint (ucast (a :: u64) :: u128) = uint a"
  by (simp add: unsigned_ucast_eq take_bit_int_eq_self_iff order.strict_trans [OF unsigned_less])

lemma uint_u64_bounds: "0 \<le> uint (a :: u64)" "uint (a :: u64) < 18446744073709551616"
  using unsigned_less [of a, where ?'a = int] by simp_all

lemma uint_ucast_u64_mod: "uint (ucast (x mod ucast P :: u128) :: u64) = uint x mod p61"
proof -
  have "uint (x mod ucast P :: u128) = uint x mod p61" by (simp add: uint_mod_distrib)
  moreover have "uint x mod p61 < 2 ^ 64" by (rule order.strict_trans [OF pos_mod_bound]) simp_all
  ultimately show ?thesis by (simp add: unsigned_ucast_eq take_bit_int_eq_self_iff)
qed

lemma uint_reduce: "uint (reduce x) = uint x mod p61"
  by (simp add: reduce_def uint_ucast_u64_mod)

lemma uint_field_add: "uint (field_add a b) = (uint a + uint b) mod p61"
proof -
  have "uint ((ucast a :: u128) + ucast b) = uint a + uint b"
    using uint_u64_bounds [of a] uint_u64_bounds [of b]
    by (simp add: uint_word_ariths)
  then show ?thesis by (simp add: field_add_def uint_ucast_u64_mod)
qed

lemma uint_field_mul: "uint (field_mul a b) = (uint a * uint b) mod p61"
proof -
  have "uint a * uint b < 18446744073709551616 * 18446744073709551616"
    using uint_u64_bounds [of a] uint_u64_bounds [of b] by (intro mult_strict_mono) auto
  then have "uint ((ucast a :: u128) * ucast b) = uint a * uint b"
    using uint_u64_bounds [of a] uint_u64_bounds [of b] by (simp add: uint_word_ariths)
  then show ?thesis by (simp add: field_mul_def uint_reduce)
qed

lemma uint_add_P: "uint ((ucast a :: u128) + ucast P) = uint (a :: u64) + p61"
  using uint_u64_bounds [of a] by (simp add: uint_word_ariths)

lemma field_sub_None_iff: "field_sub a b = None \<longleftrightarrow> uint a + p61 < uint b"
  by (simp add: field_sub_def sub_or_panic_def word_le_def uint_add_P not_le)

lemma uint_field_sub:
  assumes "field_sub a b = Some c"
  shows "uint c = (uint a - uint b) mod p61"
proof -
  let ?d = "(ucast a :: u128) + ucast P - ucast b"
  have le: "(ucast b :: u128) \<le> ucast a + ucast P" and c: "c = ucast (?d mod ucast P)"
    using assms by (auto simp: field_sub_def sub_or_panic_def split: if_splits)
  have "uint ?d = uint a + p61 - uint b"
    using le by (simp only: uint_minus_simple_alt uint_add_P uint_ucast_u128)
  then have "uint ?d mod p61 = (uint a - uint b + p61) mod p61"
    by (simp only: add_diff_eq [symmetric] add.commute diff_add_eq)
  then show ?thesis unfolding c uint_ucast_u64_mod by (simp only: mod_add_self2)
qed

lemma field_sub_reduced:
  assumes "uint b < p61"
  shows "\<exists>c. field_sub a b = Some c \<and> uint c = (uint a - uint b) mod p61"
proof (cases "field_sub a b")
  case None
  then have "uint a + p61 < uint b" by (simp only: field_sub_None_iff)
  with assms uint_u64_bounds(1) [of a] show ?thesis by linarith
next
  case (Some c)
  then show ?thesis using uint_field_sub by blast
qed

declare field_pow_loop.simps [simp del]

lemma uint_and_1: "(and exp 1 = (1 :: u64)) \<longleftrightarrow> odd (unat exp)"
  by (simp add: and_one_eq word_eq_iff_unsigned [where ?'a = nat] unat_mod odd_iff_mod_2_eq_one)

lemma mult_power_mod: "x * (y mod m) ^ e mod m = x * y ^ e mod (m :: int)"
proof -
  have "x * (y mod m) ^ e mod m = x * ((y mod m) ^ e mod m) mod m" by (simp only: mod_mult_right_eq)
  also have "\<dots> = x * y ^ e mod m" by (simp only: power_mod mod_mult_right_eq)
  finally show ?thesis .
qed

lemma sq_power: "(b * b) ^ e = b ^ (2 * e)" for b :: int
  by (simp add: power_mult power2_eq_square)

lemma uint_field_pow_loop:
  "uint acc < p61 \<Longrightarrow> uint (field_pow_loop base exp acc) = uint acc * uint base ^ unat exp mod p61"
proof (induction base exp acc rule: field_pow_loop.induct)
  case (1 base exp acc)
  show ?case
  proof (cases "exp > 0")
    case False
    then have "exp = 0" by (simp add: word_gt_0)
    then show ?thesis using "1.prems" by (subst field_pow_loop.simps) simp
  next
    case True
    let ?acc = "if and exp 1 = 1 then field_mul acc base else acc" and ?e = "unat exp div 2"
    have acc: "uint ?acc < p61" using "1.prems" by (simp add: uint_field_mul)
    have half: "unat (drop_bit 1 exp) = ?e" by (simp add: drop_bit_Suc unat_div_distrib)
    have "uint (field_pow_loop base exp acc) = uint ?acc * uint (field_mul base base) ^ ?e mod p61"
      using "1.IH" [OF True acc] True half by (subst field_pow_loop.simps) simp
    also have "\<dots> = uint ?acc * (uint base * uint base) ^ ?e mod p61"
      by (simp only: uint_field_mul mult_power_mod)
    also have "\<dots> = uint acc * uint base ^ unat exp mod p61"
    proof (cases "odd (unat exp)")
      case True
      then have e: "unat exp = Suc (2 * ?e)" by simp
      have "uint ?acc * (uint base * uint base) ^ ?e mod p61
          = uint acc * uint base * (uint base * uint base) ^ ?e mod p61"
        using True by (simp add: uint_and_1 uint_field_mul mod_simps)
      also have "\<dots> = uint acc * uint base ^ Suc (2 * ?e) mod p61"
        by (simp add: power_mult power2_eq_square mult.assoc)
      finally show ?thesis using e by simp
    next
      case False
      then have e: "unat exp = 2 * ?e" by simp
      have "uint ?acc * (uint base * uint base) ^ ?e mod p61 = uint acc * uint base ^ (2 * ?e) mod p61"
        using False by (simp only: uint_and_1 if_False sq_power)
      then show ?thesis using e by simp
    qed
    finally show ?thesis .
  qed
qed

lemma uint_field_pow: "uint (field_pow base exp) = uint base ^ unat exp mod p61"
  by (simp add: field_pow_def uint_field_pow_loop uint_mod_distrib power_mod)

section \<open>A generator of the nonzero residues\<close>

text \<open>Modular powers by repeated squaring, with the Mersenne reduction, on bit lists.\<close>

definition mred :: "int \<Rightarrow> int" where
  "mred x = (let y = take_bit 61 x + drop_bit 61 x in if y < p61 then y else y - p61)"

fun mpow :: "int \<Rightarrow> bool list \<Rightarrow> int" where
  "mpow g [] = 1"
| "mpow g (b # bs) = (let r = mpow g bs; s = mred (r * r) in if b then mred (s * g) else s)"

fun low_bits :: "nat \<Rightarrow> int \<Rightarrow> bool list" where
  "low_bits 0 n = []"
| "low_bits (Suc k) n = (n mod 2 = 1) # low_bits k (n div 2)"

lemma mred_mod: "0 \<le> x \<Longrightarrow> x \<le> (p61 - 1) * (p61 - 1) \<Longrightarrow> mred x = x mod p61"
proof -
  assume x: "0 \<le> x" "x \<le> (p61 - 1) * (p61 - 1)"
  define q r where "q = x div 2305843009213693952" and "r = x mod 2305843009213693952"
  have x_eq: "x = p61 * q + (q + r)" by (simp add: q_def r_def)
  have q: "0 \<le> q" "q < p61 - 1" using x by (simp_all add: q_def)
  have r: "0 \<le> r" "r \<le> p61" by (simp_all add: r_def)
  have red: "mred x = (if r + q < p61 then r + q else r + q - p61)"
    by (simp add: mred_def q_def r_def take_bit_eq_mod drop_bit_eq_div)
  have "x mod p61 = (q + r) mod p61" unfolding x_eq by (rule mod_mult_self4)
  also have "\<dots> = (if r + q < p61 then r + q else r + q - p61)"
  proof (cases "r + q < p61")
    case True
    then show ?thesis using q r by (simp add: add.commute)
  next
    case False
    then have "(q + r) mod p61 = (q + r - p61) mod p61" by (simp only: minus_mod_self2)
    also have "\<dots> = q + r - p61" using False q r by (intro mod_pos_pos_trivial) auto
    finally show ?thesis using False by (simp add: add.commute)
  qed
  finally show ?thesis using red by simp
qed

lemma mred_mult: 
  assumes "0 \<le> a" "a < p61" "0 \<le> b" "b < p61"
  shows "mred (a * b) = a * b mod p61"
proof (rule mred_mod)
  show "a * b \<le> (p61 - 1) * (p61 - 1)" using assms by (intro mult_mono) auto
qed (use assms in simp)

lemma mpow_low_bits:
  assumes "0 < g" "g < p61"
  shows "0 \<le> n \<Longrightarrow> n < 2 ^ k \<Longrightarrow> mpow g (low_bits k n) = g ^ nat n mod p61"
proof (induction k arbitrary: n)
  case 0
  then show ?case by simp
next
  case (Suc k)
  have IH: "mpow g (low_bits k (n div 2)) = g ^ nat (n div 2) mod p61"
    using Suc.prems by (intro Suc.IH) auto
  let ?h = "g ^ nat (n div 2)"
  have sq: "mred (?h mod p61 * (?h mod p61)) = ?h * ?h mod p61"
    by (subst mred_mult) (simp_all add: mod_mult_eq)
  show ?case
  proof (cases "n mod 2 = 1")
    case True
    then have "n = 1 + (n div 2 + n div 2)" by presburger
    moreover have "0 \<le> n div 2" using Suc.prems by simp
    ultimately have "nat n = Suc (nat (n div 2) + nat (n div 2))" by linarith
    moreover have "mred (?h * ?h mod p61 * g) = ?h * ?h * g mod p61"
      using assms by (subst mred_mult) (simp_all add: mod_mult_left_eq)
    ultimately show ?thesis using True by (simp add: IH sq Let_def power_add mult.commute)
  next
    case False
    then have "n = n div 2 + n div 2" by presburger
    moreover have "0 \<le> n div 2" using Suc.prems by simp
    ultimately have "nat n = nat (n div 2) + nat (n div 2)" by linarith
    with False show ?thesis by (simp add: IH sq Let_def power_add)
  qed
qed

text \<open>Powers of 37; the exponents are too large to expand, so the power stays folded.\<close>

definition g37 :: "nat \<Rightarrow> int" where
  "g37 n = 37 ^ n mod p61"

lemma g37_mpow: "int n < 2305843009213693952 \<Longrightarrow> g37 n = mpow 37 (low_bits 61 (int n))"
  unfolding g37_def by (subst mpow_low_bits) simp_all

text \<open>The prime factors of \<open>P - 1\<close>.\<close>

abbreviation n61 :: nat where "n61 \<equiv> 2305843009213693950"

text \<open>Each factor comes with a bound above its square root, for trial division.\<close>

definition trial_bounds :: "(nat \<times> nat) list" where
  "trial_bounds = [(2, 2), (3, 2), (5, 3), (7, 3), (11, 4), (13, 4), (31, 6), (41, 7), (61, 8),
     (151, 13), (331, 19), (1321, 37)]"

definition factors61 :: "nat list" where
  "factors61 = map fst trial_bounds"

lemma factors61_eq: "factors61 = [2, 3, 5, 7, 11, 13, 31, 41, 61, 151, 331, 1321]"
  by (simp add: factors61_def trial_bounds_def)

lemma certificate_full: "mpow 37 (low_bits 61 2305843009213693950) = 1"
  by code_simp

lemma certificate_2: "mpow 37 (low_bits 61 1152921504606846975) = 2305843009213693950"
  by code_simp

lemma certificate_3: "mpow 37 (low_bits 61 768614336404564650) = 1669582390241348315"
  by code_simp

lemma certificate_5: "mpow 37 (low_bits 61 461168601842738790) = 725554454131936870"
  by code_simp

lemma certificate_7: "mpow 37 (low_bits 61 329406144173384850) = 1165310750493918737"
  by code_simp

lemma certificate_11: "mpow 37 (low_bits 61 209622091746699450) = 2266698407988980144"
  by code_simp

lemma certificate_13: "mpow 37 (low_bits 61 177372539170284150) = 1032504562576723207"
  by code_simp

lemma certificate_31: "mpow 37 (low_bits 61 74382032555280450) = 484083891529811867"
  by code_simp

lemma certificate_41: "mpow 37 (low_bits 61 56240073395455950) = 1562651311446036838"
  by code_simp

lemma certificate_61: "mpow 37 (low_bits 61 37800705069076950) = 35184372088832"
  by code_simp

lemma certificate_151: "mpow 37 (low_bits 61 15270483504726450) = 1433721343585656393"
  by code_simp

lemma certificate_331: "mpow 37 (low_bits 61 6966293079195450) = 185945230422323302"
  by code_simp

lemma certificate_1321: "mpow 37 (low_bits 61 1745528394559950) = 30210013857155493"
  by code_simp

lemmas certificates = certificate_2 certificate_3 certificate_5 certificate_7 certificate_11
  certificate_13 certificate_31 certificate_41 certificate_61 certificate_151 certificate_331
  certificate_1321

lemma g37_n61: "g37 n61 = 1"
  using certificate_full by (simp add: g37_mpow del: low_bits.simps mpow.simps)

lemma g37_n61_div: "q \<in> set factors61 \<Longrightarrow> g37 (n61 div q) \<noteq> 1"
  using certificates by (auto simp: factors61_eq g37_mpow simp del: low_bits.simps mpow.simps)

text \<open>Divisors of \<open>P - 1\<close>: each factor is prime, so a divisor none of them divides is 1.\<close>

lemma divisor_of_small_prime:
  fixes q d :: nat
  assumes "\<And>c. 2 \<le> c \<Longrightarrow> c < k \<Longrightarrow> \<not> c dvd q" and "q < k * k" and "0 < q" and "d dvd q"
  shows "d = 1 \<or> d = q"
proof -
  obtain e where e: "q = d * e" using assms(4) by (rule dvdE)
  have "d < k \<or> e < k" using e assms(2) by (metis mult_le_mono not_le)
  moreover have "d \<noteq> 0" "e \<noteq> 0" using e assms(3) by auto
  moreover have "d < 2" if "d < k" using assms(1) [of d] assms(4) that by linarith
  moreover have "e < 2" if "e < k" using assms(1) [of e] e that by (metis dvd_triv_right not_le)
  ultimately have "d = 1 \<or> e = 1" by linarith
  with e show ?thesis by auto
qed

lemma coprime_small_prime:
  fixes q m :: nat
  assumes "\<And>d. d dvd q \<Longrightarrow> d = 1 \<or> d = q" and "\<not> q dvd m"
  shows "coprime m q"
  using assms by (metis coprime_iff_gcd_eq_1 gcd_dvd1 gcd_dvd2)

lemma trial_division:
  "list_all (\<lambda>(q, k). 0 < q \<and> q < k * k \<and> list_all (\<lambda>c. \<not> c dvd q) [2..<k]) trial_bounds"
  by (simp add: trial_bounds_def)

lemma factors61_prime:
  assumes "q \<in> set factors61" and "d dvd q"
  shows "d = 1 \<or> d = q"
proof -
  from assms(1) obtain k where "(q, k) \<in> set trial_bounds" unfolding factors61_def by auto
  with trial_division have "0 < q" "q < k * k" "\<And>c. 2 \<le> c \<Longrightarrow> c < k \<Longrightarrow> \<not> c dvd q"
    unfolding list_all_iff by fastforce+
  then show ?thesis using assms(2) divisor_of_small_prime [of k q d] by blast
qed

lemma n61_factorisation: "n61 = 2 * 3 ^ 2 * 5 ^ 2 * 7 * 11 * 13 * 31 * 41 * 61 * 151 * 331 * 1321"
  by simp

lemma divisor_of_n61:
  assumes "m dvd n61" and "\<And>q. q \<in> set factors61 \<Longrightarrow> \<not> q dvd m"
  shows "m = 1"
proof -
  have cop: "coprime m q" if "q \<in> set factors61" for q
    using that assms(2) factors61_prime by (intro coprime_small_prime) auto
  have "coprime m n61"
    unfolding n61_factorisation coprime_mult_right_iff
    by (intro conjI coprime_power_right_iff [THEN iffD2] disjI1 cop) (simp_all add: factors61_eq)
  with assms(1) show ?thesis by (simp add: coprime_absorb_left)
qed

section \<open>Every nonzero residue is a power of 37\<close>

lemma g37_0: "g37 0 = 1"
  by (simp add: g37_def)

lemma g37_add: "g37 (a + b) = g37 a * g37 b mod p61"
  by (simp only: g37_def power_add mod_mult_eq)

lemma g37_mult: "g37 (a * b) = g37 a ^ b mod p61"
  by (simp only: g37_def power_mult power_mod)

lemma g37_bounds: "0 \<le> g37 a" "g37 a < p61"
  by (simp_all add: g37_def)

lemma g37_dvd: "g37 a = 1 \<Longrightarrow> a dvd b \<Longrightarrow> g37 b = 1"
  by (auto simp: g37_mult elim!: dvdE)

lemma g37_cancel:
  assumes "g37 (a + b) = g37 a" and "a \<le> n61"
  shows "g37 b = 1"
proof -
  have inv: "g37 (n61 - a) * g37 a mod p61 = 1"
    using assms(2) g37_n61 g37_add [of "n61 - a" a] by simp
  have "g37 b = 1 * g37 b mod p61" using g37_bounds [of b] by simp
  also have "\<dots> = g37 (n61 - a) * g37 a mod p61 * g37 b mod p61" by (simp only: inv)
  also have "\<dots> = g37 (n61 - a) * (g37 a * g37 b mod p61) mod p61"
    by (simp only: mod_mult_left_eq mod_mult_right_eq mult.assoc)
  also have "\<dots> = g37 (n61 - a) * g37 a mod p61" by (simp only: g37_add [symmetric] assms(1))
  finally show ?thesis by (simp only: inv)
qed

lemma g37_order:
  assumes "g37 d = 1" and "0 < d"
  shows "n61 \<le> d"
proof (rule ccontr)
  assume less: "\<not> n61 \<le> d"
  define e where "e = gcd d n61"
  obtain x y where xy: "d * x = n61 * y + e"
    using bezout_nat [of d n61] assms(2) unfolding e_def by auto
  have "g37 (d * x) = 1" by (rule g37_dvd [OF assms(1)]) simp
  then have "1 = g37 (n61 * y) * g37 e mod p61" by (simp only: xy g37_add)
  then have e1: "g37 e = 1"
    using g37_dvd [OF g37_n61, of "n61 * y"] g37_bounds [of e] by simp
  have "e dvd n61" by (simp add: e_def)
  then obtain m where m: "n61 = e * m" by (rule dvdE)
  have "e \<le> d" using assms(2) by (simp add: e_def gcd_le1_nat)
  then have "m \<noteq> 1" using m less by auto
  then obtain q where q: "q \<in> set factors61" "q dvd m"
    using divisor_of_n61 [of m] m by (metis dvd_triv_right)
  then have "e dvd n61 div q" unfolding m by (metis div_mult_swap dvd_triv_left)
  with g37_dvd [OF e1] g37_n61_div [OF q(1)] show False by simp
qed

lemma g37_inj: "inj_on g37 {0..<n61}"
proof (rule linorder_inj_onI)
  fix a b :: nat
  assume ab: "a < b" "a \<in> {0..<n61}" "b \<in> {0..<n61}"
  show "g37 a \<noteq> g37 b"
  proof
    assume "g37 a = g37 b"
    then have "g37 (a + (b - a)) = g37 a" using ab(1) by simp
    then have "g37 (b - a) = 1" by (rule g37_cancel) (use ab in simp)
    then have "n61 \<le> b - a" by (rule g37_order) (use ab in simp)
    with ab show False by simp
  qed
qed auto

lemma g37_nonzero: "a < n61 \<Longrightarrow> 0 < g37 a"
proof (rule ccontr)
  assume "a < n61" "\<not> 0 < g37 a"
  moreover from this have "g37 a = 0" using g37_bounds(1) [of a] by linarith
  ultimately show False using g37_n61 g37_add [of "n61 - a" a] by simp
qed

lemma g37_surj: "g37 ` {0..<n61} = {1..<p61}"
proof (rule card_subset_eq)
  show "g37 ` {0..<n61} \<subseteq> {1..<p61}" using g37_nonzero g37_bounds(2) by fastforce
  show "card (g37 ` {0..<n61}) = card {1..<p61}" by (simp add: card_image [OF g37_inj])
qed simp

lemma fermat_p61:
  assumes "0 < a" "a < p61"
  shows "a ^ n61 mod p61 = 1"
proof -
  have "a \<in> g37 ` {0..<n61}" unfolding g37_surj using assms by simp
  then obtain k where k: "a = g37 k" by blast
  have "a ^ n61 mod p61 = g37 (k * n61)" unfolding k by (rule g37_mult [symmetric])
  also have "\<dots> = 1" by (rule g37_dvd [OF g37_n61]) simp
  finally show ?thesis .
qed

lemma field_inv_mult:
  assumes "0 < uint a" "uint a < p61"
  shows "uint a * uint (field_inv a) mod p61 = 1"
proof -
  have e: "unat (P - 2) = 2305843009213693949" by (simp add: P_def)
  have "uint a * uint (field_inv a) mod p61 = uint a * uint a ^ 2305843009213693949 mod p61"
    by (simp only: field_inv_def uint_field_pow e mod_mult_right_eq)
  also have "uint a * uint a ^ 2305843009213693949 = uint a ^ n61"
    by (simp only: power_Suc [symmetric] Suc_numeral semiring_norm)
  finally show ?thesis by (simp only: fermat_p61 [OF assms])
qed

end
