(* ===== verification/Quota.thy ===== *)
theory Quota
  imports Quota_Field Primitives
begin

text \<open>
  \<^verbatim>\<open>crates/antispam-quota\<close> (after the module \<^verbatim>\<open>field\<close>): quota notes, RLN rate proofs and
  their wire form, and the registry that admits a fresh slot, recognises a duplicate and recovers
  the secret of a staker who uses one slot for two messages.  The registry's hash map is a map from
  (epoch, rate nullifier) to the first share seen.  \<^verbatim>\<open>admit\<close> subtracts values that come from
  the wire, so it can panic; its result is an option.
\<close>

section \<open>Quota notes and rate proofs\<close>

definition field_from :: "blake3 \<Rightarrow> string \<Rightarrow> bytes list \<Rightarrow> u64" where
  "field_from B context parts =
     reduce (ucast (u64_from_le_bytes (take 8 (hash_parts B context parts))))"

record QuotaNote =
  qn_stake :: u64
  qn_quota_key :: bytes

definition STAKE_PER_SLOT :: u64 where "STAKE_PER_SLOT = 1000"

definition quota :: "QuotaNote \<Rightarrow> u64" where
  "quota n = max (qn_stake n div STAKE_PER_SLOT) 1"

definition quota_commitment :: "blake3 \<Rightarrow> QuotaNote \<Rightarrow> bytes" where
  "quota_commitment B n =
     hash_parts B ''unknown.v0.quota.cm'' [u64_to_le_bytes (qn_stake n), qn_quota_key n]"

definition quota_secret :: "blake3 \<Rightarrow> QuotaNote \<Rightarrow> u64" where
  "quota_secret B n = field_from B ''unknown.v0.quota.a0'' [qn_quota_key n]"

definition quota_slope :: "blake3 \<Rightarrow> QuotaNote \<Rightarrow> u64 \<Rightarrow> u64" where
  "quota_slope B n epoch =
     field_from B ''unknown.v0.quota.a1'' [qn_quota_key n, u64_to_le_bytes epoch]"

definition rate_nullifier :: "blake3 \<Rightarrow> QuotaNote \<Rightarrow> u64 \<Rightarrow> u64 \<Rightarrow> bytes" where
  "rate_nullifier B n epoch k =
     hash_parts B ''unknown.v0.quota.rn''
       [qn_quota_key n, u64_to_le_bytes epoch, u64_to_le_bytes k]"

definition message_x :: "blake3 \<Rightarrow> bytes \<Rightarrow> u64" where
  "message_x B message = field_from B ''unknown.v0.quota.x'' [message]"

record RateProof =
  rp_epoch :: u64
  rp_rate_nullifier :: bytes
  rp_x :: u64
  rp_y :: u64

datatype QuotaError = QuotaExceeded u64 u64

definition signal :: "blake3 \<Rightarrow> QuotaNote \<Rightarrow> u64 \<Rightarrow> u64 \<Rightarrow> bytes \<Rightarrow> QuotaError + RateProof" where
  "signal B n epoch k message =
     (if k \<ge> quota n then Inl (QuotaExceeded k (quota n))
      else let x = message_x B message;
               y = field_add (quota_secret B n) (field_mul (quota_slope B n epoch) x)
           in Inr \<lparr>rp_epoch = epoch, rp_rate_nullifier = rate_nullifier B n epoch k, rp_x = x, rp_y = y\<rparr>)"

definition RATE_PROOF_LEN :: nat where "RATE_PROOF_LEN = 8 + 32 + 8 + 8"

definition rp_to_bytes :: "RateProof \<Rightarrow> bytes" where
  "rp_to_bytes rp = u64_to_le_bytes (rp_epoch rp) @ rp_rate_nullifier rp
     @ u64_to_le_bytes (rp_x rp) @ u64_to_le_bytes (rp_y rp)"

definition rp_from_bytes :: "bytes \<Rightarrow> RateProof" where
  "rp_from_bytes b =
     \<lparr>rp_epoch = u64_from_le_bytes (take 8 b),
      rp_rate_nullifier = take 32 (drop 8 b),
      rp_x = u64_from_le_bytes (take 8 (drop 40 b)),
      rp_y = u64_from_le_bytes (take 8 (drop 48 b))\<rparr>"

section \<open>The registry\<close>

datatype Admit = AdmitOk | Duplicate | Slash (recovered_secret: u64)

record QuotaRegistry =
  qr_seen :: "(u64 \<times> bytes) \<rightharpoonup> (u64 \<times> u64)"

definition qr_new :: QuotaRegistry where
  "qr_new = \<lparr>qr_seen = Map.empty\<rparr>"

definition admit :: "QuotaRegistry \<Rightarrow> RateProof \<Rightarrow> (QuotaRegistry \<times> Admit) option" where
  "admit reg proof =
     (let key = (rp_epoch proof, rp_rate_nullifier proof) in
      case qr_seen reg key of
        None \<Rightarrow> Some (reg\<lparr>qr_seen := (qr_seen reg)(key \<mapsto> (rp_x proof, rp_y proof))\<rparr>, AdmitOk)
      | Some (x0, y0) \<Rightarrow>
          if x0 = rp_x proof then Some (reg, Duplicate)
          else do {
            dx \<leftarrow> field_sub (rp_x proof) x0;
            dy \<leftarrow> field_sub (rp_y proof) y0;
            let a1 = field_mul dy (field_inv dx);
            a0 \<leftarrow> field_sub y0 (field_mul a1 x0);
            Some (reg, Slash a0) })"

text \<open>A stream of rate proofs offered to the registry, with its verdicts.\<close>

fun admit_all :: "QuotaRegistry \<Rightarrow> RateProof list \<Rightarrow> (QuotaRegistry \<times> Admit list) option" where
  "admit_all reg [] = Some (reg, [])"
| "admit_all reg (p # ps) =
     do { (reg', v) \<leftarrow> admit reg p; (reg'', vs) \<leftarrow> admit_all reg' ps; Some (reg'', v # vs) }"

section \<open>The interface of the share arithmetic\<close>

text \<open>
  What the recovery of a secret relies on: the operations act on residues modulo \<open>p\<close>,
  subtraction of a reduced operand does not fail, and nonzero residues have inverses.
\<close>

locale residue_arith =
  fixes rep :: "'a \<Rightarrow> int"
    and add :: "'a \<Rightarrow> 'a \<Rightarrow> 'a"
    and mul :: "'a \<Rightarrow> 'a \<Rightarrow> 'a"
    and sub :: "'a \<Rightarrow> 'a \<Rightarrow> 'a option"
    and inv :: "'a \<Rightarrow> 'a"
    and p :: int
  assumes p_pos: "0 < p"
    and rep_nonneg: "0 \<le> rep a"
    and rep_inject: "rep a = rep b \<Longrightarrow> a = b"
    and rep_add: "rep (add a b) = (rep a + rep b) mod p"
    and rep_mul: "rep (mul a b) = (rep a * rep b) mod p"
    and sub_reduced: "rep b < p \<Longrightarrow> \<exists>c. sub a b = Some c \<and> rep c = (rep a - rep b) mod p"
    and inv_law: "0 < rep a \<Longrightarrow> rep a < p \<Longrightarrow> rep a * rep (inv a) mod p = 1"
begin

lemma diff_nonzero:
  assumes "rep a < p" and "rep b < p" and "a \<noteq> b"
  shows "(rep a - rep b) mod p \<noteq> 0"
proof
  assume "(rep a - rep b) mod p = 0"
  then have "rep a mod p = rep b mod p" by (simp add: mod_eq_dvd_iff mod_0_imp_dvd)
  with assms(1,2) have "rep a = rep b" using rep_nonneg by simp
  with assms(3) rep_inject show False by blast
qed

text \<open>Two points on one line with different abscissas determine its constant term.\<close>

lemma line_recovery:
  assumes red: "rep a0 < p" "rep a1 < p" "rep x0 < p" "rep x1 < p" and "x0 \<noteq> x1"
    and y0: "y0 = add a0 (mul a1 x0)" and y1: "y1 = add a0 (mul a1 x1)"
  shows "\<exists>dx dy. sub x1 x0 = Some dx \<and> sub y1 y0 = Some dy
    \<and> sub y0 (mul (mul dy (inv dx)) x0) = Some a0"
proof -
  obtain dx where dx: "sub x1 x0 = Some dx" "rep dx = (rep x1 - rep x0) mod p"
    using sub_reduced [OF red(3)] by blast
  have "rep y0 < p" using p_pos by (simp add: y0 rep_add)
  then obtain dy where dy: "sub y1 y0 = Some dy" "rep dy = (rep y1 - rep y0) mod p"
    using sub_reduced by blast
  have "rep dx \<noteq> 0" using diff_nonzero [OF red(4,3)] assms(5) dx(2) by metis
  then have pos: "0 < rep dx" using rep_nonneg [of dx] by linarith
  have inv: "rep dx * rep (inv dx) mod p = 1"
    by (rule inv_law [OF pos]) (simp add: dx(2) p_pos)
  have "rep dy = rep a1 * rep dx mod p"
    unfolding dy(2) dx(2) y0 y1 rep_add rep_mul by (simp add: mod_simps algebra_simps)
  then have "rep (mul dy (inv dx)) = rep a1 * (rep dx * rep (inv dx) mod p) mod p"
    by (simp add: rep_mul mod_simps mult.assoc)
  then have slope: "mul dy (inv dx) = a1" using red(2) rep_nonneg [of a1] inv by (intro rep_inject) simp
  have "rep (mul a1 x0) < p" using p_pos by (simp add: rep_mul)
  then obtain a where a: "sub y0 (mul a1 x0) = Some a" "rep a = (rep y0 - rep (mul a1 x0)) mod p"
    using sub_reduced by blast
  have "rep a = rep a0" using red(1) rep_nonneg [of a0] unfolding a(2) y0 rep_add by (simp add: mod_simps)
  then show ?thesis using dx(1) dy(1) a(1) slope rep_inject by metis
qed

end

interpretation gf61: residue_arith uint field_add field_mul field_sub field_inv p61
proof
  show "uint a = uint b \<Longrightarrow> a = b" for a b :: u64 by (rule word_uint_eqI)
  show "\<exists>c. field_sub a b = Some c \<and> uint c = (uint a - uint b) mod p61" if "uint b < p61" for a b
    using that by (rule field_sub_reduced)
qed (simp_all add: uint_field_add uint_field_mul field_inv_mult)

section \<open>Facts on proofs and the registry\<close>

lemma field_from_reduced: "uint (field_from B c ps) < p61"
  by (simp add: field_from_def uint_reduce)

lemma quota_values_reduced:
  "uint (quota_secret B n) < p61" "uint (quota_slope B n e) < p61" "uint (message_x B m) < p61"
  by (simp_all add: quota_secret_def quota_slope_def message_x_def field_from_reduced)

lemma signal_Inr_iff:
  "signal B n epoch k message = Inr p \<longleftrightarrow> k < quota n
     \<and> p = \<lparr>rp_epoch = epoch, rp_rate_nullifier = rate_nullifier B n epoch k, rp_x = message_x B message,
        rp_y = field_add (quota_secret B n) (field_mul (quota_slope B n epoch) (message_x B message))\<rparr>"
  by (auto simp: signal_def Let_def)

lemma admit_fresh:
  "qr_seen reg (rp_epoch p, rp_rate_nullifier p) = None \<Longrightarrow> admit reg p =
     Some (reg\<lparr>qr_seen := (qr_seen reg)((rp_epoch p, rp_rate_nullifier p) \<mapsto> (rp_x p, rp_y p))\<rparr>, AdmitOk)"
  by (simp add: admit_def Let_def)

lemma admit_duplicate:
  "qr_seen reg (rp_epoch p, rp_rate_nullifier p) = Some (rp_x p, y0) \<Longrightarrow> admit reg p = Some (reg, Duplicate)"
  by (simp add: admit_def Let_def)

lemma admit_AdmitOk_iff:
  "admit reg p = Some (reg', AdmitOk) \<longleftrightarrow> qr_seen reg (rp_epoch p, rp_rate_nullifier p) = None
     \<and> reg' = reg\<lparr>qr_seen := (qr_seen reg)((rp_epoch p, rp_rate_nullifier p) \<mapsto> (rp_x p, rp_y p))\<rparr>"
  by (auto simp: admit_def Let_def bind_eq_Some_conv split: option.splits prod.splits if_splits)

lemma admit_not_ok_unchanged: "admit reg p = Some (reg', v) \<Longrightarrow> v \<noteq> AdmitOk \<Longrightarrow> reg' = reg"
  by (auto simp: admit_def Let_def bind_eq_Some_conv split: option.splits prod.splits if_splits)

lemma admit_all_Cons_Some:
  "admit_all reg (p # ps) = Some (reg'', vs) \<longleftrightarrow>
     (\<exists>reg' v vs'. admit reg p = Some (reg', v) \<and> admit_all reg' ps = Some (reg'', vs') \<and> vs = v # vs')"
  by (auto simp: bind_eq_Some_conv split: prod.splits)

text \<open>Each admission consumes a slot that was free, so the verdicts count the new slots.\<close>

lemma admit_all_counts:
  assumes "admit_all reg ps = Some (reg', vs)" and "finite S"
    and "\<And>p. p \<in> set ps \<Longrightarrow> (rp_epoch p, rp_rate_nullifier p) \<in> S"
  shows "length (filter (\<lambda>v. v = AdmitOk) vs) \<le> card (S - dom (qr_seen reg))"
  using assms
proof (induction ps arbitrary: reg vs)
  case Nil
  then show ?case by simp
next
  case (Cons p ps)
  let ?key = "(rp_epoch p, rp_rate_nullifier p)"
  from Cons.prems(1) obtain r v ws where
    step: "admit reg p = Some (r, v)" and rest: "admit_all r ps = Some (reg', ws)" and vs: "vs = v # ws"
    unfolding admit_all_Cons_Some by blast
  have IH: "length (filter (\<lambda>v. v = AdmitOk) ws) \<le> card (S - dom (qr_seen r))"
    using Cons.IH [OF rest Cons.prems(2)] Cons.prems(3) by simp
  show ?case
  proof (cases "v = AdmitOk")
    case True
    with step have key: "?key \<in> S - dom (qr_seen reg)" and dom: "dom (qr_seen r) = insert ?key (dom (qr_seen reg))"
      using Cons.prems(3) [of p] by (auto simp: admit_AdmitOk_iff)
    have "S - dom (qr_seen r) = (S - dom (qr_seen reg)) - {?key}" unfolding dom by blast
    moreover have "card ((S - dom (qr_seen reg)) - {?key}) < card (S - dom (qr_seen reg))"
      using Cons.prems(2) by (intro card_Diff1_less [OF _ key]) simp
    ultimately have "length (filter (\<lambda>v. v = AdmitOk) ws) < card (S - dom (qr_seen reg))"
      using IH by simp
    with True vs show ?thesis by simp
  next
    case False
    then have "r = reg" using admit_not_ok_unchanged [OF step] by simp
    with IH False vs show ?thesis by simp
  qed
qed

lemma length_rp_to_bytes [codec_simps]: "length (rp_rate_nullifier rp) = 32 \<Longrightarrow> length (rp_to_bytes rp) = RATE_PROOF_LEN"
  by (simp add: rp_to_bytes_def RATE_PROOF_LEN_def)

lemma rp_from_to_bytes [codec_simps]:
  "length (rp_rate_nullifier rp) = 32 \<Longrightarrow> rp_from_bytes (rp_to_bytes rp) = rp"
  by (simp add: rp_from_bytes_def rp_to_bytes_def)

lemma take_drop_join: "m = n + k \<Longrightarrow> take n (drop i xs) @ take k (drop (i + n) xs) = take m (drop i xs)"
  by (simp only: take_add drop_drop add.commute [of i n])

lemma rp_to_from_bytes [codec_simps]:
  assumes "length b = RATE_PROOF_LEN"
  shows "rp_to_bytes (rp_from_bytes b) = b" and "length (rp_rate_nullifier (rp_from_bytes b)) = 32"
proof -
  have "rp_to_bytes (rp_from_bytes b) = take 8 b @ take 32 (drop 8 b) @ take 8 (drop 40 b) @ take 8 (drop 48 b)"
    using assms by (simp add: rp_to_bytes_def rp_from_bytes_def u64_to_from_le RATE_PROOF_LEN_def)
  also have "\<dots> = take 56 b"
    using take_drop_join [of 16 8 8 40 b] take_drop_join [of 48 32 16 8 b] take_drop_join [of 56 8 48 0 b]
    by simp
  finally show "rp_to_bytes (rp_from_bytes b) = b" using assms by (simp add: RATE_PROOF_LEN_def)
  show "length (rp_rate_nullifier (rp_from_bytes b)) = 32"
    using assms by (simp add: rp_from_bytes_def RATE_PROOF_LEN_def)
qed

text \<open>The wire form of a rate proof; the array type of \<^verbatim>\<open>from_bytes\<close> fixes the length.\<close>

interpretation rate_proof_codec: codec rp_to_bytes
    "\<lambda>b. if length b = RATE_PROOF_LEN then Inr (rp_from_bytes b) else Inl ()"
    "\<lambda>rp. length (rp_rate_nullifier rp) = 32"
  by unfold_locales (auto simp: codec_simps split: if_splits)

section \<open>Properties\<close>

text \<open>The field inverse of the quota arithmetic is a true inverse: multiplying any nonzero reduced
  value by its \<open>inv\<close> gives 1.\<close>

theorem field_inv_correct:
  assumes "a \<noteq> 0" and "a < P"
  shows "field_mul a (field_inv a) = 1"
proof -
  have "0 < a" using assms(1) by (simp add: word_gt_0)
  then have "0 < uint a" "uint a < p61" using assms(2) by (simp_all add: word_less_def)
  then have "uint (field_mul a (field_inv a)) = 1"
    by (simp only: uint_field_mul field_inv_mult)
  then show ?thesis by (simp add: word_uint_eqI)
qed

theorem field_inv_correct_witness:
  "(1234567 :: u64) \<noteq> 0 \<and> 1234567 < P \<and> field_mul 1234567 (field_inv 1234567) = 1"
  using field_inv_correct [of 1234567] by (simp add: P_def)

text \<open>Two messages on one slot give two points of one line.\<close>

lemma double_signal_slashed:
  assumes "signal B n epoch k m1 = Inr p1" and "signal B n epoch k m2 = Inr p2"
    and "message_x B m1 \<noteq> message_x B m2"
    and "qr_seen reg (epoch, rate_nullifier B n epoch k) = None"
  shows "\<exists>reg'. admit reg p1 = Some (reg', AdmitOk) \<and> admit reg' p2 = Some (reg', Slash (quota_secret B n))"
proof -
  note p = assms(1,2)[unfolded signal_Inr_iff]
  let ?reg = "reg\<lparr>qr_seen := (qr_seen reg)((rp_epoch p1, rp_rate_nullifier p1) \<mapsto> (rp_x p1, rp_y p1))\<rparr>"
  have first: "admit reg p1 = Some (?reg, AdmitOk)" using assms(4) p by (intro admit_fresh) simp
  obtain dx dy where "field_sub (rp_x p2) (rp_x p1) = Some dx" "field_sub (rp_y p2) (rp_y p1) = Some dy"
    "field_sub (rp_y p1) (field_mul (field_mul dy (field_inv dx)) (rp_x p1)) = Some (quota_secret B n)"
    using gf61.line_recovery [of "quota_secret B n" "quota_slope B n epoch" "message_x B m1" "message_x B m2"]
      quota_values_reduced assms(3) p by fastforce
  then have "admit ?reg p2 = Some (?reg, Slash (quota_secret B n))"
    using p assms(3) by (simp add: admit_def)
  with first show ?thesis by blast
qed

text \<open>C23. A staker who uses one slot of one epoch for two messages with different abscissas is
  slashed: the registry admits the first proof, and on the second it recovers exactly the
  secret of the quota note, without panicking.\<close>

theorem double_signal_recovers_secret:
  assumes "signal B n epoch k m1 = Inr p1" and "signal B n epoch k m2 = Inr p2"
    and "message_x B m1 \<noteq> message_x B m2"
    and "qr_seen reg (epoch, rate_nullifier B n epoch k) = None"
  shows "\<exists>reg'. admit reg p1 = Some (reg', AdmitOk) \<and> admit reg' p2 = Some (reg', Slash (quota_secret B n))"
  using assms by (rule double_signal_slashed)

text \<open>A hash on which a quota note can be evaluated: the last byte of the message, padded.\<close>

definition last_byte_hash :: blake3 where
  "last_byte_hash c m = last m # replicate 31 0"

definition sample_note :: QuotaNote where
  "sample_note = \<lparr>qn_stake = 5000, qn_quota_key = replicate 32 7\<rparr>"

theorem double_signal_recovers_secret_witness:
  "\<exists>p1 p2 reg'. signal last_byte_hash sample_note 9 0 [1] = Inr p1
     \<and> signal last_byte_hash sample_note 9 0 [2] = Inr p2
     \<and> admit qr_new p1 = Some (reg', AdmitOk)
     \<and> admit reg' p2 = Some (reg', Slash (quota_secret last_byte_hash sample_note))"
proof -
  have "hash_parts last_byte_hash c [[b]] = b # replicate 31 0" for b c
    by (simp add: hash_parts_def last_byte_hash_def absorb_parts_def)
  then have mx: "message_x last_byte_hash [b] = reduce (ucast (word_of_nat (unat b) :: u64))" for b
    by (simp add: message_x_def field_from_def u64_from_le_bytes_def of_le_zeros)
  have x: "message_x last_byte_hash [1] \<noteq> message_x last_byte_hash [2]"
    by (simp add: mx reduce_def P_def)
  have q: "0 < quota sample_note" by (simp add: quota_def sample_note_def STAKE_PER_SLOT_def)
  show ?thesis
    using double_signal_recovers_secret [OF signal_Inr_iff [THEN iffD2, OF conjI [OF q refl]]
        signal_Inr_iff [THEN iffD2, OF conjI [OF q refl]] x, of qr_new 9]
    by (auto simp: signal_Inr_iff q qr_new_def)
qed

text \<open>C24. Rate limit: however many rate proofs a quota note signs in one epoch, for whatever slots and
  messages, a registry admits at most \<open>quota\<close> of them.\<close>

theorem admissions_bounded_by_quota:
  assumes "admit_all reg ps = Some (reg', vs)"
    and "\<forall>p \<in> set ps. \<exists>k m. signal B n epoch k m = Inr p"
  shows "length (filter (\<lambda>v. v = AdmitOk) vs) \<le> unat (quota n)"
proof -
  let ?S = "(\<lambda>k. (epoch, rate_nullifier B n epoch (word_of_nat k))) ` {..<unat (quota n)}"
  have "(rp_epoch p, rp_rate_nullifier p) \<in> ?S" if p: "p \<in> set ps" for p
  proof -
    obtain k m where "signal B n epoch k m = Inr p" using assms(2) p by blast
    then have "k < quota n" "(rp_epoch p, rp_rate_nullifier p) = (epoch, rate_nullifier B n epoch k)"
      by (auto simp: signal_Inr_iff)
    then show ?thesis
      by (intro image_eqI [of _ _ "unat k"]) (simp_all add: word_less_nat_alt)
  qed
  then have "length (filter (\<lambda>v. v = AdmitOk) vs) \<le> card (?S - dom (qr_seen reg))"
    using admit_all_counts [OF assms(1)] by blast
  also have "\<dots> \<le> card ?S" by (rule card_mono) auto
  also have "\<dots> \<le> unat (quota n)" by (rule order_trans [OF card_image_le]) auto
  finally show ?thesis .
qed

theorem admissions_bounded_by_quota_witness:
  "\<exists>p. signal zero_hash sample_note 7 0 [] = Inr p \<and> admit_all qr_new [p, p] = Some
       (\<lparr>qr_seen = [(7, rate_nullifier zero_hash sample_note 7 0) \<mapsto> (rp_x p, rp_y p)]\<rparr>, [AdmitOk, Duplicate])
     \<and> length (filter (\<lambda>v. v = AdmitOk) [AdmitOk, Duplicate]) \<le> unat (quota sample_note)"
proof -
  have q: "0 < quota sample_note" by (simp add: quota_def sample_note_def STAKE_PER_SLOT_def)
  then obtain p where p: "signal zero_hash sample_note 7 0 [] = Inr p" by (auto simp: signal_Inr_iff)
  have run: "admit_all qr_new [p, p] = Some
       (\<lparr>qr_seen = [(7, rate_nullifier zero_hash sample_note 7 0) \<mapsto> (rp_x p, rp_y p)]\<rparr>, [AdmitOk, Duplicate])"
    using p by (simp add: signal_Inr_iff admit_def qr_new_def)
  then show ?thesis using p admissions_bounded_by_quota [OF run, of zero_hash sample_note 7] by auto
qed

text \<open>The last subtraction of \<^verbatim>\<open>admit\<close> takes away a reduced value and cannot overflow.\<close>

lemma field_sub_mul: "\<exists>r. field_sub y (field_mul a b) = Some r"
proof -
  have "uint (field_mul a b) < p61" by (simp add: uint_field_mul)
  then have "\<not> uint y + p61 < uint (field_mul a b)" using uint_ge_0 [of y] by linarith
  then have "field_sub y (field_mul a b) \<noteq> None" by (simp only: field_sub_None_iff) simp
  then show ?thesis by simp
qed

lemma admit_panics_iff:
  "admit reg p = None \<longleftrightarrow> (\<exists>x0 y0. qr_seen reg (rp_epoch p, rp_rate_nullifier p) = Some (x0, y0) \<and> rp_x p \<noteq> x0
     \<and> (uint (rp_x p) + p61 < uint x0 \<or> uint (rp_y p) + p61 < uint y0))"
proof (cases "qr_seen reg (rp_epoch p, rp_rate_nullifier p)")
  case (Some share)
  obtain x0 y0 where s: "share = (x0, y0)" by fastforce
  have "admit reg p = None \<longleftrightarrow> rp_x p \<noteq> x0 \<and> (field_sub (rp_x p) x0 = None \<or> field_sub (rp_y p) y0 = None)"
  proof (cases "field_sub (rp_x p) x0 = None \<or> field_sub (rp_y p) y0 = None")
    case True
    then show ?thesis by (cases "field_sub (rp_x p) x0") (auto simp: admit_def Some s)
  next
    case False
    then obtain dx dy where d: "field_sub (rp_x p) x0 = Some dx" "field_sub (rp_y p) y0 = Some dy" by auto
    obtain a0 where "field_sub y0 (field_mul (field_mul dy (field_inv dx)) x0) = Some a0" using field_sub_mul by blast
    then show ?thesis using d by (auto simp: admit_def Some s)
  qed
  then show ?thesis by (simp add: Some s field_sub_None_iff)
qed (simp add: admit_def)

text \<open>C40. When the registry panics.  The registry panics on a proof exactly when it holds a share of the proof's slot with
  another abscissa, and one of the two coordinates that the proof carries lies more than the field's order below
  the stored one, which takes a stored coordinate that is not reduced.  So two proofs for one slot that is not in
  the registry yet make it panic exactly when their abscissas differ and a coordinate of the second, plus the order, is below that of the first.\<close>

theorem admit_panics_on_unreduced_share:
  "(admit reg p = None \<longleftrightarrow> (\<exists>x0 y0. qr_seen reg (rp_epoch p, rp_rate_nullifier p) = Some (x0, y0) \<and> rp_x p \<noteq> x0
      \<and> (uint (rp_x p) + p61 < uint x0 \<or> uint (rp_y p) + p61 < uint y0)))
   \<and> (qr_seen reg (rp_epoch p1, rp_rate_nullifier p1) = None \<longrightarrow> rp_epoch p2 = rp_epoch p1 \<longrightarrow> rp_rate_nullifier p2 = rp_rate_nullifier p1
      \<longrightarrow> (admit_all reg [p1, p2] = None \<longleftrightarrow> rp_x p2 \<noteq> rp_x p1
        \<and> (uint (rp_x p2) + p61 < uint (rp_x p1) \<or> uint (rp_y p2) + p61 < uint (rp_y p1))))"
proof (intro conjI impI)
  assume fresh: "qr_seen reg (rp_epoch p1, rp_rate_nullifier p1) = None"
    and same: "rp_epoch p2 = rp_epoch p1" "rp_rate_nullifier p2 = rp_rate_nullifier p1"
  let ?reg = "reg\<lparr>qr_seen := (qr_seen reg)((rp_epoch p1, rp_rate_nullifier p1) \<mapsto> (rp_x p1, rp_y p1))\<rparr>"
  have "admit_all reg [p1, p2] = None \<longleftrightarrow> admit ?reg p2 = None"
    using admit_fresh [OF fresh] by (cases "admit ?reg p2") auto
  then show "admit_all reg [p1, p2] = None \<longleftrightarrow> rp_x p2 \<noteq> rp_x p1
      \<and> (uint (rp_x p2) + p61 < uint (rp_x p1) \<or> uint (rp_y p2) + p61 < uint (rp_y p1))"
    by (simp add: admit_panics_iff same)
qed (rule admit_panics_iff)

text \<open>The largest ordinate that fits the wire, then zero; a stored ordinate that is the order itself does no harm.\<close>

theorem admit_panics_on_unreduced_share_witness:
  "admit_all qr_new [\<lparr>rp_epoch = 0, rp_rate_nullifier = replicate 32 1, rp_x = 5, rp_y = 18446744073709551615\<rparr>,
     \<lparr>rp_epoch = 0, rp_rate_nullifier = replicate 32 1, rp_x = 6, rp_y = 0\<rparr>] = None
   \<and> admit_all qr_new [\<lparr>rp_epoch = 0, rp_rate_nullifier = replicate 32 1, rp_x = 5, rp_y = P\<rparr>,
     \<lparr>rp_epoch = 0, rp_rate_nullifier = replicate 32 1, rp_x = 6, rp_y = 0\<rparr>] \<noteq> None"
proof -
  let ?p = "\<lambda>x y. \<lparr>rp_epoch = 0, rp_rate_nullifier = replicate 32 1, rp_x = x, rp_y = y\<rparr>"
  have "admit_all qr_new [?p 5 y, ?p 6 0] = None \<longleftrightarrow> p61 < uint y" for y
    using conjunct2 [OF admit_panics_on_unreduced_share [of qr_new "?p 6 0" "?p 5 y" "?p 6 0"]] by (simp add: qr_new_def)
  then show ?thesis by (simp add: P_def)
qed

end
