(* ===== verification/Keys.thy ===== *)
theory Keys
  imports Primitives
begin

text \<open>
  \<^verbatim>\<open>crates/keys\<close>: the key hierarchy and the payment address with its checksummed text form.

  ML-KEM-768, X25519, ChaCha20-Poly1305 and the hex codec are third-party packages.  They are
  the fields of the parameter record \<open>crypto_lib\<close>; what the code relies on is stated as
  the named predicates below it.  Values whose Rust type is an array of the library's own output
  length (a shared secret of 32 bytes, a ciphertext of 1088) are byte lists, and the conversions
  between equal-length arrays (\<^verbatim>\<open>shared_to_32\<close>, \<^verbatim>\<open>try_into().expect(..)\<close>) are the
  identity.
\<close>

section \<open>The cryptographic libraries as a parameter\<close>

record crypto_lib =
  x25519_pub :: "bytes \<Rightarrow> bytes"
  x25519_dh :: "bytes \<Rightarrow> bytes \<Rightarrow> bytes"
  mlkem_from_seed :: "bytes \<Rightarrow> bytes \<times> bytes"
  mlkem_encaps :: "bytes \<Rightarrow> bytes \<Rightarrow> (bytes \<times> bytes) option"
  mlkem_decaps :: "bytes \<Rightarrow> bytes \<Rightarrow> bytes"
  aead_encrypt :: "bytes \<Rightarrow> bytes \<Rightarrow> bytes \<Rightarrow> bytes option"
  aead_decrypt :: "bytes \<Rightarrow> bytes \<Rightarrow> bytes \<Rightarrow> bytes option"
  hex_encode :: "bytes \<Rightarrow> string"
  hex_decode :: "string \<Rightarrow> bytes option"

definition MLKEM_PK_LEN :: nat where "MLKEM_PK_LEN = 1184"
definition MLKEM_CT_LEN :: nat where "MLKEM_CT_LEN = 1088"
definition ADDRESS_HRP :: string where "ADDRESS_HRP = ''unk''"
definition ADDRESS_VERSION :: u8 where "ADDRESS_VERSION = 0"
definition ADDRESS_BODY_LEN :: nat where "ADDRESS_BODY_LEN = 1 + 32 + MLKEM_PK_LEN + 32"
definition ADDRESS_CHECKSUM_LEN :: nat where "ADDRESS_CHECKSUM_LEN = 4"

lemmas key_consts = MLKEM_PK_LEN_def MLKEM_CT_LEN_def ADDRESS_HRP_def ADDRESS_VERSION_def
  ADDRESS_BODY_LEN_def ADDRESS_CHECKSUM_LEN_def

text \<open>X25519 is a Diffie-Hellman function on 32-byte strings.\<close>

definition x25519_ok :: "crypto_lib \<Rightarrow> bool" where
  "x25519_ok C \<longleftrightarrow> (\<forall>a b. x25519_dh C a (x25519_pub C b) = x25519_dh C b (x25519_pub C a))
     \<and> (\<forall>a. length (x25519_pub C a) = 32) \<and> (\<forall>a p. length (x25519_dh C a p) = 32)"

text \<open>ML-KEM decapsulates what was encapsulated, for one key seed and one message (FIPS 203
  allows a negligible set of failing pairs, so this is not assumed of all of them).\<close>

definition mlkem_ok_at :: "crypto_lib \<Rightarrow> bytes \<Rightarrow> bytes \<Rightarrow> bool" where
  "mlkem_ok_at C seed m \<longleftrightarrow> (case mlkem_from_seed C seed of (dk, ek) \<Rightarrow>
     length ek = MLKEM_PK_LEN \<and>
     (case mlkem_encaps C ek m of None \<Rightarrow> False
      | Some (ct, ss) \<Rightarrow> length ct = MLKEM_CT_LEN \<and> length ss = 32 \<and> mlkem_decaps C dk ct = ss))"

definition aead_ok :: "crypto_lib \<Rightarrow> bool" where
  "aead_ok C \<longleftrightarrow> (\<forall>k n pt. \<exists>ct. aead_encrypt C k n pt = Some ct \<and> length ct = length pt + 16
     \<and> aead_decrypt C k n ct = Some pt)"

definition hex_ok :: "crypto_lib \<Rightarrow> bool" where
  "hex_ok C \<longleftrightarrow> (\<forall>bs. hex_decode C (hex_encode C bs) = Some bs)"

text \<open>An instance of the parameter that satisfies all of them.\<close>

definition null_crypto :: crypto_lib where
  "null_crypto =
     \<lparr>x25519_pub = (\<lambda>_. replicate 32 0), x25519_dh = (\<lambda>_ _. replicate 32 0),
      mlkem_from_seed = (\<lambda>_. ([], replicate 1184 0)),
      mlkem_encaps = (\<lambda>_ _. Some (replicate 1088 0, replicate 32 0)),
      mlkem_decaps = (\<lambda>_ _. replicate 32 0),
      aead_encrypt = (\<lambda>_ _ pt. Some (pt @ replicate 16 0)),
      aead_decrypt = (\<lambda>_ _ ct. Some (take (length ct - 16) ct)),
      hex_encode = map (\<lambda>b. char_of (unat b)),
      hex_decode = (\<lambda>s. Some (map (\<lambda>c. word_of_nat (of_char c)) s))\<rparr>"

lemma null_crypto_ok [simp]:
  "x25519_ok null_crypto" "mlkem_ok_at null_crypto seed m" "aead_ok null_crypto" "hex_ok null_crypto"
proof -
  show "x25519_ok null_crypto" "mlkem_ok_at null_crypto seed m" "aead_ok null_crypto"
    by (simp_all add: x25519_ok_def mlkem_ok_at_def aead_ok_def null_crypto_def key_consts)
  have "(of_char (char_of (unat b) :: char) :: nat) = unat b" for b :: u8
    using unat_less_power [of b] by simp
  then show "hex_ok null_crypto" by (simp add: hex_ok_def null_crypto_def comp_def)
qed

section \<open>The key hierarchy\<close>

record SpendingKey =
  sk_sk :: bytes

record Address =
  ad_x25519_pk :: bytes
  ad_kem_pk :: bytes
  ad_addr_tag :: bytes

record IncomingViewingKey =
  ivk_x25519_sk :: bytes
  ivk_kem_dk :: bytes
  ivk_addr_tag :: bytes

record FullViewingKey =
  fvk_ivk :: IncomingViewingKey
  fvk_nk :: bytes

datatype AddressError = AddrMalformed | WrongHrp

definition sk_from_seed :: "blake3 \<Rightarrow> bytes \<Rightarrow> SpendingKey" where
  "sk_from_seed B seed = \<lparr>sk_sk = derive_key B SK seed\<rparr>"

definition ask :: "blake3 \<Rightarrow> SpendingKey \<Rightarrow> bytes" where
  "ask B k = derive_key B ASK (sk_sk k)"

definition nk :: "blake3 \<Rightarrow> SpendingKey \<Rightarrow> bytes" where
  "nk B k = derive_key B NK (sk_sk k)"

definition addr_tag :: "blake3 \<Rightarrow> SpendingKey \<Rightarrow> bytes" where
  "addr_tag B k = hash_parts B ADDR_TAG [ask B k]"

definition x25519_secret :: "blake3 \<Rightarrow> SpendingKey \<Rightarrow> bytes" where
  "x25519_secret B k = derive_key B X25519 (sk_sk k)"

definition kem_seed :: "blake3 \<Rightarrow> SpendingKey \<Rightarrow> bytes" where
  "kem_seed B k = derive_key B KEM_SEED (sk_sk k) @ derive_key B ''unknown.v0.key.kemseed2'' (sk_sk k)"

definition kem_keypair :: "blake3 \<Rightarrow> crypto_lib \<Rightarrow> SpendingKey \<Rightarrow> bytes \<times> bytes" where
  "kem_keypair B C k = mlkem_from_seed C (kem_seed B k)"

definition sk_address :: "blake3 \<Rightarrow> crypto_lib \<Rightarrow> SpendingKey \<Rightarrow> Address" where
  "sk_address B C k =
     (let (_, ek) = kem_keypair B C k
      in \<lparr>ad_x25519_pk = x25519_pub C (x25519_secret B k), ad_kem_pk = ek, ad_addr_tag = addr_tag B k\<rparr>)"

definition incoming_viewing_key :: "blake3 \<Rightarrow> crypto_lib \<Rightarrow> SpendingKey \<Rightarrow> IncomingViewingKey" where
  "incoming_viewing_key B C k =
     (let (dk, _) = kem_keypair B C k
      in \<lparr>ivk_x25519_sk = x25519_secret B k, ivk_kem_dk = dk, ivk_addr_tag = addr_tag B k\<rparr>)"

definition full_viewing_key :: "blake3 \<Rightarrow> crypto_lib \<Rightarrow> SpendingKey \<Rightarrow> FullViewingKey" where
  "full_viewing_key B C k = \<lparr>fvk_ivk = incoming_viewing_key B C k, fvk_nk = nk B k\<rparr>"

definition ivk_dh :: "crypto_lib \<Rightarrow> IncomingViewingKey \<Rightarrow> bytes \<Rightarrow> bytes" where
  "ivk_dh C ivk ephemeral_pk = x25519_dh C (ivk_x25519_sk ivk) ephemeral_pk"

definition ivk_decapsulate :: "crypto_lib \<Rightarrow> IncomingViewingKey \<Rightarrow> bytes \<Rightarrow> bytes option" where
  "ivk_decapsulate C ivk ct =
     (if length ct = MLKEM_CT_LEN then Some (mlkem_decaps C (ivk_kem_dk ivk) ct) else None)"

definition kem_encapsulate :: "crypto_lib \<Rightarrow> Address \<Rightarrow> bytes \<Rightarrow> AddressError + bytes \<times> bytes" where
  "kem_encapsulate C a m_seed =
     (case mlkem_encaps C (ad_kem_pk a) m_seed of None \<Rightarrow> Inl AddrMalformed | Some r \<Rightarrow> Inr r)"

section \<open>The address codec\<close>

definition addr_payload :: "Address \<Rightarrow> bytes" where
  "addr_payload a = ADDRESS_VERSION # ad_x25519_pk a @ ad_kem_pk a @ ad_addr_tag a"

definition addr_checksum :: "blake3 \<Rightarrow> bytes \<Rightarrow> bytes" where
  "addr_checksum B payload =
     take ADDRESS_CHECKSUM_LEN (derive_key B ''unknown.v0.addr.checksum'' payload)"

definition addr_data :: "blake3 \<Rightarrow> Address \<Rightarrow> bytes" where
  "addr_data B a = addr_payload a @ addr_checksum B (addr_payload a)"

definition addr_encode :: "blake3 \<Rightarrow> crypto_lib \<Rightarrow> Address \<Rightarrow> string" where
  "addr_encode B C a = ADDRESS_HRP @ ''1'' @ hex_encode C (addr_data B a)"

definition strip_prefix :: "'a list \<Rightarrow> 'a list \<Rightarrow> 'a list option" where
  "strip_prefix p s = (if take (length p) s = p then Some (drop (length p) s) else None)"

definition decode_data :: "blake3 \<Rightarrow> bytes \<Rightarrow> AddressError + Address" where
  "decode_data B data =
     (if length data \<noteq> ADDRESS_BODY_LEN + ADDRESS_CHECKSUM_LEN \<or> hd data \<noteq> ADDRESS_VERSION
      then Inl AddrMalformed
      else let payload = take ADDRESS_BODY_LEN data; checksum = drop ADDRESS_BODY_LEN data
           in if checksum \<noteq> addr_checksum B payload then Inl AddrMalformed
              else Inr \<lparr>ad_x25519_pk = take 32 (drop 1 payload),
                        ad_kem_pk = take MLKEM_PK_LEN (drop 33 payload),
                        ad_addr_tag = drop (33 + MLKEM_PK_LEN) payload\<rparr>)"

definition addr_decode :: "blake3 \<Rightarrow> crypto_lib \<Rightarrow> string \<Rightarrow> AddressError + Address" where
  "addr_decode B C s =
     (case strip_prefix (ADDRESS_HRP @ ''1'') s of
        None \<Rightarrow> Inl WrongHrp
      | Some body \<Rightarrow> (case hex_decode C body of
            None \<Rightarrow> Inl AddrMalformed
          | Some data \<Rightarrow> decode_data B data))"

definition wf_addr :: "Address \<Rightarrow> bool" where
  [wf_defs]: "wf_addr a \<longleftrightarrow> length (ad_x25519_pk a) = 32 \<and> length (ad_kem_pk a) = MLKEM_PK_LEN
     \<and> length (ad_addr_tag a) = 32"

section \<open>Facts\<close>

lemma strip_prefix_append [simp]: "strip_prefix p (p @ s) = Some s"
  by (simp add: strip_prefix_def)

lemma strip_prefix_Some_iff: "strip_prefix p s = Some r \<longleftrightarrow> s = p @ r"
  by (auto simp: strip_prefix_def) (metis append_take_drop_id)

lemma wf_addr_sk_address:
  assumes "digest32 B" and "x25519_ok C" and "mlkem_ok_at C (kem_seed B k) m"
  shows "wf_addr (sk_address B C k)"
  using assms
  by (auto simp: wf_defs sk_address_def kem_keypair_def mlkem_ok_at_def x25519_ok_def addr_tag_def
      split: prod.splits)

lemma ad_addr_tag_sk_address [simp]: "ad_addr_tag (sk_address B C k) = addr_tag B k"
  by (simp add: sk_address_def split: prod.split)

lemma length_addr_tag [simp]: "digest32 B \<Longrightarrow> length (addr_tag B k) = 32"
  by (simp add: addr_tag_def)

text \<open>The byte form is a canonical codec: version, keys and tag behind a four-byte checksum.\<close>

lemma length_addr_checksum:
  assumes "digest32 B"
  shows "length (addr_checksum B p) = ADDRESS_CHECKSUM_LEN"
  using assms by (simp add: addr_checksum_def key_consts)

lemma length_addr_payload: "wf_addr a \<Longrightarrow> length (addr_payload a) = ADDRESS_BODY_LEN"
  by (simp add: addr_payload_def wf_defs key_consts)

lemma decode_addr_data:
  assumes "length (addr_checksum B (addr_payload a)) = ADDRESS_CHECKSUM_LEN" and "wf_addr a"
  shows "decode_data B (addr_data B a) = Inr a"
proof -
  note len = assms(1) length_addr_payload
  have "hd (addr_data B a) = ADDRESS_VERSION" by (simp add: addr_data_def addr_payload_def)
  moreover have "length (addr_data B a) = ADDRESS_BODY_LEN + ADDRESS_CHECKSUM_LEN"
    using len(1) len(2) [OF assms(2)] by (simp add: addr_data_def)
  moreover have "take ADDRESS_BODY_LEN (addr_data B a) = addr_payload a"
      "drop ADDRESS_BODY_LEN (addr_data B a) = addr_checksum B (addr_payload a)"
    using len(2) [OF assms(2)] by (simp_all add: addr_data_def)
  moreover have "take 32 (drop 1 (addr_payload a)) = ad_x25519_pk a"
      "take MLKEM_PK_LEN (drop 33 (addr_payload a)) = ad_kem_pk a"
      "drop (33 + MLKEM_PK_LEN) (addr_payload a) = ad_addr_tag a"
    using assms(2) by (simp_all add: addr_payload_def wf_defs numeral_eq_Suc)
  ultimately show ?thesis by (simp add: decode_data_def)
qed

lemma addr_payload_of_parts:
  assumes "length p = ADDRESS_BODY_LEN" and "hd p = ADDRESS_VERSION"
  shows "addr_payload \<lparr>ad_x25519_pk = take 32 (drop 1 p), ad_kem_pk = take MLKEM_PK_LEN (drop 33 p),
      ad_addr_tag = drop (33 + MLKEM_PK_LEN) p\<rparr> = p"
proof -
  obtain q where p: "p = ADDRESS_VERSION # q" using assms by (cases p) (auto simp: key_consts)
  have "take 32 q @ take MLKEM_PK_LEN (drop 32 q) @ drop (32 + MLKEM_PK_LEN) q = q"
    by (metis add.commute append_take_drop_id drop_drop)
  moreover have "drop (33 + MLKEM_PK_LEN) p = drop (32 + MLKEM_PK_LEN) q"
    by (simp add: p numeral_eq_Suc)
  ultimately show ?thesis by (simp add: p addr_payload_def)
qed

lemma decode_data_canonical:
  assumes "decode_data B data = Inr a"
  shows "wf_addr a \<and> addr_data B a = data"
proof -
  let ?p = "take ADDRESS_BODY_LEN data"
  have len: "length data = ADDRESS_BODY_LEN + ADDRESS_CHECKSUM_LEN" and v: "hd data = ADDRESS_VERSION"
    and chk: "drop ADDRESS_BODY_LEN data = addr_checksum B ?p"
    and a: "a = \<lparr>ad_x25519_pk = take 32 (drop 1 ?p), ad_kem_pk = take MLKEM_PK_LEN (drop 33 ?p),
      ad_addr_tag = drop (33 + MLKEM_PK_LEN) ?p\<rparr>"
    using assms by (auto simp: decode_data_def Let_def split: if_splits)
  have lp: "length ?p = ADDRESS_BODY_LEN" using len by simp
  moreover have "hd ?p = ADDRESS_VERSION" using v by (simp add: key_consts)
  ultimately have "addr_payload a = ?p" unfolding a by (rule addr_payload_of_parts)
  moreover have "wf_addr a" using lp by (simp add: a wf_defs key_consts)
  ultimately show ?thesis using chk append_take_drop_id [of ADDRESS_BODY_LEN data] by (simp add: addr_data_def)
qed

interpretation address_codec: codec "addr_data B" "decode_data B"
    "\<lambda>a. wf_addr a \<and> length (addr_checksum B (addr_payload a)) = ADDRESS_CHECKSUM_LEN" for B
proof
  fix data a
  assume dec: "decode_data B data = Inr a"
  then have "wf_addr a" "addr_data B a = data" using decode_data_canonical by blast+
  moreover from this have "length data = ADDRESS_BODY_LEN + length (addr_checksum B (addr_payload a))"
    by (auto simp: addr_data_def length_addr_payload)
  moreover have "length data = ADDRESS_BODY_LEN + ADDRESS_CHECKSUM_LEN"
    using dec by (simp add: decode_data_def split: if_splits)
  ultimately show "(wf_addr a \<and> length (addr_checksum B (addr_payload a)) = ADDRESS_CHECKSUM_LEN)
      \<and> addr_data B a = data" by simp
qed (simp add: decode_addr_data)

section \<open>Properties\<close>

text \<open>C30. The address codec is a round trip and detects every other string: the text of an address
  decodes to it, and a string decodes to an address only if it is the prefix \<^verbatim>\<open>unk1\<close> followed
  by a hex form of exactly that address's version, keys, tag and checksum.\<close>

theorem addr_decode_iff:
  assumes "digest32 B" and "hex_ok C" and "wf_addr a"
  shows "addr_decode B C (addr_encode B C a) = Inr a
    \<and> (\<forall>s. addr_decode B C s = Inr a
         \<longleftrightarrow> (\<exists>body. s = ''unk1'' @ body \<and> hex_decode C body = Some (addr_data B a)))"
proof -
  have chk: "decode_data B (addr_data B a) = Inr a"
    using assms by (simp add: address_codec.dec_enc length_addr_checksum)
  have dec: "decode_data B data = Inr a \<longleftrightarrow> data = addr_data B a" for data
    using address_codec.dec_canonical [OF _ chk] chk by blast
  have "addr_decode B C s = Inr a
      \<longleftrightarrow> (\<exists>body. s = ''unk1'' @ body \<and> hex_decode C body = Some (addr_data B a))" for s
  proof (cases "strip_prefix ''unk1'' s")
    case None
    then have "\<not> (\<exists>body. s = ''unk1'' @ body)" by (metis strip_prefix_append option.distinct(1))
    with None show ?thesis by (simp add: addr_decode_def ADDRESS_HRP_def)
  next
    case (Some body)
    then have s: "s = ''unk1'' @ body" by (simp only: strip_prefix_Some_iff)
    have "addr_decode B C s = Inr a \<longleftrightarrow> hex_decode C body = Some (addr_data B a)"
      using Some by (simp add: addr_decode_def ADDRESS_HRP_def dec split: option.split)
    then show ?thesis unfolding s by (simp only: same_append_eq) blast
  qed
  moreover have "hex_decode C (hex_encode C (addr_data B a)) = Some (addr_data B a)"
    using assms(2) by (simp add: hex_ok_def)
  ultimately show ?thesis by (simp add: addr_encode_def ADDRESS_HRP_def)
qed

definition zero_address :: Address where
  "zero_address = \<lparr>ad_x25519_pk = replicate 32 0, ad_kem_pk = replicate 1184 0, ad_addr_tag = replicate 32 0\<rparr>"

lemma addr_decode_iff_witness:
  "addr_decode zero_hash null_crypto (addr_encode zero_hash null_crypto zero_address) = Inr zero_address"
  using addr_decode_iff [of zero_hash null_crypto zero_address]
  by (simp add: zero_address_def wf_defs key_consts)

end
