(* ===== verification/Interfaces.thy ===== *)
theory Interfaces
  imports Primitives
begin

text \<open>
  \<^verbatim>\<open>crates/interfaces\<close>: the cross-crate types, constants and error values, and the canonical
  encoding of the public inputs of a spend.  \<^verbatim>\<open>Commitment\<close> and \<^verbatim>\<open>Nullifier\<close> are
  one-field wrappers around a digest, ordered lexicographically by their bytes as the derived
  \<^verbatim>\<open>Ord\<close> orders them.
\<close>

section \<open>Constants\<close>

definition TREE_DEPTH :: nat where "TREE_DEPTH = 32"
definition ANCHOR_WINDOW :: u64 where "ANCHOR_WINDOW = 1024"
definition MAX_MONEY :: u64 where "MAX_MONEY = 4611686018427387904"
definition TX_INPUTS :: nat where "TX_INPUTS = 2"
definition TX_OUTPUTS :: nat where "TX_OUTPUTS = 2"
definition PROOF_BUCKET :: nat where "PROOF_BUCKET = 192"

lemmas interface_consts = TREE_DEPTH_def ANCHOR_WINDOW_def MAX_MONEY_def TX_INPUTS_def
  TX_OUTPUTS_def PROOF_BUCKET_def

section \<open>Types\<close>

datatype Commitment = Commitment (cm_bytes: bytes)

datatype Nullifier = Nullifier (nf_bytes: bytes)

instantiation Nullifier :: linorder
begin

definition less_eq_Nullifier :: "Nullifier \<Rightarrow> Nullifier \<Rightarrow> bool" where
  "less_eq_Nullifier a b \<longleftrightarrow> nf_bytes a \<le> nf_bytes b"

definition less_Nullifier :: "Nullifier \<Rightarrow> Nullifier \<Rightarrow> bool" where
  "less_Nullifier a b \<longleftrightarrow> nf_bytes a < nf_bytes b"

instance
  by standard (auto simp: less_eq_Nullifier_def less_Nullifier_def intro: Nullifier.expand)

end

instantiation Commitment :: linorder
begin

definition less_eq_Commitment :: "Commitment \<Rightarrow> Commitment \<Rightarrow> bool" where
  "less_eq_Commitment a b \<longleftrightarrow> cm_bytes a \<le> cm_bytes b"

definition less_Commitment :: "Commitment \<Rightarrow> Commitment \<Rightarrow> bool" where
  "less_Commitment a b \<longleftrightarrow> cm_bytes a < cm_bytes b"

instance
  by standard (auto simp: less_eq_Commitment_def less_Commitment_def intro: Commitment.expand)

end

record Anchor =
  anc_height :: u64
  anc_root :: bytes

record MerklePath =
  mp_position :: u64
  mp_siblings :: "bytes list"

record SpendPublicInputs =
  pi_anchor :: Anchor
  pi_nullifiers :: "Nullifier list"
  pi_commitments :: "Commitment list"
  pi_binding_digest :: bytes
  pi_mint_value :: u64

datatype ProveError = Unsatisfied string

datatype VerifyError = VerifyInvalid | VerifyMalformed

text \<open>The trait \<^verbatim>\<open>SpendVerifier\<close>: a verifier is its one method.\<close>

type_synonym SpendVerifier = "SpendPublicInputs \<Rightarrow> bytes \<Rightarrow> VerifyError + unit"

record CompactCheckpoint =
  cc_anchor :: Anchor
  cc_outputs :: "(Commitment \<times> bytes) list"
  cc_nullifiers :: "Nullifier list"

section \<open>The canonical encoding of the public inputs\<close>

definition pi_encode :: "SpendPublicInputs \<Rightarrow> bytes" where
  "pi_encode pi =
     u64_to_le_bytes (anc_height (pi_anchor pi)) @ anc_root (pi_anchor pi)
     @ [word_of_nat (length (pi_nullifiers pi))] @ concat (map nf_bytes (pi_nullifiers pi))
     @ [word_of_nat (length (pi_commitments pi))] @ concat (map cm_bytes (pi_commitments pi))
     @ pi_binding_digest pi @ u64_to_le_bytes (pi_mint_value pi)"

text \<open>Array lengths that the Rust types fix.\<close>

definition wf_nf :: "Nullifier \<Rightarrow> bool" where
  [wf_defs]: "wf_nf nf \<longleftrightarrow> length (nf_bytes nf) = 32"

definition wf_cm :: "Commitment \<Rightarrow> bool" where
  [wf_defs]: "wf_cm cm \<longleftrightarrow> length (cm_bytes cm) = 32"

definition wf_anchor :: "Anchor \<Rightarrow> bool" where
  [wf_defs]: "wf_anchor a \<longleftrightarrow> length (anc_root a) = 32"

definition wf_pi :: "SpendPublicInputs \<Rightarrow> bool" where
  [wf_defs]: "wf_pi pi \<longleftrightarrow> wf_anchor (pi_anchor pi) \<and> list_all wf_nf (pi_nullifiers pi)
     \<and> list_all wf_cm (pi_commitments pi) \<and> length (pi_binding_digest pi) = 32
     \<and> length (pi_nullifiers pi) < 256 \<and> length (pi_commitments pi) < 256"

section \<open>Facts\<close>

lemma map_nf_bytes_inject [simp]: "map nf_bytes xs = map nf_bytes ys \<longleftrightarrow> xs = ys"
  by (simp add: inj_map_eq_map inj_def Nullifier.expand)

lemma map_cm_bytes_inject [simp]: "map cm_bytes xs = map cm_bytes ys \<longleftrightarrow> xs = ys"
  by (simp add: inj_map_eq_map inj_def Commitment.expand)

lemma concat_eq_same_shape:
  "length xs = length ys \<Longrightarrow> list_all (\<lambda>x. length x = k) xs \<Longrightarrow> list_all (\<lambda>y. length y = k) ys
   \<Longrightarrow> concat xs @ us = concat ys @ vs \<longleftrightarrow> xs = ys \<and> us = vs"
  by (induction xs ys rule: list_induct2) auto

lemma word_of_nat_u8_inject:
  assumes "m < 256" and "n < 256"
  shows "(word_of_nat m :: u8) = word_of_nat n \<longleftrightarrow> m = n"
proof
  assume "(word_of_nat m :: u8) = word_of_nat n"
  then have "unat (word_of_nat m :: u8) = unat (word_of_nat n :: u8)" by (rule arg_cong)
  with assms show "m = n" by (simp add: unat_of_nat)
qed simp

lemma pi_encode_inject:
  assumes "wf_pi p" and "wf_pi q" and eq: "pi_encode p = pi_encode q"
  shows "p = q"
proof -
  note wf = assms(1,2)[unfolded wf_defs list_all_iff]
  have nfs: "list_all (\<lambda>x. length x = 32) (map nf_bytes (pi_nullifiers r))" if "wf_pi r" for r
    using that by (simp add: wf_defs list_all_iff)
  have cms: "list_all (\<lambda>x. length x = 32) (map cm_bytes (pi_commitments r))" if "wf_pi r" for r
    using that by (simp add: wf_defs list_all_iff)
  have head: "anc_height (pi_anchor p) = anc_height (pi_anchor q)"
      "anc_root (pi_anchor p) = anc_root (pi_anchor q)"
      "length (pi_nullifiers p) = length (pi_nullifiers q)"
    using eq wf by (auto simp: pi_encode_def word_of_nat_u8_inject)
  then have "map nf_bytes (pi_nullifiers p) = map nf_bytes (pi_nullifiers q)"
    and n: "length (pi_commitments p) = length (pi_commitments q)"
    and rest: "concat (map cm_bytes (pi_commitments p)) @ pi_binding_digest p @ u64_to_le_bytes (pi_mint_value p)
      = concat (map cm_bytes (pi_commitments q)) @ pi_binding_digest q @ u64_to_le_bytes (pi_mint_value q)"
    using eq wf concat_eq_same_shape [OF _ nfs [OF assms(1)] nfs [OF assms(2)]]
    by (auto simp: pi_encode_def word_of_nat_u8_inject)
  moreover have "map cm_bytes (pi_commitments p) = map cm_bytes (pi_commitments q)"
    and "pi_binding_digest p = pi_binding_digest q" and "pi_mint_value p = pi_mint_value q"
    using rest n wf concat_eq_same_shape [OF _ cms [OF assms(1)] cms [OF assms(2)]] by auto
  ultimately show ?thesis using head by (simp add: SpendPublicInputs.equality Anchor.equality)
qed

section \<open>The interface of a commitment accumulator\<close>

text \<open>
  What provers, wallets and the ledger rely on: appending adds one leaf at the end, a leaf
  inside the capacity has an authentication path that verifies against the current root, and
  the root is a function of the leaves.
\<close>

locale accumulator =
  fixes leaves :: "'t \<Rightarrow> 'd list"
    and root :: "'t \<Rightarrow> 'd"
    and append :: "'t \<Rightarrow> 'c \<Rightarrow> 't"
    and witness :: "'t \<Rightarrow> 'i \<Rightarrow> 'p option"
    and verify :: "'c \<Rightarrow> 'p \<Rightarrow> 'd \<Rightarrow> bool"
    and digest :: "'c \<Rightarrow> 'd"
    and index :: "'i \<Rightarrow> nat"
    and inv :: "'t \<Rightarrow> bool"
    and capacity :: nat
  assumes leaves_append: "leaves (append t c) = leaves t @ [digest c]"
    and inv_append: "inv t \<Longrightarrow> inv (append t c)"
    and witness_None: "length (leaves t) \<le> index i \<Longrightarrow> witness t i = None"
    and witness_verifies: "inv t \<Longrightarrow> length (leaves t) \<le> capacity \<Longrightarrow> index i < length (leaves t)
      \<Longrightarrow> digest c = leaves t ! index i \<Longrightarrow> \<exists>p. witness t i = Some p \<and> verify c p (root t)"
    and root_cong: "inv t \<Longrightarrow> inv t' \<Longrightarrow> leaves t = leaves t' \<Longrightarrow> root t = root t'"
begin

lemma appended_leaf_provable:
  assumes "inv t" and "length (leaves t) < capacity" and "index i = length (leaves t)"
  shows "\<exists>p. witness (append t c) i = Some p \<and> verify c p (root (append t c))"
  using assms by (intro witness_verifies) (auto simp: leaves_append inv_append)

lemma witness_Some_iff:
  assumes "inv t" and "length (leaves t) \<le> capacity" and "\<exists>c. digest c = leaves t ! index i"
  shows "(\<exists>p. witness t i = Some p) \<longleftrightarrow> index i < length (leaves t)"
  using assms witness_None [of t i] witness_verifies [of t i] by (metis linorder_not_less option.distinct(1))

text \<open>A path computed on a copy with the same leaves is good against this tree.\<close>

lemma copy_witness_verifies:
  assumes "inv t" and "inv t'" and "leaves t = leaves t'" and "length (leaves t) \<le> capacity"
    and "index i < length (leaves t)" and "digest c = leaves t ! index i"
  shows "\<exists>p. witness t i = Some p \<and> verify c p (root t')"
  using witness_verifies [OF assms(1,4,5,6)] root_cong [OF assms(1,2,3)] by auto

end

section \<open>The interface of a proof system\<close>

text \<open>
  What transaction builders and validators rely on: a proof that was produced is accepted on the
  public inputs it was produced for, those public inputs carry the requested anchor and satisfy
  the spend statement, and the proof fills the uniform bucket.  \<open>params\<close> is the condition on
  the system's parameters under which the laws hold.
\<close>

locale proof_system =
  fixes params :: bool
    and prover :: "'w \<Rightarrow> Anchor \<Rightarrow> 'e + SpendPublicInputs \<times> bytes"
    and verifier :: SpendVerifier
    and statement :: "'w \<Rightarrow> SpendPublicInputs \<Rightarrow> bool"
  assumes complete: "params \<Longrightarrow> prover w a = Inr (pi, pf) \<Longrightarrow> verifier pi pf = Inr ()"
    and honest: "prover w a = Inr (pi, pf) \<Longrightarrow> statement w pi \<and> pi_anchor pi = a"
    and bucket: "params \<Longrightarrow> prover w a = Inr (pi, pf) \<Longrightarrow> length pf = PROOF_BUCKET"
begin

lemma proof_for_other_anchor: "prover w a = Inr (pi, pf) \<Longrightarrow> prover w b = Inr (pi, pf') \<Longrightarrow> a = b"
  using honest by metis

end

section \<open>The interface of a replicated state machine\<close>

text \<open>
  What consensus relies on: a replica's next state and its report are a function of its state
  and the committed input, and a step keeps the replica's invariant.  A step that panics gives
  no state.
\<close>

locale state_machine =
  fixes step :: "'s \<Rightarrow> 'i \<Rightarrow> ('s \<times> 'o) option"
    and inv :: "'s \<Rightarrow> bool"
  assumes inv_step: "inv s \<Longrightarrow> step s i = Some (s', r) \<Longrightarrow> inv s'"
begin

text \<open>Replicas in one state that are fed one input report the same and end in one state.\<close>

lemma lockstep:
  assumes "0 < n" and "those (map (\<lambda>s. step s i) (replicate n s)) = Some rs"
  shows "\<exists>s' r. step s i = Some (s', r) \<and> rs = replicate n (s', r)"
  using assms
proof (induction n arbitrary: rs)
  case (Suc n)
  then obtain x xs where x: "step s i = Some x" "those (map (\<lambda>s. step s i) (replicate n s)) = Some xs" "rs = x # xs"
    by (auto split: option.splits)
  show ?case
  proof (cases "n = 0")
    case False
    with Suc.IH [of xs] x show ?thesis by auto
  qed (use x in \<open>cases x; auto\<close>)
qed simp

lemma lockstep_inv:
  assumes "0 < n" and "inv s" and "those (map (\<lambda>s. step s i) (replicate n s)) = Some rs"
  shows "\<forall>(s', r) \<in> set rs. inv s'"
  using lockstep [OF assms(1,3)] inv_step [OF assms(2)] by auto

end

end
