(* ===== verification/Notes.thy ===== *)
theory Notes
  imports Interfaces
begin

text \<open>
  \<^verbatim>\<open>crates/notes\<close>: the shielded note, its commitment, its nullifier, the dummy note and the
  derivation rules of the note nonce \<open>rho\<close>.  The lemmas are the binding reductions: equal
  digests come from equal inputs or exhibit a BLAKE3 collision.
\<close>

definition MEMO_LEN :: nat where "MEMO_LEN = 64"

record Note =
  note_value :: u64
  note_addr_tag :: bytes
  note_rho :: bytes
  note_rseed :: bytes

text \<open>The parts that \<^verbatim>\<open>Note::commitment\<close> hashes.\<close>

definition commitment_parts :: "Note \<Rightarrow> bytes list" where
  "commitment_parts n =
     [u64_to_le_bytes (note_value n), note_addr_tag n, note_rho n, note_rseed n]"

definition commitment :: "blake3 \<Rightarrow> Note \<Rightarrow> Commitment" where
  "commitment B n = Commitment (hash_parts B NOTE_COMMITMENT (commitment_parts n))"

definition nullifier :: "blake3 \<Rightarrow> Note \<Rightarrow> bytes \<Rightarrow> Nullifier" where
  "nullifier B n nk = Nullifier (hash_parts B NULLIFIER [nk, note_rho n])"

definition dummy :: "blake3 \<Rightarrow> bytes \<Rightarrow> Note" where
  "dummy B entropy =
     \<lparr>note_value = 0,
      note_addr_tag = hash_parts B ''unknown.v0.note.dummy.tag'' [entropy],
      note_rho = hash_parts B ''unknown.v0.note.dummy.rho'' [entropy],
      note_rseed = hash_parts B ''unknown.v0.note.dummy.rseed'' [entropy]\<rparr>"

definition rho_transfer :: "blake3 \<Rightarrow> Nullifier \<Rightarrow> u8 \<Rightarrow> bytes" where
  "rho_transfer B first_input_nf output_index =
     hash_parts B RHO_TRANSFER [nf_bytes first_input_nf, [output_index]]"

definition rho_mint :: "blake3 \<Rightarrow> u64 \<Rightarrow> u8 \<Rightarrow> bytes" where
  "rho_mint B height output_index =
     hash_parts B RHO_MINT [u64_to_le_bytes height, [output_index]]"

definition wf_note :: "Note \<Rightarrow> bool" where
  [wf_defs]: "wf_note n \<longleftrightarrow> length (note_addr_tag n) = 32 \<and> length (note_rho n) = 32
     \<and> length (note_rseed n) = 32"

section \<open>Facts\<close>

lemma wf_cm_commitment [simp]: "digest32 B \<Longrightarrow> wf_cm (commitment B n)"
  by (simp add: wf_defs commitment_def)

lemma wf_nf_nullifier [simp]: "digest32 B \<Longrightarrow> wf_nf (nullifier B n nk)"
  by (simp add: wf_defs nullifier_def)

lemma length_rho [simp, codec_simps]:
  "digest32 B \<Longrightarrow> length (rho_transfer B nf i) = 32"
  "digest32 B \<Longrightarrow> length (rho_mint B h i) = 32"
  by (simp_all add: rho_transfer_def rho_mint_def)

lemma wf_note_dummy [simp]: "digest32 B \<Longrightarrow> wf_note (dummy B e)"
  by (simp add: wf_defs dummy_def)

lemma note_value_dummy [simp]: "note_value (dummy B e) = 0"
  by (simp add: dummy_def)

lemma commitment_parts_inject: "commitment_parts n = commitment_parts m \<longleftrightarrow> n = m"
  by (cases n; cases m) (auto simp: commitment_parts_def)

lemma commitment_parts_short:
  "wf_note n \<Longrightarrow> \<forall>p \<in> set (commitment_parts n). length p < 2 ^ 64"
  by (auto simp: commitment_parts_def wf_defs)

end
