(* ===== verification/Encryption.thy ===== *)
theory Encryption
  imports Keys Notes
begin

text \<open>
  \<^verbatim>\<open>crates/encryption\<close>: hybrid note encryption.  The key of the AEAD is hashed from an X25519
  and an ML-KEM shared secret and the transcript; the libraries are the parameter \<open>crypto_lib\<close>
  of theory \<open>Keys\<close>.  \<^verbatim>\<open>encrypt_note\<close> panics (\<open>None\<close>) on an address whose ML-KEM key is
  rejected and on a ciphertext of unexpected length (the \<^verbatim>\<open>debug_assert\<close>).
\<close>

definition PLAINTEXT_LEN :: nat where "PLAINTEXT_LEN = 1 + 8 + 32 + 32 + MEMO_LEN"
definition AEAD_TAG_LEN :: nat where "AEAD_TAG_LEN = 16"
definition ENC_OUTPUT_LEN :: nat where
  "ENC_OUTPUT_LEN = 32 + MLKEM_CT_LEN + PLAINTEXT_LEN + AEAD_TAG_LEN"
definition NOTE_VERSION :: u8 where "NOTE_VERSION = 0"

lemmas enc_consts = PLAINTEXT_LEN_def AEAD_TAG_LEN_def ENC_OUTPUT_LEN_def NOTE_VERSION_def MEMO_LEN_def

record EncryptedOutput =
  eo_bytes :: bytes

definition eo_epk :: "EncryptedOutput \<Rightarrow> bytes" where
  "eo_epk ct = take 32 (eo_bytes ct)"

definition eo_mlkem_ct :: "EncryptedOutput \<Rightarrow> bytes" where
  "eo_mlkem_ct ct = take MLKEM_CT_LEN (drop 32 (eo_bytes ct))"

definition eo_aead_ct :: "EncryptedOutput \<Rightarrow> bytes" where
  "eo_aead_ct ct = drop (32 + MLKEM_CT_LEN) (eo_bytes ct)"

definition derive_aead :: "blake3 \<Rightarrow> bytes \<Rightarrow> bytes \<Rightarrow> bytes \<Rightarrow> bytes \<Rightarrow> bytes \<Rightarrow> bytes \<times> bytes" where
  "derive_aead B x25519_ss mlkem_ss epk mlkem_ct memo_tag =
     (let k = hash_parts B NOTE_AEAD [x25519_ss, mlkem_ss, epk, mlkem_ct, memo_tag];
          n = hash_parts B ''unknown.v0.enc.nonce'' [k]
      in (k, take 12 n))"

definition encode_plaintext :: "Note \<Rightarrow> bytes \<Rightarrow> bytes" where
  "encode_plaintext note memo =
     NOTE_VERSION # u64_to_le_bytes (note_value note) @ note_rho note @ note_rseed note @ memo"

definition encrypt_note ::
  "blake3 \<Rightarrow> crypto_lib \<Rightarrow> Note \<Rightarrow> Address \<Rightarrow> bytes \<Rightarrow> bytes \<Rightarrow> EncryptedOutput option" where
  "encrypt_note B C note recipient memo ephemeral_seed =
     (let eph_secret = hash_parts B X25519 [ephemeral_seed];
          epk = x25519_pub C eph_secret;
          x25519_ss = x25519_dh C eph_secret (ad_x25519_pk recipient);
          seed = hash_parts B KEM_SEED [ephemeral_seed]
      in case kem_encapsulate C recipient seed of
           Inl _ \<Rightarrow> None
         | Inr (mlkem_ct, mlkem_ss) \<Rightarrow>
             let (key, nonce) = derive_aead B x25519_ss mlkem_ss epk mlkem_ct (ad_addr_tag recipient)
             in do { ct \<leftarrow> aead_encrypt C key nonce (encode_plaintext note memo);
                     let bytes = epk @ mlkem_ct @ ct;
                     if length bytes = ENC_OUTPUT_LEN then Some \<lparr>eo_bytes = bytes\<rparr> else None })"

definition try_decrypt :: "blake3 \<Rightarrow> crypto_lib \<Rightarrow> EncryptedOutput \<Rightarrow> IncomingViewingKey \<Rightarrow> Note option" where
  "try_decrypt B C ct ivk =
     (if length (eo_bytes ct) \<noteq> ENC_OUTPUT_LEN then None
      else let epk = eo_epk ct; mlkem_ct = eo_mlkem_ct ct; x25519_ss = ivk_dh C ivk epk
           in do { mlkem_ss \<leftarrow> ivk_decapsulate C ivk mlkem_ct;
                   let (key, nonce) = derive_aead B x25519_ss mlkem_ss epk mlkem_ct (ivk_addr_tag ivk);
                   pt \<leftarrow> aead_decrypt C key nonce (eo_aead_ct ct);
                   if length pt \<noteq> PLAINTEXT_LEN \<or> hd pt \<noteq> NOTE_VERSION then None
                   else Some \<lparr>note_value = u64_from_le_bytes (take 8 (drop 1 pt)),
                              note_addr_tag = ivk_addr_tag ivk,
                              note_rho = take 32 (drop 9 pt),
                              note_rseed = take 32 (drop 41 pt)\<rparr> })"

definition scan :: "blake3 \<Rightarrow> crypto_lib \<Rightarrow> EncryptedOutput list \<Rightarrow> IncomingViewingKey \<Rightarrow> (nat \<times> Note) list" where
  "scan B C outputs ivk =
     List.map_filter (\<lambda>(i, ct). map_option (\<lambda>n. (i, n)) (try_decrypt B C ct ivk)) (enumerate 0 outputs)"

section \<open>Facts\<close>

lemma length_encode_plaintext:
  "wf_note n \<Longrightarrow> length memo = MEMO_LEN \<Longrightarrow> length (encode_plaintext n memo) = PLAINTEXT_LEN"
  by (simp add: encode_plaintext_def wf_defs enc_consts)

lemma plaintext_fields:
  assumes "wf_note n"
  shows "take 8 (drop (Suc 0) (encode_plaintext n memo)) = u64_to_le_bytes (note_value n)"
    and "take 32 (drop 9 (encode_plaintext n memo)) = note_rho n"
    and "take 32 (drop 41 (encode_plaintext n memo)) = note_rseed n"
proof -
  let ?v = "u64_to_le_bytes (note_value n)"
  have pt: "encode_plaintext n memo = ([NOTE_VERSION] @ ?v) @ note_rho n @ note_rseed n @ memo"
    by (simp add: encode_plaintext_def)
  have len: "length ([NOTE_VERSION] @ ?v) = 9" "length ([NOTE_VERSION] @ ?v @ note_rho n) = 41"
    using assms by (simp_all add: wf_defs)
  show "take 8 (drop (Suc 0) (encode_plaintext n memo)) = ?v" by (simp add: encode_plaintext_def)
  show "take 32 (drop 9 (encode_plaintext n memo)) = note_rho n"
    using drop_append_len [OF len(1)] assms by (simp add: pt wf_defs)
  show "take 32 (drop 41 (encode_plaintext n memo)) = note_rseed n"
    using drop_append_len [OF len(2)] assms by (simp add: pt wf_defs)
qed

text \<open>Any 137-byte plaintext of the right version is the encoding of the note it is read as.\<close>

lemma plaintext_of_fields:
  assumes "length pt = PLAINTEXT_LEN" and "hd pt = NOTE_VERSION"
  shows "\<exists>memo. length memo = MEMO_LEN \<and> pt = encode_plaintext
    \<lparr>note_value = u64_from_le_bytes (take 8 (drop 1 pt)), note_addr_tag = tag,
     note_rho = take 32 (drop 9 pt), note_rseed = take 32 (drop 41 pt)\<rparr> memo"
proof -
  obtain q where q: "pt = NOTE_VERSION # q" "length q = 136"
    using assms by (cases pt) (auto simp: enc_consts)
  have "drop 40 q = take 32 (drop 40 q) @ drop 72 q" "drop 8 q = take 32 (drop 8 q) @ drop 40 q"
    using append_take_drop_id [of 32 "drop 40 q"] append_take_drop_id [of 32 "drop 8 q"] by simp_all
  then have "q = take 8 q @ take 32 (drop 8 q) @ take 32 (drop 40 q) @ drop 72 q"
    using append_take_drop_id [of 8 q] by metis
  moreover have "u64_to_le_bytes (u64_from_le_bytes (take 8 q)) = take 8 q"
    using q(2) by (intro u64_to_from_le) simp
  ultimately show ?thesis
    using q by (intro exI [of _ "drop 72 q"]) (simp add: encode_plaintext_def enc_consts)
qed

text \<open>Both sides derive the same key: the hybrid handshake agrees.\<close>

lemma encrypt_note_eq:
  assumes "digest32 B" and "x25519_ok C" and "aead_ok C" and "mlkem_ok_at C (kem_seed B k) (hash_parts B KEM_SEED [eph])"
    and "wf_note n" and "length memo = MEMO_LEN"
  shows "\<exists>ct key nonce aead. encrypt_note B C n (sk_address B C k) memo eph = Some ct
    \<and> length (eo_bytes ct) = ENC_OUTPUT_LEN
    \<and> eo_aead_ct ct = aead \<and> aead_decrypt C key nonce aead = Some (encode_plaintext n memo)
    \<and> (\<exists>mlkem_ss. ivk_decapsulate C (incoming_viewing_key B C k) (eo_mlkem_ct ct) = Some mlkem_ss
       \<and> derive_aead B (ivk_dh C (incoming_viewing_key B C k) (eo_epk ct)) mlkem_ss (eo_epk ct)
           (eo_mlkem_ct ct) (addr_tag B k) = (key, nonce))"
proof -
  let ?es = "hash_parts B X25519 [eph]"
  obtain dk ek where kp: "mlkem_from_seed C (kem_seed B k) = (dk, ek)" by fastforce
  obtain mct mss where enc: "mlkem_encaps C ek (hash_parts B KEM_SEED [eph]) = Some (mct, mss)"
      "length mct = MLKEM_CT_LEN" "mlkem_decaps C dk mct = mss"
    using assms(4) by (auto simp: mlkem_ok_at_def kp split: option.splits)
  let ?epk = "x25519_pub C ?es" and ?ss = "x25519_dh C ?es (x25519_pub C (x25519_secret B k))"
  have epk: "length ?epk = 32" using assms(2) by (simp add: x25519_ok_def)
  have dh: "x25519_dh C (x25519_secret B k) ?epk = ?ss" using assms(2) unfolding x25519_ok_def by blast
  obtain key nonce where kn: "derive_aead B ?ss mss ?epk mct (addr_tag B k) = (key, nonce)" by fastforce
  obtain ct where ct: "aead_encrypt C key nonce (encode_plaintext n memo) = Some ct"
      "length ct = PLAINTEXT_LEN + 16" "aead_decrypt C key nonce ct = Some (encode_plaintext n memo)"
    using assms(3) length_encode_plaintext [OF assms(5,6)] unfolding aead_ok_def by metis
  let ?out = "\<lparr>eo_bytes = ?epk @ mct @ ct\<rparr>"
  have "eo_epk ?out = ?epk" "eo_mlkem_ct ?out = mct" "eo_aead_ct ?out = ct"
    using epk enc(2) by (simp_all add: eo_epk_def eo_mlkem_ct_def eo_aead_ct_def)
  moreover have "length (eo_bytes ?out) = ENC_OUTPUT_LEN" using epk enc(2) ct(2) by (simp add: enc_consts)
  moreover from this have "encrypt_note B C n (sk_address B C k) memo eph = Some ?out"
    using kp enc(1) kn ct(1)
    by (simp add: encrypt_note_def sk_address_def kem_keypair_def kem_encapsulate_def)
  ultimately show ?thesis
    using kp dh kn ct(3) enc(2,3)
    by (intro exI [of _ ?out]) (auto simp: incoming_viewing_key_def kem_keypair_def ivk_decapsulate_def ivk_dh_def)
qed

lemma set_map_filter: "y \<in> set (List.map_filter f xs) \<longleftrightarrow> (\<exists>x \<in> set xs. f x = Some y)"
  by (force simp: List.map_filter_def)

lemma encrypt_decrypts:
  assumes "digest32 B" and "x25519_ok C" and "aead_ok C"
    and "mlkem_ok_at C (kem_seed B k) (hash_parts B KEM_SEED [eph])"
    and "wf_note n" and "note_addr_tag n = addr_tag B k" and "length memo = MEMO_LEN"
  shows "\<exists>ct. encrypt_note B C n (sk_address B C k) memo eph = Some ct
    \<and> length (eo_bytes ct) = 1273 \<and> try_decrypt B C ct (incoming_viewing_key B C k) = Some n"
proof -
  let ?ivk = "incoming_viewing_key B C k"
  obtain ct key nonce mss where ct: "encrypt_note B C n (sk_address B C k) memo eph = Some ct"
      "length (eo_bytes ct) = ENC_OUTPUT_LEN" "aead_decrypt C key nonce (eo_aead_ct ct) = Some (encode_plaintext n memo)"
      "ivk_decapsulate C ?ivk (eo_mlkem_ct ct) = Some mss"
      "derive_aead B (ivk_dh C ?ivk (eo_epk ct)) mss (eo_epk ct) (eo_mlkem_ct ct) (addr_tag B k) = (key, nonce)"
    using encrypt_note_eq [OF assms(1-5,7)] by blast
  have tag: "ivk_addr_tag ?ivk = addr_tag B k" by (simp add: incoming_viewing_key_def split: prod.split)
  have "hd (encode_plaintext n memo) = NOTE_VERSION" by (simp add: encode_plaintext_def)
  then have "try_decrypt B C ct ?ivk = Some n"
    using ct tag assms(6) length_encode_plaintext [OF assms(5,7)]
    by (simp add: try_decrypt_def Let_def plaintext_fields [OF assms(5)])
  then show ?thesis using ct(1,2) by (simp add: enc_consts key_consts)
qed

section \<open>Properties\<close>

text \<open>C25. A note encrypted to an address decrypts under its viewing key: encryption does not panic,
  the output has the uniform length of 1273 bytes, and the owner of the address recovers exactly the
  note.\<close>

theorem encrypt_then_decrypt:
  assumes "digest32 B" and "x25519_ok C" and "aead_ok C"
    and "mlkem_ok_at C (kem_seed B k) (hash_parts B KEM_SEED [eph])"
    and "wf_note n" and "note_addr_tag n = addr_tag B k" and "length memo = MEMO_LEN"
  shows "\<exists>ct. encrypt_note B C n (sk_address B C k) memo eph = Some ct
    \<and> length (eo_bytes ct) = 1273 \<and> try_decrypt B C ct (incoming_viewing_key B C k) = Some n"
  using assms by (rule encrypt_decrypts)

lemma encrypt_then_decrypt_witness:
  "\<exists>ct. encrypt_note zero_hash null_crypto
       \<lparr>note_value = 42, note_addr_tag = replicate 32 0, note_rho = replicate 32 5, note_rseed = replicate 32 6\<rparr>
       (sk_address zero_hash null_crypto (sk_from_seed zero_hash (replicate 32 3))) (replicate 64 0) (replicate 32 11) = Some ct
    \<and> length (eo_bytes ct) = 1273
    \<and> try_decrypt zero_hash null_crypto ct (incoming_viewing_key zero_hash null_crypto (sk_from_seed zero_hash (replicate 32 3)))
      = Some \<lparr>note_value = 42, note_addr_tag = replicate 32 0, note_rho = replicate 32 5, note_rseed = replicate 32 6\<rparr>"
  by (rule encrypt_then_decrypt) (simp_all add: wf_defs addr_tag_def hash_parts_def zero_hash_def MEMO_LEN_def)

text \<open>Trial decryption is authenticated and says nothing else: it returns a note exactly when
  the output has the uniform length and the AEAD opens, under the key derived from both shared
  secrets and the output's own transcript, to the plaintext encoding of that note with some
  memo; the note carries the scanner's own address tag.  Nothing relates it to an on-chain
  commitment.\<close>

theorem try_decrypt_iff:
  "try_decrypt B C ct ivk = Some n \<longleftrightarrow>
     length (eo_bytes ct) = ENC_OUTPUT_LEN \<and> note_addr_tag n = ivk_addr_tag ivk
     \<and> length (note_rho n) = 32 \<and> length (note_rseed n) = 32
     \<and> (\<exists>mss memo. ivk_decapsulate C ivk (eo_mlkem_ct ct) = Some mss \<and> length memo = MEMO_LEN
         \<and> (let (key, nonce) = derive_aead B (ivk_dh C ivk (eo_epk ct)) mss (eo_epk ct) (eo_mlkem_ct ct)
              (ivk_addr_tag ivk)
            in aead_decrypt C key nonce (eo_aead_ct ct) = Some (encode_plaintext n memo)))"
  (is "_ \<longleftrightarrow> ?rhs")
proof
  let ?read = "\<lambda>pt. \<lparr>note_value = u64_from_le_bytes (take 8 (drop 1 pt)), note_addr_tag = ivk_addr_tag ivk,
        note_rho = take 32 (drop 9 pt), note_rseed = take 32 (drop 41 pt)\<rparr>"
  assume "try_decrypt B C ct ivk = Some n"
  then obtain mss pt where pt: "length (eo_bytes ct) = ENC_OUTPUT_LEN"
      "ivk_decapsulate C ivk (eo_mlkem_ct ct) = Some mss"
      "let (key, nonce) = derive_aead B (ivk_dh C ivk (eo_epk ct)) mss (eo_epk ct) (eo_mlkem_ct ct)
         (ivk_addr_tag ivk) in aead_decrypt C key nonce (eo_aead_ct ct) = Some pt"
      "length pt = PLAINTEXT_LEN" "hd pt = NOTE_VERSION" "n = ?read pt"
    by (auto simp: try_decrypt_def Let_def bind_eq_Some_conv split_beta split: if_splits)
  then show ?rhs using plaintext_of_fields [OF pt(4,5), of "ivk_addr_tag ivk"]
    by (auto simp: enc_consts)
next
  assume rhs: ?rhs
  then have wf: "length (note_rho n) = 32" "length (note_rseed n) = 32" by blast+
  let ?n = "n\<lparr>note_addr_tag := replicate 32 0\<rparr>"
  have same: "encode_plaintext ?n memo = encode_plaintext n memo" for memo by (simp add: encode_plaintext_def)
  have "wf_note ?n" using wf by (simp add: wf_defs)
  note this = plaintext_fields [OF this, unfolded same] length_encode_plaintext [OF this, unfolded same]
  with rhs show "try_decrypt B C ct ivk = Some n"
    by (auto simp: try_decrypt_def Let_def split_beta encode_plaintext_def [of _ _, THEN arg_cong [where f = hd]])
qed

text \<open>Batch scanning reports exactly the outputs that decrypt, each once with its own index,
  in the order of the outputs.\<close>

theorem scan_exact:
  "set (scan B C outputs ivk)
     = {(i, n). i < length outputs \<and> try_decrypt B C (outputs ! i) ivk = Some n}
   \<and> sorted_wrt (\<lambda>x y. fst x < fst y) (scan B C outputs ivk)"
proof -
  have "sorted_wrt (\<lambda>x y. fst x < fst y)
      (List.map_filter (\<lambda>(i, ct). map_option (\<lambda>n. (i, n)) (try_decrypt B C ct ivk)) (enumerate k outputs))"
    for k
    by (induction outputs arbitrary: k)
      (auto simp: List.map_filter_def in_set_enumerate_eq split: option.splits)
  moreover have "set (scan B C outputs ivk)
      = {(i, n). i < length outputs \<and> try_decrypt B C (outputs ! i) ivk = Some n}"
  proof (rule set_eqI, clarify)
    fix i n
    show "(i, n) \<in> set (scan B C outputs ivk)
        \<longleftrightarrow> (i, n) \<in> {(i, n). i < length outputs \<and> try_decrypt B C (outputs ! i) ivk = Some n}"
      by (auto simp: scan_def set_map_filter in_set_enumerate_eq intro!: bexI [of _ "(i, outputs ! i)"])
  qed
  ultimately show ?thesis by (simp add: scan_def)
qed

end
