(* ===== verification/Tx.thy ===== *)
theory Tx
  imports Pow Quota Encryption
begin

text \<open>
  \<^verbatim>\<open>crates/tx\<close>: the transaction, its wire codec, the binding digest and stateless validation.
  The arrays \<^verbatim>\<open>[T; 2]\<close> are lists; \<open>wf_tx\<close> states the array lengths.  \<^verbatim>\<open>decode\<close> reads
  through a cursor: \<open>take_field\<close> is its closure \<^verbatim>\<open>take\<close> followed by the rest of the
  function, which \<^verbatim>\<open>?\<close> skips on an error.
\<close>

section \<open>The anti-spam lanes\<close>

definition ANTISPAM_BODY_LEN :: nat where "ANTISPAM_BODY_LEN = RATE_PROOF_LEN"
definition POW_TAG :: u8 where "POW_TAG = 1"
definition QUOTA_TAG :: u8 where "QUOTA_TAG = 2"

datatype AntiSpam = LanePow PowSolution | LaneQuota RateProof

datatype TxError = TxMalformed | NullifierOrder | PowInvalid | QuotaInvalid | ProofInvalid | ProofSize

fun as_tag :: "AntiSpam \<Rightarrow> u8" where
  "as_tag (LanePow _) = POW_TAG"
| "as_tag (LaneQuota _) = QUOTA_TAG"

fun as_body :: "AntiSpam \<Rightarrow> bytes" where
  "as_body (LanePow sol) = pow_to_bytes sol @ replicate (ANTISPAM_BODY_LEN - 8) 0"
| "as_body (LaneQuota rp) = rp_to_bytes rp"

definition from_wire :: "u8 \<Rightarrow> bytes \<Rightarrow> TxError + AntiSpam" where
  "from_wire tag body =
     (if tag = POW_TAG then
        if \<exists>x \<in> set (drop 8 body). x \<noteq> 0 then Inl TxMalformed
        else Inr (LanePow (pow_from_bytes (take 8 body)))
      else if tag = QUOTA_TAG then Inr (LaneQuota (rp_from_bytes body))
      else Inl TxMalformed)"

section \<open>Transactions\<close>

record TxV1 =
  tx_anchor :: Anchor
  tx_nullifiers :: "Nullifier list"
  tx_commitments :: "Commitment list"
  tx_enc_outputs :: "EncryptedOutput list"
  tx_antispam :: AntiSpam
  tx_proof :: bytes

definition binding_parts :: "TxV1 \<Rightarrow> bytes list" where
  "binding_parts tx =
     u64_to_le_bytes (anc_height (tx_anchor tx)) # anc_root (tx_anchor tx)
     # map nf_bytes (tx_nullifiers tx) @ map cm_bytes (tx_commitments tx) @ map eo_bytes (tx_enc_outputs tx)"

definition binding_digest :: "blake3 \<Rightarrow> TxV1 \<Rightarrow> bytes" where
  "binding_digest B tx = hash_parts B TX_BINDING (binding_parts tx)"

definition to_public_inputs :: "blake3 \<Rightarrow> TxV1 \<Rightarrow> SpendPublicInputs" where
  "to_public_inputs B tx =
     \<lparr>pi_anchor = tx_anchor tx, pi_nullifiers = tx_nullifiers tx, pi_commitments = tx_commitments tx,
      pi_binding_digest = binding_digest B tx, pi_mint_value = 0\<rparr>"

definition tx_encode :: "TxV1 \<Rightarrow> bytes" where
  "tx_encode tx =
     [1] @ u64_to_le_bytes (anc_height (tx_anchor tx)) @ anc_root (tx_anchor tx)
     @ concat (map nf_bytes (tx_nullifiers tx)) @ concat (map cm_bytes (tx_commitments tx))
     @ concat (map eo_bytes (tx_enc_outputs tx))
     @ [as_tag (tx_antispam tx)] @ as_body (tx_antispam tx) @ tx_proof tx"

definition tx_encoded_len :: nat where
  "tx_encoded_len = 1 + 8 + 32 + TX_INPUTS * 32 + TX_OUTPUTS * 32 + TX_OUTPUTS * ENC_OUTPUT_LEN
     + 1 + ANTISPAM_BODY_LEN + PROOF_BUCKET"

definition take_field ::
  "bytes \<Rightarrow> nat \<Rightarrow> nat \<Rightarrow> (bytes \<Rightarrow> nat \<Rightarrow> TxError + 'a) \<Rightarrow> TxError + 'a" where
  "take_field bs cur n continue =
     (if cur + n > length bs then Inl TxMalformed
      else continue (take n (drop cur bs)) (cur + n))"

fun take_array ::
  "bytes \<Rightarrow> nat \<Rightarrow> nat \<Rightarrow> nat \<Rightarrow> (bytes list \<Rightarrow> nat \<Rightarrow> TxError + 'a) \<Rightarrow> TxError + 'a" where
  "take_array bs cur n 0 continue = continue [] cur"
| "take_array bs cur n (Suc k) continue =
     take_field bs cur n (\<lambda>s cur. take_array bs cur n k (\<lambda>ss. continue (s # ss)))"

definition tx_decode :: "bytes \<Rightarrow> TxError + TxV1" where
  "tx_decode bs =
     take_field bs 0 1 (\<lambda>v cur.
     if hd v \<noteq> 1 then Inl TxMalformed else
     take_field bs cur 8 (\<lambda>height cur.
     take_field bs cur 32 (\<lambda>root cur.
     take_array bs cur 32 TX_INPUTS (\<lambda>nfs cur.
     take_array bs cur 32 TX_OUTPUTS (\<lambda>cms cur.
     take_array bs cur ENC_OUTPUT_LEN TX_OUTPUTS (\<lambda>encs cur.
     take_field bs cur 1 (\<lambda>tag cur.
     take_field bs cur ANTISPAM_BODY_LEN (\<lambda>body cur.
     case from_wire (hd tag) body of
       Inl e \<Rightarrow> Inl e
     | Inr antispam \<Rightarrow>
         take_field bs cur PROOF_BUCKET (\<lambda>proof cur.
         if cur \<noteq> length bs then Inl TxMalformed
         else Inr \<lparr>tx_anchor = \<lparr>anc_height = u64_from_le_bytes height, anc_root = root\<rparr>,
                   tx_nullifiers = map Nullifier nfs, tx_commitments = map Commitment cms,
                   tx_enc_outputs = map (\<lambda>b. \<lparr>eo_bytes = b\<rparr>) encs,
                   tx_antispam = antispam, tx_proof = proof\<rparr>)))))))))"

section \<open>Stateless validation\<close>

definition validate_stateless :: "blake3 \<Rightarrow> TxV1 \<Rightarrow> SpendVerifier \<Rightarrow> u32 \<Rightarrow> TxError + unit" where
  "validate_stateless B tx verifier difficulty_bits =
     (if length (tx_proof tx) \<noteq> PROOF_BUCKET then Inl ProofSize
      else if nf_bytes (tx_nullifiers tx ! 0) \<ge> nf_bytes (tx_nullifiers tx ! 1) then Inl NullifierOrder
      else let binding = binding_digest B tx;
               antispam = (case tx_antispam tx of
                   LanePow sol \<Rightarrow>
                     if \<not> pow_verify B binding sol difficulty_bits then Inl PowInvalid else Inr ()
                 | LaneQuota rp \<Rightarrow> if rp_x rp \<noteq> message_x B binding then Inl QuotaInvalid else Inr ())
           in case antispam of
                Inl e \<Rightarrow> Inl e
              | Inr _ \<Rightarrow> (case verifier (to_public_inputs B tx) (tx_proof tx) of
                    Inl _ \<Rightarrow> Inl ProofInvalid | Inr _ \<Rightarrow> Inr ()))"

definition wf_antispam :: "AntiSpam \<Rightarrow> bool" where
  [wf_defs]: "wf_antispam a \<longleftrightarrow> (case a of LanePow _ \<Rightarrow> True | LaneQuota rp \<Rightarrow> length (rp_rate_nullifier rp) = 32)"

definition wf_tx_body :: "TxV1 \<Rightarrow> bool" where
  [wf_defs]: "wf_tx_body tx \<longleftrightarrow> wf_anchor (tx_anchor tx)
     \<and> length (tx_nullifiers tx) = TX_INPUTS \<and> list_all wf_nf (tx_nullifiers tx)
     \<and> length (tx_commitments tx) = TX_OUTPUTS \<and> list_all wf_cm (tx_commitments tx)
     \<and> length (tx_enc_outputs tx) = TX_OUTPUTS
     \<and> list_all (\<lambda>e. length (eo_bytes e) = ENC_OUTPUT_LEN) (tx_enc_outputs tx)
     \<and> wf_antispam (tx_antispam tx)"

definition wf_tx :: "TxV1 \<Rightarrow> bool" where
  [wf_defs]: "wf_tx tx \<longleftrightarrow> wf_tx_body tx \<and> length (tx_proof tx) = PROOF_BUCKET"

section \<open>The wire codec\<close>

lemmas tx_consts = interface_consts enc_consts MLKEM_CT_LEN_def ANTISPAM_BODY_LEN_def RATE_PROOF_LEN_def
  POW_TAG_def QUOTA_TAG_def

interpretation antispam_codec: codec "\<lambda>a. (as_tag a, as_body a) # []"
    "\<lambda>w. case w of [(tag, body)] \<Rightarrow> if length body = ANTISPAM_BODY_LEN then from_wire tag body else Inl TxMalformed
       | _ \<Rightarrow> Inl TxMalformed" wf_antispam
proof
  fix a
  assume "wf_antispam a"
  then show "(case [(as_tag a, as_body a)] of [(tag, body)] \<Rightarrow>
        if length body = ANTISPAM_BODY_LEN then from_wire tag body else Inl TxMalformed
      | _ \<Rightarrow> Inl TxMalformed) = Inr a"
    by (cases a) (auto simp: from_wire_def tx_consts wf_defs rp_from_to_bytes length_rp_to_bytes)
next
  fix w a
  assume dec: "(case w of [(tag, body)] \<Rightarrow>
        if length body = ANTISPAM_BODY_LEN then from_wire tag body else Inl TxMalformed
      | _ \<Rightarrow> Inl TxMalformed) = Inr a"
  then obtain tag body where w: "w = [(tag, body)]" "length body = ANTISPAM_BODY_LEN" "from_wire tag body = Inr a"
    by (auto split: list.splits prod.splits if_splits)
  show "wf_antispam a \<and> [(as_tag a, as_body a)] = w"
  proof (cases "tag = POW_TAG")
    case True
    then have z: "\<forall>x \<in> set (drop 8 body). x = 0" and a: "a = LanePow (pow_from_bytes (take 8 body))"
      using w(3) by (auto simp: from_wire_def split: if_splits)
    have "replicate (ANTISPAM_BODY_LEN - 8) 0 = drop 8 body"
      using z w(2) by (intro replicate_eqI [symmetric]) auto
    then have "as_body a = take 8 body @ drop 8 body" using a w(2) by (simp add: tx_consts)
    then show ?thesis using a w(1) True by (simp add: wf_defs)
  next
    case False
    then have "tag = QUOTA_TAG" "a = LaneQuota (rp_from_bytes body)"
      using w(3) by (auto simp: from_wire_def split: if_splits)
    then show ?thesis using w(1,2) rp_to_from_bytes [of body] by (simp add: wf_defs ANTISPAM_BODY_LEN_def)
  qed
qed

lemma take_field_Inr_iff [simp]:
  "take_field bs cur n k = Inr r \<longleftrightarrow> cur + n \<le> length bs \<and> k (take n (drop cur bs)) (cur + n) = Inr r"
  by (simp add: take_field_def)

text \<open>Decoding succeeds on exactly the byte strings of the fixed length whose version and lane
  are known, and reads each field at its fixed offset.\<close>

lemma tx_decode_Inr_iff:
  "tx_decode bs = Inr tx \<longleftrightarrow> length bs = 2964 \<and> hd bs = 1 \<and>
     (\<exists>a. from_wire (hd (drop 2715 bs)) (take 56 (drop 2716 bs)) = Inr a \<and>
        tx = \<lparr>tx_anchor = \<lparr>anc_height = u64_from_le_bytes (take 8 (drop 1 bs)), anc_root = take 32 (drop 9 bs)\<rparr>,
              tx_nullifiers = [Nullifier (take 32 (drop 41 bs)), Nullifier (take 32 (drop 73 bs))],
              tx_commitments = [Commitment (take 32 (drop 105 bs)), Commitment (take 32 (drop 137 bs))],
              tx_enc_outputs = [\<lparr>eo_bytes = take 1273 (drop 169 bs)\<rparr>, \<lparr>eo_bytes = take 1273 (drop 1442 bs)\<rparr>],
              tx_antispam = a, tx_proof = drop 2772 bs\<rparr>)"
proof -
  have "hd (take 1 xs) = hd xs" for xs :: bytes by (cases xs) auto
  then show ?thesis
    by (auto simp: tx_decode_def tx_consts numeral_2_eq_2 split: sum.splits if_splits)
qed

lemma two_elements: "length xs = 2 \<Longrightarrow> \<exists>a b. xs = [a, b]"
  by (auto simp: numeral_2_eq_2 length_Suc_conv)

lemma wf_tx_cases:
  assumes "wf_tx tx"
  obtains h r n0 n1 c0 c1 e0 e1 a p where
    "tx = \<lparr>tx_anchor = \<lparr>anc_height = h, anc_root = r\<rparr>, tx_nullifiers = [Nullifier n0, Nullifier n1],
       tx_commitments = [Commitment c0, Commitment c1], tx_enc_outputs = [\<lparr>eo_bytes = e0\<rparr>, \<lparr>eo_bytes = e1\<rparr>],
       tx_antispam = a, tx_proof = p\<rparr>"
    "length r = 32" "length n0 = 32" "length n1 = 32" "length c0 = 32" "length c1 = 32"
    "length e0 = 1273" "length e1 = 1273" "length p = 192" "wf_antispam a"
proof -
  obtain n0 n1 where n: "tx_nullifiers tx = [Nullifier n0, Nullifier n1]"
    using assms two_elements [of "tx_nullifiers tx"] by (auto simp: wf_defs tx_consts) (metis Nullifier.exhaust)
  obtain c0 c1 where c: "tx_commitments tx = [Commitment c0, Commitment c1]"
    using assms two_elements [of "tx_commitments tx"] by (auto simp: wf_defs tx_consts) (metis Commitment.exhaust)
  obtain e0 e1 where e: "tx_enc_outputs tx = [\<lparr>eo_bytes = e0\<rparr>, \<lparr>eo_bytes = e1\<rparr>]"
    using assms two_elements [of "tx_enc_outputs tx"] by (auto simp: wf_defs tx_consts) (metis EncryptedOutput.cases)
  show thesis
    using that [of "anc_height (tx_anchor tx)" "anc_root (tx_anchor tx)" n0 n1 c0 c1 e0 e1 "tx_antispam tx" "tx_proof tx"]
      assms n c e by (simp add: wf_defs tx_consts)
qed

lemma as_body_length: "wf_antispam a \<Longrightarrow> length (as_body a) = 56"
  by (cases a) (auto simp: wf_defs tx_consts length_rp_to_bytes)

lemma from_wire_as_body: "wf_antispam a \<Longrightarrow> from_wire (as_tag a) (as_body a) = Inr a"
  using antispam_codec.dec_enc [of a] as_body_length [of a] by (simp add: tx_consts)

lemma tx_decode_encode:
  assumes "wf_tx tx"
  shows "tx_decode (tx_encode tx) = Inr tx" and "length (tx_encode tx) = tx_encoded_len"
proof -
  obtain h r n0 n1 c0 c1 e0 e1 a p where tx:
    "tx = \<lparr>tx_anchor = \<lparr>anc_height = h, anc_root = r\<rparr>, tx_nullifiers = [Nullifier n0, Nullifier n1],
       tx_commitments = [Commitment c0, Commitment c1], tx_enc_outputs = [\<lparr>eo_bytes = e0\<rparr>, \<lparr>eo_bytes = e1\<rparr>],
       tx_antispam = a, tx_proof = p\<rparr>"
    and len: "length r = 32" "length n0 = 32" "length n1 = 32" "length c0 = 32" "length c1 = 32"
    "length e0 = 1273" "length e1 = 1273" "length p = 192" "wf_antispam a"
    using assms by (rule wf_tx_cases)
  show "tx_decode (tx_encode tx) = Inr tx"
    unfolding tx_decode_Inr_iff using len as_body_length [OF len(9)] from_wire_as_body [OF len(9)]
    by (simp add: tx tx_encode_def)
  show "length (tx_encode tx) = tx_encoded_len"
    using len as_body_length [OF len(9)] by (simp add: tx tx_encode_def tx_encoded_len_def tx_consts)
qed

lemma tx_encode_decode:
  assumes "tx_decode bs = Inr tx"
  shows "wf_tx tx \<and> tx_encode tx = bs"
proof -
  obtain a where len: "length bs = 2964" and v: "hd bs = 1"
    and a: "from_wire (hd (drop 2715 bs)) (take 56 (drop 2716 bs)) = Inr a"
    and tx: "tx = \<lparr>tx_anchor = \<lparr>anc_height = u64_from_le_bytes (take 8 (drop 1 bs)), anc_root = take 32 (drop 9 bs)\<rparr>,
              tx_nullifiers = [Nullifier (take 32 (drop 41 bs)), Nullifier (take 32 (drop 73 bs))],
              tx_commitments = [Commitment (take 32 (drop 105 bs)), Commitment (take 32 (drop 137 bs))],
              tx_enc_outputs = [\<lparr>eo_bytes = take 1273 (drop 169 bs)\<rparr>, \<lparr>eo_bytes = take 1273 (drop 1442 bs)\<rparr>],
              tx_antispam = a, tx_proof = drop 2772 bs\<rparr>"
    using assms by (auto simp: tx_decode_Inr_iff)
  have wire: "wf_antispam a \<and> as_tag a = hd (drop 2715 bs) \<and> as_body a = take 56 (drop 2716 bs)"
    using antispam_codec.enc_dec [of "[(hd (drop 2715 bs), take 56 (drop 2716 bs))]" a] a len
    by (simp add: tx_consts)
  have tag: "[hd (drop 2715 bs)] = take 1 (drop 2715 bs)" using len by (simp add: hd_drop_conv_nth take_Suc)
  have ver: "[1] = take 1 bs" using v len by (cases bs) auto
  have le: "u64_to_le_bytes (u64_from_le_bytes (take 8 (drop 1 bs))) = take 8 (drop 1 bs)"
    using len by (intro u64_to_from_le) simp
  have join: "take n (drop i bs) @ drop j bs = drop i bs" if "j = i + n" for i n j
    unfolding that by (metis append_take_drop_id drop_drop add.commute)
  have "tx_encode tx = take 1 (drop 0 bs) @ take 8 (drop 1 bs) @ take 32 (drop 9 bs)
      @ take 32 (drop 41 bs) @ take 32 (drop 73 bs) @ take 32 (drop 105 bs) @ take 32 (drop 137 bs)
      @ take 1273 (drop 169 bs) @ take 1273 (drop 1442 bs) @ take 1 (drop 2715 bs)
      @ take 56 (drop 2716 bs) @ drop 2772 bs"
    using wire by (simp only: tx_encode_def tx TxV1.simps Anchor.simps EncryptedOutput.simps le tag ver
        list.map Nullifier.sel Commitment.sel concat.simps append_assoc append_Nil2 drop_0 append_Nil)
  also have "\<dots> = bs" by (subst join, simp)+ simp
  finally have "tx_encode tx = bs" .
  moreover have "wf_tx tx" using len wire by (simp add: tx wf_defs tx_consts)
  ultimately show ?thesis by blast
qed

interpretation tx_codec: codec tx_encode tx_decode wf_tx
  by unfold_locales (use tx_decode_encode tx_encode_decode in auto)

lemma tx_decode_error: "tx_decode bs = Inl e \<Longrightarrow> e = TxMalformed"
  by (auto simp: tx_decode_def take_field_def from_wire_def tx_consts numeral_2_eq_2
      split: if_splits sum.splits)

section \<open>Validation\<close>

lemma validate_stateless_ok_iff:
  "validate_stateless B tx V d = Inr u \<longleftrightarrow>
     length (tx_proof tx) = PROOF_BUCKET
     \<and> nf_bytes (tx_nullifiers tx ! 0) < nf_bytes (tx_nullifiers tx ! 1)
     \<and> (case tx_antispam tx of LanePow sol \<Rightarrow> pow_verify B (binding_digest B tx) sol d
        | LaneQuota rp \<Rightarrow> rp_x rp = message_x B (binding_digest B tx))
     \<and> (\<exists>u. V (to_public_inputs B tx) (tx_proof tx) = Inr u)"
  by (auto simp: validate_stateless_def Let_def split: AntiSpam.splits sum.splits)

text \<open>
  A client of the proof-system interface: whatever the proof system, a transaction that carries
  a proof made for its own public inputs passes validation once its cheap checks do.
\<close>

context proof_system
begin

lemma proved_tx_validates:
  assumes "params" and "prover w (tx_anchor tx) = Inr (to_public_inputs B tx, tx_proof tx)"
    and "nf_bytes (tx_nullifiers tx ! 0) < nf_bytes (tx_nullifiers tx ! 1)"
    and "case tx_antispam tx of LanePow sol \<Rightarrow> pow_verify B (binding_digest B tx) sol d
        | LaneQuota rp \<Rightarrow> rp_x rp = message_x B (binding_digest B tx)"
  shows "validate_stateless B tx verifier d = Inr ()"
  using assms complete [OF assms(1,2)] bucket [OF assms(1,2)]
  by (simp add: validate_stateless_ok_iff)

end

lemma binding_parts_short: "wf_tx_body tx \<Longrightarrow> \<forall>p \<in> set (binding_parts tx). length p < 2 ^ 64"
  by (auto simp: binding_parts_def wf_defs list_all_iff tx_consts)

lemma map_eo_bytes_inject [simp]: "map eo_bytes xs = map eo_bytes ys \<longleftrightarrow> xs = ys"
  for xs ys :: "EncryptedOutput list"
  by (rule inj_map_eq_map) (auto simp: inj_def intro: EncryptedOutput.equality)

lemma binding_parts_inject:
  assumes "wf_tx_body tx" and "wf_tx_body tx'" and "binding_parts tx = binding_parts tx'"
  shows "tx' = tx\<lparr>tx_antispam := tx_antispam tx', tx_proof := tx_proof tx'\<rparr>"
  using assms by (auto simp: binding_parts_def wf_defs intro!: TxV1.equality Anchor.equality)

lemma wf_pi_to_public_inputs:
  "digest32 B \<Longrightarrow> wf_tx_body tx \<Longrightarrow> wf_pi (to_public_inputs B tx)"
  by (simp add: to_public_inputs_def binding_digest_def wf_defs tx_consts)

section \<open>Properties\<close>

text \<open>C18. The wire format is a canonical codec of constant size: a byte string decodes to a
  transaction exactly when that transaction has the array shapes of the Rust type and the byte
  string is its encoding, every encoding has length \<^verbatim>\<open>encoded_len\<close> whichever lane it uses
  (no trailing bytes, no truncation, no non-zero padding), and every other byte string is
  \<^verbatim>\<open>Malformed\<close>.\<close>

theorem tx_wire_codec:
  "(tx_decode bs = Inr tx \<longleftrightarrow> wf_tx tx \<and> tx_encode tx = bs \<and> length bs = tx_encoded_len)
   \<and> (tx_decode bs = Inl TxMalformed \<longleftrightarrow> (\<nexists>t. wf_tx t \<and> tx_encode t = bs))"
proof -
  have "tx_decode bs = Inl TxMalformed \<longleftrightarrow> \<not> (\<exists>t. tx_decode bs = Inr t)"
    using tx_decode_error by (cases "tx_decode bs") auto
  then show ?thesis
    using tx_codec.dec_ok_iff [of bs] tx_codec.enc_dec [of bs tx] tx_codec.dec_enc [of tx]
      tx_decode_encode(2) [of tx] by auto
qed

text \<open>C19. The binding digest is anti-malleable: two well-formed transactions with the same digest
  differ at most in the anti-spam artefact and the proof, or the two hashed messages are a BLAKE3
  collision.\<close>

theorem binding_digest_binds:
  assumes "wf_tx_body tx" and "wf_tx_body tx'" and "binding_digest B tx = binding_digest B tx'"
  shows "tx' = tx\<lparr>tx_antispam := tx_antispam tx', tx_proof := tx_proof tx'\<rparr>
    \<or> collision_at B TX_BINDING (absorb_parts (binding_parts tx)) (absorb_parts (binding_parts tx'))"
  using hash_parts_binding [OF assms(3)[unfolded binding_digest_def]] assms(1,2)
    binding_parts_short binding_parts_inject by blast

definition sample_tx :: TxV1 where
  "sample_tx = \<lparr>tx_anchor = \<lparr>anc_height = 3, anc_root = replicate 32 1\<rparr>,
     tx_nullifiers = [Nullifier (replicate 32 1), Nullifier (replicate 32 2)],
     tx_commitments = [Commitment (replicate 32 3), Commitment (replicate 32 4)],
     tx_enc_outputs = [\<lparr>eo_bytes = replicate 1273 7\<rparr>, \<lparr>eo_bytes = replicate 1273 7\<rparr>],
     tx_antispam = LanePow \<lparr>pow_nonce = 0\<rparr>, tx_proof = replicate 192 0\<rparr>"

lemma wf_tx_sample [simp]: "wf_tx sample_tx"
  by (simp add: sample_tx_def wf_defs tx_consts)

lemma binding_digest_binds_witness:
  "binding_digest zero_hash sample_tx = binding_digest zero_hash (sample_tx\<lparr>tx_proof := []\<rparr>)
   \<and> (sample_tx\<lparr>tx_proof := []\<rparr> = sample_tx\<lparr>tx_antispam := tx_antispam sample_tx, tx_proof := []\<rparr>
     \<or> collision_at zero_hash TX_BINDING (absorb_parts (binding_parts sample_tx))
         (absorb_parts (binding_parts (sample_tx\<lparr>tx_proof := []\<rparr>))))"
  using binding_digest_binds [of sample_tx "sample_tx\<lparr>tx_proof := []\<rparr>" zero_hash] wf_tx_sample
  by (simp add: binding_digest_def binding_parts_def wf_defs)

end
