(* ===== verification/Commitment_Tree.thy ===== *)
theory Commitment_Tree
  imports Notes
begin

unbundle bit_operations_syntax

text \<open>
  \<^verbatim>\<open>crates/tree\<close>: the append-only note commitment tree of depth 32, its level-by-level root and
  authentication paths, the sealed anchors with their validity window, and the stateless path
  check.  The reference definition \<open>ref_root\<close> is the root of the full binary tree
  over \<open>2 ^ 32\<close> slots, the missing leaves filled with the empty leaf.
\<close>

definition node_hash :: "blake3 \<Rightarrow> bytes \<Rightarrow> bytes \<Rightarrow> bytes" where
  "node_hash B left right = hash_parts B MERKLE_NODE [left, right]"

text \<open>The \<^verbatim>\<open>while level <= TREE_DEPTH\<close> loop of \<^verbatim>\<open>empty_roots\<close>.\<close>

function empty_roots_loop :: "blake3 \<Rightarrow> nat \<Rightarrow> bytes list \<Rightarrow> bytes list" where
  "empty_roots_loop B level roots =
     (if level \<le> TREE_DEPTH
      then empty_roots_loop B (level + 1)
             (roots[level := node_hash B (roots ! (level - 1)) (roots ! (level - 1))])
      else roots)"
  by pat_completeness auto
termination
  by (relation "measure (\<lambda>(B, level, roots). TREE_DEPTH + 1 - level)") auto

definition empty_roots :: "blake3 \<Rightarrow> bytes list" where
  "empty_roots B =
     (let roots = (replicate (TREE_DEPTH + 1) (replicate 32 0))[0 := hash_parts B MERKLE_EMPTY []]
      in empty_roots_loop B 1 roots)"

record CommitmentTree =
  ct_leaves :: "bytes list"
  ct_empty :: "bytes list"
  ct_anchors :: "Anchor list"

definition ct_new :: "blake3 \<Rightarrow> CommitmentTree" where
  "ct_new B = \<lparr>ct_leaves = [], ct_empty = empty_roots B, ct_anchors = []\<rparr>"

definition ct_len :: "CommitmentTree \<Rightarrow> u64" where
  "ct_len t = word_of_nat (length (ct_leaves t))"

definition ct_is_empty :: "CommitmentTree \<Rightarrow> bool" where
  "ct_is_empty t \<longleftrightarrow> ct_leaves t = []"

definition ct_append :: "CommitmentTree \<Rightarrow> Commitment \<Rightarrow> CommitmentTree \<times> u64" where
  "ct_append t cm =
     (let pos = word_of_nat (length (ct_leaves t))
      in (t\<lparr>ct_leaves := ct_leaves t @ [cm_bytes cm]\<rparr>, pos))"

definition from_raw_leaves :: "blake3 \<Rightarrow> bytes list \<Rightarrow> CommitmentTree" where
  "from_raw_leaves B leaves = (ct_new B)\<lparr>ct_leaves := leaves\<rparr>"

text \<open>The inner \<^verbatim>\<open>while i < level.len()\<close> loop: hash neighbours, pad an odd end.\<close>

fun next_level :: "blake3 \<Rightarrow> bytes \<Rightarrow> bytes list \<Rightarrow> bytes list" where
  "next_level B e [] = []"
| "next_level B e [left] = [node_hash B left e]"
| "next_level B e (left # right # rest) = node_hash B left right # next_level B e rest"

text \<open>The \<^verbatim>\<open>for depth in 0..TREE_DEPTH\<close> loop of \<^verbatim>\<open>root\<close>.\<close>

definition root_levels :: "blake3 \<Rightarrow> bytes list \<Rightarrow> nat \<Rightarrow> bytes list \<Rightarrow> bytes list" where
  "root_levels B es n level = fold (\<lambda>depth lv. next_level B (es ! depth) lv) [0..<n] level"

definition ct_root :: "blake3 \<Rightarrow> CommitmentTree \<Rightarrow> bytes" where
  "ct_root B t =
     (if ct_leaves t = [] then ct_empty t ! TREE_DEPTH
      else root_levels B (ct_empty t) TREE_DEPTH (ct_leaves t) ! 0)"

text \<open>The loop of \<^verbatim>\<open>witness\<close>: the sibling at each depth, then one level up.\<close>

fun witness_loop :: "blake3 \<Rightarrow> bytes list \<Rightarrow> nat list \<Rightarrow> bytes list \<Rightarrow> nat \<Rightarrow> bytes list" where
  "witness_loop B es [] level idx = []"
| "witness_loop B es (depth # ds) level idx =
     (let sib = idx XOR 1;
          sibling = (if sib < length level then level ! sib else es ! depth)
      in sibling # witness_loop B es ds (next_level B (es ! depth) level) (idx div 2))"

definition ct_witness :: "blake3 \<Rightarrow> CommitmentTree \<Rightarrow> u64 \<Rightarrow> MerklePath option" where
  "ct_witness B t position =
     (let pos = unat position in
      if pos \<ge> length (ct_leaves t) then None
      else Some \<lparr>mp_position = position,
                 mp_siblings = witness_loop B (ct_empty t) [0..<TREE_DEPTH] (ct_leaves t) pos\<rparr>)"

text \<open>The eviction loop of \<^verbatim>\<open>seal\<close>: pop from the front while too old.\<close>

fun evict :: "u64 \<Rightarrow> Anchor list \<Rightarrow> Anchor list" where
  "evict height [] = []"
| "evict height (front # rest) =
     (if saturating_sub height (anc_height front) \<ge> ANCHOR_WINDOW then evict height rest
      else front # rest)"

definition ct_seal :: "blake3 \<Rightarrow> CommitmentTree \<Rightarrow> u64 \<Rightarrow> CommitmentTree \<times> Anchor" where
  "ct_seal B t height =
     (let anchor = \<lparr>anc_height = height, anc_root = ct_root B t\<rparr>
      in (t\<lparr>ct_anchors := evict height (ct_anchors t @ [anchor])\<rparr>, anchor))"

definition ct_anchor_valid :: "CommitmentTree \<Rightarrow> Anchor \<Rightarrow> bool" where
  "ct_anchor_valid t anchor \<longleftrightarrow> list_ex (\<lambda>a. a = anchor) (ct_anchors t)"

text \<open>The loop of \<^verbatim>\<open>verify_path\<close>.\<close>

fun path_root :: "blake3 \<Rightarrow> bytes \<Rightarrow> u64 \<Rightarrow> bytes list \<Rightarrow> bytes" where
  "path_root B cur idx [] = cur"
| "path_root B cur idx (sib # sibs) =
     path_root B (if idx AND 1 = 0 then node_hash B cur sib else node_hash B sib cur)
       (drop_bit 1 idx) sibs"

definition verify_path :: "blake3 \<Rightarrow> Commitment \<Rightarrow> MerklePath \<Rightarrow> bytes \<Rightarrow> bool" where
  "verify_path B leaf path root \<longleftrightarrow>
     path_root B (cm_bytes leaf) (mp_position path) (mp_siblings path) = root"

section \<open>The reference tree\<close>

fun empty_root :: "blake3 \<Rightarrow> nat \<Rightarrow> bytes" where
  "empty_root B 0 = hash_parts B MERKLE_EMPTY []"
| "empty_root B (Suc d) = node_hash B (empty_root B d) (empty_root B d)"

text \<open>
  Root of the complete binary tree of depth \<open>d\<close> whose leaves are nodes of level \<open>k\<close>: the
  first \<open>2 ^ d\<close> entries of the list, then empty subtrees of that level.
\<close>

fun ref_root :: "blake3 \<Rightarrow> nat \<Rightarrow> nat \<Rightarrow> bytes list \<Rightarrow> bytes" where
  "ref_root B k 0 xs = (case xs of [] \<Rightarrow> empty_root B k | x # _ \<Rightarrow> x)"
| "ref_root B k (Suc d) xs =
     node_hash B (ref_root B k d (take (2 ^ d) xs)) (ref_root B k d (drop (2 ^ d) xs))"

text \<open>The node at slot \<open>i\<close> of a level: its entry, or the empty subtree past the end.\<close>

definition slot :: "blake3 \<Rightarrow> nat \<Rightarrow> bytes list \<Rightarrow> nat \<Rightarrow> bytes" where
  "slot B k xs i = (if i < length xs then xs ! i else empty_root B k)"

text \<open>Well-formed trees carry the precomputed empty hashes; every operation keeps them.\<close>

definition wf_tree :: "blake3 \<Rightarrow> CommitmentTree \<Rightarrow> bool" where
  "wf_tree B t \<longleftrightarrow> ct_empty t = empty_roots B"

section \<open>The precomputed empty hashes\<close>

declare empty_roots_loop.simps [simp del]

lemma empty_roots_loop_nth:
  assumes "1 \<le> level" and "length roots = TREE_DEPTH + 1"
    and "\<And>k. k < level \<Longrightarrow> k \<le> TREE_DEPTH \<Longrightarrow> roots ! k = empty_root B k" and "j \<le> TREE_DEPTH"
  shows "empty_roots_loop B level roots ! j = empty_root B j"
  using assms
proof (induction B level roots rule: empty_roots_loop.induct)
  case (1 B level roots)
  show ?case
  proof (cases "level \<le> TREE_DEPTH")
    case True
    let ?r = "roots[level := node_hash B (roots ! (level - 1)) (roots ! (level - 1))]"
    have "?r ! k = empty_root B k" if "k < level + 1" "k \<le> TREE_DEPTH" for k
      using that True "1.prems" by (cases level) (auto simp: nth_list_update)
    then show ?thesis
      using "1.IH" [OF True] "1.prems" True by (subst empty_roots_loop.simps) simp
  next
    case False
    then show ?thesis using "1.prems" by (subst empty_roots_loop.simps) simp
  qed
qed

lemma empty_roots_nth [simp]: "j \<le> TREE_DEPTH \<Longrightarrow> empty_roots B ! j = empty_root B j"
  by (simp add: empty_roots_def Let_def)
    (rule empty_roots_loop_nth, auto simp: nth_list_update)

section \<open>Level by level against the reference tree\<close>

lemma length_next_level [simp]: "length (next_level B e xs) = (length xs + 1) div 2"
  by (induction B e xs rule: next_level.induct) auto

lemma next_level_eq_Nil [simp]: "next_level B e xs = [] \<longleftrightarrow> xs = []"
  by (induction B e xs rule: next_level.induct) auto

lemma next_level_take: "next_level B e (take (2 * n) xs) = take n (next_level B e xs)"
proof (induction B e xs arbitrary: n rule: next_level.induct)
  case (3 B e left right rest)
  then show ?case by (cases n) auto
qed (auto simp: take_Cons')

lemma next_level_drop: "next_level B e (drop (2 * n) xs) = drop n (next_level B e xs)"
proof (induction B e xs arbitrary: n rule: next_level.induct)
  case (3 B e left right rest)
  then show ?case by (cases n) auto
qed (auto simp: drop_Cons')

lemma slot_simps [simp]:
  "slot B k [] i = empty_root B k"
  "slot B k (x # xs) 0 = x"
  "slot B k (x # xs) (Suc i) = slot B k xs i"
  by (simp_all add: slot_def)

lemma next_level_slot:
  "slot B (Suc k) (next_level B (empty_root B k) xs) j
   = node_hash B (slot B k xs (2 * j)) (slot B k xs (Suc (2 * j)))"
proof (induction B "empty_root B k" xs arbitrary: j rule: next_level.induct)
  case (2 B left)
  then show ?case by (cases j) auto
next
  case (3 B left right rest)
  then show ?case by (cases j) auto
qed simp

lemma ref_root_Nil [simp]: "ref_root B k d [] = empty_root B (k + d)"
  by (induction d) auto

lemma ref_root_next_level:
  "ref_root B k (Suc d) xs = ref_root B (Suc k) d (next_level B (empty_root B k) xs)"
proof (induction d arbitrary: xs)
  case 0
  show ?case
  proof (cases xs)
    case (Cons x ys)
    then show ?thesis by (cases ys) auto
  qed simp
next
  case (Suc d)
  let ?f = "next_level B (empty_root B k)"
  have "ref_root B k (Suc (Suc d)) xs
      = node_hash B (ref_root B k (Suc d) (take (2 * 2 ^ d) xs)) (ref_root B k (Suc d) (drop (2 * 2 ^ d) xs))"
    by simp
  also have "\<dots> = node_hash B (ref_root B (Suc k) d (take (2 ^ d) (?f xs)))
      (ref_root B (Suc k) d (drop (2 ^ d) (?f xs)))"
    by (simp only: Suc.IH next_level_take next_level_drop)
  finally show ?case by simp
qed

lemma ref_root_take: "ref_root B k d (take (2 ^ d) xs) = ref_root B k d xs"
proof (induction d arbitrary: xs)
  case 0
  then show ?case by (cases xs) auto
next
  case (Suc d)
  have "take (2 ^ d) (drop (2 ^ d) xs) = drop (2 ^ d) (take (2 ^ Suc d) xs)"
    by (simp add: drop_take)
  with Suc.IH [of "drop (2 ^ d) xs"] show ?case by (simp add: min_def)
qed

lemma fold_next_level_ref:
  assumes "\<And>j. j < k + d \<Longrightarrow> es ! j = empty_root B j" and "xs \<noteq> []"
  shows "fold (\<lambda>j lv. next_level B (es ! j) lv) [k..<k + d] xs ! 0 = ref_root B k d xs"
  using assms
proof (induction d arbitrary: k xs)
  case 0
  then show ?case by (cases xs) auto
next
  case (Suc d)
  have upt: "[k..<k + Suc d] = k # [Suc k..<Suc k + d]" by (simp add: upt_conv_Cons del: upt_Suc)
  have "fold (\<lambda>j lv. next_level B (es ! j) lv) [Suc k..<Suc k + d] (next_level B (es ! k) xs) ! 0
      = ref_root B (Suc k) d (next_level B (es ! k) xs)"
    using Suc.prems by (intro Suc.IH) auto
  then show ?case
    unfolding upt using Suc.prems(1) [of k] by (simp add: ref_root_next_level del: ref_root.simps upt_Suc)
qed

lemma wf_tree_empty_nth: "wf_tree B t \<Longrightarrow> j \<le> TREE_DEPTH \<Longrightarrow> ct_empty t ! j = empty_root B j"
  by (simp add: wf_tree_def)

lemma ct_root_eq_ref_root: "wf_tree B t \<Longrightarrow> ct_root B t = ref_root B 0 TREE_DEPTH (ct_leaves t)"
  using fold_next_level_ref [of 0 TREE_DEPTH "ct_empty t" B "ct_leaves t"]
  by (auto simp: ct_root_def root_levels_def wf_tree_empty_nth)

section \<open>Authentication paths\<close>

lemma even_u64: "(idx :: u64) AND 1 = 0 \<longleftrightarrow> even (unat idx)"
  by (simp add: and_one_eq unat_mod word_eq_iff_unsigned [where ?'a = nat] flip: even_iff_mod_2_eq_zero)

lemma unat_drop_bit_1: "unat (drop_bit 1 (idx :: u64)) = unat idx div 2"
  by (simp add: drop_bit_Suc unat_div_distrib)

lemma mod_pow2_Suc:
  fixes n :: nat
  shows "n mod 2 ^ Suc d div 2 = n div 2 mod 2 ^ d" and "even (n mod 2 ^ Suc d) = even n"
proof -
  have "n mod (2 * 2 ^ d) = 2 * (n div 2 mod 2 ^ d) + n mod 2" by (rule mod_mult2_eq)
  then show "n mod 2 ^ Suc d div 2 = n div 2 mod 2 ^ d" and "even (n mod 2 ^ Suc d) = even n"
    by (simp_all add: even_iff_mod_2_eq_zero)
qed

text \<open>
  The path collected at slot \<open>i\<close> folds up to the root of the level, for every slot of
  the level, filled or empty; only the low bits of the position matter.
\<close>

lemma path_root_witness_loop:
  assumes "\<And>j. j < k + d \<Longrightarrow> es ! j = empty_root B j"
  shows "path_root B (slot B k xs (unat idx mod 2 ^ d)) idx
      (witness_loop B es [k..<k + d] xs (unat idx mod 2 ^ d)) = ref_root B k d xs"
  using assms
proof (induction d arbitrary: k xs idx)
  case 0
  then show ?case by (cases xs) auto
next
  case (Suc d)
  let ?i = "unat idx mod 2 ^ Suc d" and ?j = "unat idx div 2 mod 2 ^ d"
  let ?xs = "next_level B (empty_root B k) xs"
  have upt: "[k..<k + Suc d] = k # [Suc k..<Suc k + d]" by (simp add: upt_conv_Cons del: upt_Suc)
  have half: "?i div 2 = ?j" and par: "even ?i = even (unat idx)" by (rule mod_pow2_Suc)+
  have ek: "es ! k = empty_root B k" using Suc.prems [of k] by simp
  have sib: "(if ?i XOR 1 < length xs then xs ! (?i XOR 1) else empty_root B k)
      = slot B k xs (?i XOR 1)"
    by (simp add: slot_def)
  have up: "(if even ?i then node_hash B (slot B k xs ?i) (slot B k xs (?i XOR 1))
      else node_hash B (slot B k xs (?i XOR 1)) (slot B k xs ?i)) = slot B (Suc k) ?xs ?j"
  proof (cases "even ?i")
    case True
    then have "?i = 2 * ?j" unfolding half [symmetric] by (simp only: dvd_mult_div_cancel)
    with True show ?thesis by (simp add: xor_Suc_0_eq next_level_slot)
  next
    case False
    then have "2 * (?i div 2) + 1 = ?i" by (rule odd_two_times_div_two_succ)
    then have "?i = Suc (2 * ?j)" unfolding half by (simp only: Suc_eq_plus1)
    with False show ?thesis by (simp add: xor_Suc_0_eq next_level_slot)
  qed
  have IH: "path_root B (slot B (Suc k) ?xs ?j) (drop_bit 1 idx)
      (witness_loop B es [Suc k..<Suc k + d] ?xs ?j) = ref_root B (Suc k) d ?xs"
    by (rule Suc.IH [of "Suc k" ?xs "drop_bit 1 idx", unfolded unat_drop_bit_1]) (simp add: Suc.prems)
  have "path_root B (slot B k xs ?i) idx (witness_loop B es [k..<k + Suc d] xs ?i)
      = path_root B (slot B (Suc k) ?xs ?j) (drop_bit 1 idx)
          (witness_loop B es [Suc k..<Suc k + d] ?xs ?j)"
    unfolding upt witness_loop.simps Let_def ek sib path_root.simps half even_u64 par [symmetric] up ..
  then show ?case by (simp only: IH ref_root_next_level)
qed

lemma length_witness_loop [simp]: "length (witness_loop B es ds xs i) = length ds"
  by (induction B es ds xs i rule: witness_loop.induct) (auto simp: Let_def)

text \<open>The authentication path of any slot of a well-formed tree.\<close>

definition slot_path :: "blake3 \<Rightarrow> CommitmentTree \<Rightarrow> u64 \<Rightarrow> bytes list" where
  "slot_path B t position =
     witness_loop B (ct_empty t) [0..<TREE_DEPTH] (ct_leaves t) (unat position mod 2 ^ TREE_DEPTH)"

lemma path_root_slot_path:
  "wf_tree B t \<Longrightarrow> path_root B (slot B 0 (ct_leaves t) (unat position mod 2 ^ TREE_DEPTH)) position
     (slot_path B t position) = ct_root B t"
  using path_root_witness_loop [of 0 TREE_DEPTH "ct_empty t" B "ct_leaves t" position]
  by (simp add: slot_path_def wf_tree_empty_nth ct_root_eq_ref_root)

lemma ct_witness_eq:
  assumes "length (ct_leaves t) \<le> 2 ^ TREE_DEPTH"
  shows "ct_witness B t position =
    (if unat position < length (ct_leaves t)
     then Some \<lparr>mp_position = position, mp_siblings = slot_path B t position\<rparr> else None)"
  using assms by (auto simp: ct_witness_def slot_path_def Let_def)

lemma ct_witness_complete:
  assumes "wf_tree B t" and "length (ct_leaves t) \<le> 2 ^ TREE_DEPTH"
    and "unat position < length (ct_leaves t)" and "cm_bytes cm = ct_leaves t ! unat position"
  shows "\<exists>path. ct_witness B t position = Some path \<and> verify_path B cm path (ct_root B t)
    \<and> mp_position path = position \<and> length (mp_siblings path) = TREE_DEPTH"
  using assms path_root_slot_path [OF assms(1), of position]
  by (simp add: ct_witness_eq verify_path_def slot_def) (simp add: slot_path_def)

section \<open>Soundness of the path check\<close>

text \<open>The messages hashed along a path.\<close>

fun path_msgs :: "blake3 \<Rightarrow> bytes \<Rightarrow> u64 \<Rightarrow> bytes list \<Rightarrow> bytes list" where
  "path_msgs B cur idx [] = []"
| "path_msgs B cur idx (sib # sibs) =
     absorb_parts (if idx AND 1 = 0 then [cur, sib] else [sib, cur])
     # path_msgs B (if idx AND 1 = 0 then node_hash B cur sib else node_hash B sib cur)
         (drop_bit 1 idx) sibs"

lemma node_hash_binding:
  assumes "node_hash B l r = node_hash B l' r'" and "{length l, length r, length l', length r'} \<subseteq> {..<2 ^ 64}"
  shows "(l = l' \<and> r = r') \<or> collision_at B MERKLE_NODE (absorb_parts [l, r]) (absorb_parts [l', r'])"
  using hash_parts_binding [of B MERKLE_NODE "[l, r]" "[l', r']"] assms by (auto simp: node_hash_def)

lemma path_root_binding:
  assumes "path_root B cur idx sibs = path_root B cur' idx sibs'"
    and "length sibs = length sibs'" and "digest32 B" and "length cur = 32" and "length cur' = 32"
    and "list_all (\<lambda>s. length s = 32) sibs" and "list_all (\<lambda>s. length s = 32) sibs'"
  shows "(cur = cur' \<and> sibs = sibs') \<or>
    (\<exists>(m, m') \<in> set (zip (path_msgs B cur idx sibs) (path_msgs B cur' idx sibs')).
       collision_at B MERKLE_NODE m m')"
  using assms(2,1,4-7)
proof (induction sibs sibs' arbitrary: cur cur' idx rule: list_induct2)
  case Nil
  then show ?case by simp
next
  case (Cons s sibs s' sibs')
  let ?n = "if idx AND 1 = 0 then node_hash B cur s else node_hash B s cur"
  let ?n' = "if idx AND 1 = 0 then node_hash B cur' s' else node_hash B s' cur'"
  have len: "length ?n = 32" "length ?n' = 32" using assms(3) by (simp_all add: node_hash_def)
  have "(?n = ?n' \<and> sibs = sibs') \<or> (\<exists>(m, m') \<in> set (zip (path_msgs B ?n (drop_bit 1 idx) sibs)
      (path_msgs B ?n' (drop_bit 1 idx) sibs')). collision_at B MERKLE_NODE m m')"
    using Cons.prems len by (intro Cons.IH) simp_all
  moreover have "?n = ?n' \<Longrightarrow> (cur = cur' \<and> s = s') \<or> collision_at B MERKLE_NODE
      (absorb_parts (if idx AND 1 = 0 then [cur, s] else [s, cur]))
      (absorb_parts (if idx AND 1 = 0 then [cur', s'] else [s', cur']))"
    using Cons.prems node_hash_binding [of B cur s cur' s'] node_hash_binding [of B s cur s' cur']
    by (auto split: if_splits)
  ultimately show ?case by auto
qed

lemma length_empty_root [simp]: "digest32 B \<Longrightarrow> length (empty_root B k) = 32"
  by (cases k) (simp_all add: node_hash_def)

lemma next_level_length32:
  "digest32 B \<Longrightarrow> x \<in> set (next_level B e xs) \<Longrightarrow> length x = 32"
  by (induction B e xs rule: next_level.induct) (auto simp: node_hash_def)

lemma witness_loop_length32:
  assumes "digest32 B" and "\<And>j. j \<in> set ds \<Longrightarrow> length (es ! j) = 32" and "\<And>x. x \<in> set xs \<Longrightarrow> length x = 32"
  shows "s \<in> set (witness_loop B es ds xs i) \<Longrightarrow> length s = 32"
  using assms
proof (induction B es ds xs i rule: witness_loop.induct)
  case (2 B es d ds level idx)
  then show ?case by (auto simp: Let_def next_level_length32 split: if_splits)
qed simp

definition wf_leaves :: "CommitmentTree \<Rightarrow> bool" where
  "wf_leaves t \<longleftrightarrow> list_all (\<lambda>l. length l = 32) (ct_leaves t)"

lemma slot_path_length32:
  "digest32 B \<Longrightarrow> wf_tree B t \<Longrightarrow> wf_leaves t \<Longrightarrow> list_all (\<lambda>s. length s = 32) (slot_path B t position)"
  unfolding list_all_iff slot_path_def
  by (rule ballI, erule witness_loop_length32 [rotated 3])
    (auto simp: wf_tree_empty_nth wf_leaves_def list_all_iff)

lemma length_slot_path [simp]: "length (slot_path B t position) = TREE_DEPTH"
  by (simp add: slot_path_def)

lemma length_slot: "digest32 B \<Longrightarrow> wf_leaves t \<Longrightarrow> length (slot B k (ct_leaves t) i) = 32"
  by (auto simp: slot_def wf_leaves_def list_all_iff)

section \<open>The anchor window\<close>

lemma saturating_sub_unat: "unat (saturating_sub a b) = unat a - unat b"
  by (auto simp: saturating_sub_def unat_sub_if' word_le_nat_alt)

lemma evict_filter:
  "sorted_wrt (<) (map anc_height as) \<Longrightarrow>
   evict h as = filter (\<lambda>a. unat h - unat (anc_height a) < 1024) as"
proof (induction as)
  case (Cons a as)
  have ge: "saturating_sub h (anc_height x) \<ge> ANCHOR_WINDOW \<longleftrightarrow> \<not> unat h - unat (anc_height x) < 1024" for x
    by (simp add: word_le_nat_alt saturating_sub_unat ANCHOR_WINDOW_def not_less)
  have "filter (\<lambda>a. unat h - unat (anc_height a) < 1024) as = as"
    if "unat h - unat (anc_height a) < 1024"
    using Cons.prems that by (intro filter_True) (auto simp: word_less_nat_alt)
  with Cons ge [of a] show ?case by simp
qed simp

lemma window_distinct_bound:
  fixes ns :: "nat list"
  assumes "sorted_wrt (<) ns" and "\<And>n. n \<in> set ns \<Longrightarrow> n \<le> h \<and> h - n < w"
  shows "length ns \<le> w"
proof -
  have "set ns \<subseteq> {h + 1 - w..h}" using assms(2) by fastforce
  then have "card (set ns) \<le> w" by (rule card_mono [THEN order_trans, rotated]) auto
  moreover have "distinct ns" using assms(1) by (simp add: strict_sorted_iff)
  ultimately show ?thesis by (simp add: distinct_card)
qed

definition sealed_below :: "CommitmentTree \<Rightarrow> u64 \<Rightarrow> bool" where
  "sealed_below t h \<longleftrightarrow> sorted_wrt (<) (map anc_height (ct_anchors t))
     \<and> list_all (\<lambda>a. anc_height a < h) (ct_anchors t)"

lemma ct_seal_anchors:
  assumes "sealed_below t h" and "ct_seal B t h = (t', a)"
  shows "a = \<lparr>anc_height = h, anc_root = ct_root B t\<rparr>"
    and "ct_anchors t' = filter (\<lambda>x. unat h - unat (anc_height x) < 1024) (ct_anchors t) @ [a]"
    and "ct_leaves t' = ct_leaves t" and "ct_empty t' = ct_empty t"
proof -
  have "sorted_wrt (<) (map anc_height (ct_anchors t @ [\<lparr>anc_height = h, anc_root = ct_root B t\<rparr>]))"
    using assms(1) by (auto simp: sealed_below_def sorted_wrt_append list_all_iff)
  from evict_filter [OF this, of h] assms(2)
  show "a = \<lparr>anc_height = h, anc_root = ct_root B t\<rparr>"
    and "ct_anchors t' = filter (\<lambda>x. unat h - unat (anc_height x) < 1024) (ct_anchors t) @ [a]"
    and "ct_leaves t' = ct_leaves t" and "ct_empty t' = ct_empty t"
    by (auto simp: ct_seal_def Let_def)
qed

section \<open>The tree as an accumulator\<close>

lemma wf_tree_ops [simp]:
  "wf_tree B (ct_new B)" "wf_tree B (fst (ct_append t cm)) = wf_tree B t"
  "wf_tree B (fst (ct_seal B' t h)) = wf_tree B t" "wf_tree B (from_raw_leaves B ls)"
  by (simp_all add: wf_tree_def ct_new_def ct_append_def ct_seal_def from_raw_leaves_def Let_def)

lemma ct_leaves_ops [simp]:
  "ct_leaves (ct_new B) = []" "ct_leaves (fst (ct_append t cm)) = ct_leaves t @ [cm_bytes cm]"
  "ct_leaves (fst (ct_seal B t h)) = ct_leaves t" "ct_leaves (from_raw_leaves B ls) = ls"
  by (simp_all add: ct_new_def ct_append_def ct_seal_def from_raw_leaves_def Let_def)

interpretation note_tree: accumulator ct_leaves "ct_root B" "\<lambda>t cm. fst (ct_append t cm)"
    "ct_witness B" "verify_path B" cm_bytes unat "wf_tree B" "2 ^ TREE_DEPTH" for B
proof
  show "\<exists>p. ct_witness B t i = Some p \<and> verify_path B c p (ct_root B t)"
    if "wf_tree B t" "length (ct_leaves t) \<le> 2 ^ TREE_DEPTH" "unat i < length (ct_leaves t)"
      "cm_bytes c = ct_leaves t ! unat i" for t i c
    using ct_witness_complete [OF that] by auto
qed (auto simp: ct_witness_def ct_root_eq_ref_root)

text \<open>A leaf of a tree has a path that verifies against the anchor at which the tree is sealed.\<close>

lemma sealed_witness:
  assumes "wf_tree B t" and "length (ct_leaves t) \<le> 2 ^ TREE_DEPTH" and "unat pos < length (ct_leaves t)"
    and "ct_leaves t ! unat pos = cm_bytes cm"
  obtains p where "ct_witness B (fst (ct_seal B t h)) pos = Some p" "verify_path B cm p (anc_root (snd (ct_seal B t h)))"
proof -
  let ?s = "fst (ct_seal B t h)"
  have "ct_root B ?s = ct_root B t" by (rule note_tree.root_cong) (simp_all add: assms(1))
  moreover have "anc_root (snd (ct_seal B t h)) = ct_root B t" by (simp add: ct_seal_def Let_def)
  ultimately show ?thesis
    using note_tree.witness_verifies [of B ?s pos cm] assms that by auto
qed

section \<open>Properties\<close>

text \<open>C20. The level-by-level root computation of the tree, with its precomputed empty hashes, is the
  root of the complete depth-32 Merkle tree whose missing leaves are the empty leaf.\<close>

theorem ct_root_is_reference_root:
  "wf_tree B t \<Longrightarrow> ct_root B t = ref_root B 0 TREE_DEPTH (ct_leaves t)"
  by (rule ct_root_eq_ref_root)

theorem ct_root_is_reference_root_witness:
  "wf_tree zero_hash (from_raw_leaves zero_hash [replicate 32 1, replicate 32 2, replicate 32 3])
   \<and> ct_root zero_hash (from_raw_leaves zero_hash [replicate 32 1, replicate 32 2, replicate 32 3])
     = ref_root zero_hash 0 TREE_DEPTH [replicate 32 1, replicate 32 2, replicate 32 3]"
  using ct_root_is_reference_root
    [of zero_hash "from_raw_leaves zero_hash [replicate 32 1, replicate 32 2, replicate 32 3]"] by simp

text \<open>C21. Every leaf of a tree within its capacity has an authentication path, and the stateless
  path check accepts it against the current root.\<close>

theorem ct_witness_verifies:
  assumes "wf_tree B t" and "length (ct_leaves t) \<le> 2 ^ 32"
    and "unat position < length (ct_leaves t)" and "cm_bytes cm = ct_leaves t ! unat position"
  shows "\<exists>path. ct_witness B t position = Some path \<and> verify_path B cm path (ct_root B t)
    \<and> mp_position path = position \<and> length (mp_siblings path) = TREE_DEPTH"
  using assms by (intro ct_witness_complete) (simp_all add: TREE_DEPTH_def)

definition sample_tree :: CommitmentTree where
  "sample_tree = fst (ct_append (fst (ct_append (ct_new zero_hash) (Commitment (replicate 32 1))))
     (Commitment (replicate 32 2)))"

theorem ct_witness_verifies_witness:
  "\<exists>path. ct_witness zero_hash sample_tree 1 = Some path
     \<and> verify_path zero_hash (Commitment (replicate 32 2)) path (ct_root zero_hash sample_tree)
     \<and> mp_position path = 1 \<and> length (mp_siblings path) = TREE_DEPTH"
  by (rule ct_witness_verifies) (simp_all add: sample_tree_def)

text \<open>C22. Whatever leaf the path check accepts against the root of a tree is the content of the slot
  the path names (the position modulo the capacity), or the messages hashed along the two paths
  contain a BLAKE3 collision at the same height.\<close>

theorem verify_path_sound:
  assumes "digest32 B" and "wf_tree B t" and "wf_leaves t" and "wf_cm leaf"
    and "length (mp_siblings path) = TREE_DEPTH" and "list_all (\<lambda>s. length s = 32) (mp_siblings path)"
    and "verify_path B leaf path (ct_root B t)"
  shows "cm_bytes leaf = slot B 0 (ct_leaves t) (unat (mp_position path) mod 2 ^ 32) \<or>
    (\<exists>(m, m') \<in> set (zip
        (path_msgs B (cm_bytes leaf) (mp_position path) (mp_siblings path))
        (path_msgs B (slot B 0 (ct_leaves t) (unat (mp_position path) mod 2 ^ 32)) (mp_position path)
           (slot_path B t (mp_position path)))). collision_at B MERKLE_NODE m m')"
proof -
  let ?s = "slot B 0 (ct_leaves t) (unat (mp_position path) mod 2 ^ 32)"
  have eq: "path_root B (cm_bytes leaf) (mp_position path) (mp_siblings path)
      = path_root B ?s (mp_position path) (slot_path B t (mp_position path))"
    using assms(7) path_root_slot_path [OF assms(2), of "mp_position path"]
    by (simp add: verify_path_def TREE_DEPTH_def)
  have "length (cm_bytes leaf) = 32" using assms(4) by (simp add: wf_cm_def)
  from path_root_binding [OF eq _ assms(1) this length_slot [OF assms(1,3)] assms(6)
      slot_path_length32 [OF assms(1-3)]] assms(5)
  show ?thesis by auto
qed

theorem verify_path_sound_witness:
  "\<exists>path. verify_path zero_hash (Commitment (replicate 32 2)) path (ct_root zero_hash sample_tree)
     \<and> (replicate 32 2 = slot zero_hash 0 (ct_leaves sample_tree) (unat (mp_position path) mod 2 ^ 32) \<or>
       (\<exists>(m, m') \<in> set (zip
         (path_msgs zero_hash (replicate 32 2) (mp_position path) (mp_siblings path))
         (path_msgs zero_hash (slot zero_hash 0 (ct_leaves sample_tree) (unat (mp_position path) mod 2 ^ 32))
            (mp_position path) (slot_path zero_hash sample_tree (mp_position path)))).
          collision_at zero_hash MERKLE_NODE m m'))"
proof -
  let ?path = "\<lparr>mp_position = 1, mp_siblings = slot_path zero_hash sample_tree 1\<rparr>"
  have wf: "wf_tree zero_hash sample_tree" "wf_leaves sample_tree"
    by (simp_all add: sample_tree_def wf_leaves_def)
  have ver: "verify_path zero_hash (Commitment (replicate 32 2)) ?path (ct_root zero_hash sample_tree)"
    using path_root_slot_path [OF wf(1), of 1]
    by (simp add: verify_path_def TREE_DEPTH_def sample_tree_def slot_def)
  show ?thesis
    using verify_path_sound [of zero_hash sample_tree "Commitment (replicate 32 2)" ?path]
      ver wf slot_path_length32 [OF digest32_zero_hash wf, of 1]
    by (intro exI [of _ ?path]) (simp add: wf_cm_def)
qed

text \<open>Sealing at a new height keeps exactly the anchors fewer than 1024 checkpoints old, in order,
  and adds the anchor of the current root; the window never holds more than 1024 anchors.\<close>

theorem ct_seal_keeps_window:
  assumes "sealed_below t h" and "ct_seal B t h = (t', a)"
  shows "a = \<lparr>anc_height = h, anc_root = ct_root B t\<rparr>
    \<and> ct_anchors t' = filter (\<lambda>x. unat h - unat (anc_height x) < 1024) (ct_anchors t) @ [a]
    \<and> (\<forall>x. ct_anchor_valid t' x \<longleftrightarrow>
          x = a \<or> (ct_anchor_valid t x \<and> unat h - unat (anc_height x) < 1024))
    \<and> length (ct_anchors t') \<le> 1024"
proof -
  note seal = ct_seal_anchors [OF assms]
  have "sorted_wrt (<) (map (unat \<circ> anc_height) (ct_anchors t'))"
    using assms(1) unfolding seal
    by (auto simp: sealed_below_def sorted_wrt_append sorted_wrt_filter list_all_iff sorted_wrt_map
        word_less_nat_alt)
  then have "length (map (unat \<circ> anc_height) (ct_anchors t')) \<le> 1024"
    using assms(1) unfolding seal
    by (intro window_distinct_bound [of _ "unat h"])
      (auto simp: sealed_below_def list_all_iff word_less_nat_alt less_imp_le)
  then show ?thesis
    using seal by (auto simp: ct_anchor_valid_def list_ex_iff)
qed

theorem ct_seal_keeps_window_witness:
  "sealed_below (sample_tree\<lparr>ct_anchors := [\<lparr>anc_height = 0, anc_root = []\<rparr>, \<lparr>anc_height = 1, anc_root = []\<rparr>]\<rparr>) 1024
   \<and> ct_anchors (fst (ct_seal zero_hash
        (sample_tree\<lparr>ct_anchors := [\<lparr>anc_height = 0, anc_root = []\<rparr>, \<lparr>anc_height = 1, anc_root = []\<rparr>]\<rparr>) 1024))
     = [\<lparr>anc_height = 1, anc_root = []\<rparr>, snd (ct_seal zero_hash
        (sample_tree\<lparr>ct_anchors := [\<lparr>anc_height = 0, anc_root = []\<rparr>, \<lparr>anc_height = 1, anc_root = []\<rparr>]\<rparr>) 1024)]"
  (is "?below \<and> _")
proof -
  have below: ?below by (simp add: sealed_below_def)
  show ?thesis
    using below ct_seal_keeps_window [OF below, of zero_hash] by (cases "ct_seal zero_hash
        (sample_tree\<lparr>ct_anchors := [\<lparr>anc_height = 0, anc_root = []\<rparr>, \<lparr>anc_height = 1, anc_root = []\<rparr>]\<rparr>) 1024")
      (simp add: sample_tree_def)
qed

text \<open>Past its capacity of \<open>2 ^ 32\<close> leaves the tree accepts further commitments without any error,
  and they never enter the root: such notes can not be spent.\<close>

theorem ct_append_past_capacity_ignored:
  assumes "wf_tree B t" and "2 ^ 32 \<le> length (ct_leaves t)"
  shows "ct_leaves (fst (ct_append t cm)) = ct_leaves t @ [cm_bytes cm]
    \<and> ct_root B (fst (ct_append t cm)) = ct_root B t"
proof -
  have "ref_root B 0 32 (ct_leaves t @ [x]) = ref_root B 0 32 (ct_leaves t)" for x
    using assms(2) ref_root_take [of B 0 32 "ct_leaves t @ [x]"] ref_root_take [of B 0 32 "ct_leaves t"]
    by simp
  then show ?thesis using assms(1) by (simp add: ct_root_eq_ref_root TREE_DEPTH_def)
qed

theorem ct_append_past_capacity_ignored_witness:
  "ct_root zero_hash (fst (ct_append (from_raw_leaves zero_hash (replicate (2 ^ 32) (replicate 32 1)))
       (Commitment (replicate 32 2))))
   = ct_root zero_hash (from_raw_leaves zero_hash (replicate (2 ^ 32) (replicate 32 1)))"
  by (rule ct_append_past_capacity_ignored [THEN conjunct2]) (simp_all only: wf_tree_ops ct_leaves_ops length_replicate order_refl)

end
