(* ===== verification/Prover_Dev.thy ===== *)
theory Prover_Dev
  imports Tx Commitment_Tree
begin

text \<open>
  \<^verbatim>\<open>crates/prover-dev\<close>: the spend statement C1 to C8 as the code checks it, the development
  prover and its verifier.  The loops over inputs and outputs are the recursions
  \<open>check_inputs\<close> and \<open>check_outputs\<close>, which carry the running \<^verbatim>\<open>u128\<close> sum.
  \<open>spend_statement\<close> is the declarative statement over natural numbers; the check is proved
  equivalent to it.
\<close>

section \<open>Witnesses and the checked statement\<close>

record InputWitness =
  iw_note :: Note
  iw_path :: MerklePath
  iw_is_dummy :: bool

record SpendWitness =
  sw_spender_nk :: bytes
  sw_spender_addr_tag :: bytes
  sw_inputs :: "InputWitness list"
  sw_outputs :: "Note list"
  sw_mint_value :: u64
  sw_binding_digest :: bytes

definition canonicalize :: "blake3 \<Rightarrow> SpendWitness \<Rightarrow> SpendWitness" where
  "canonicalize B w =
     w\<lparr>sw_inputs := sort_key (\<lambda>i. nf_bytes (nullifier B (iw_note i) (sw_spender_nk w))) (sw_inputs w)\<rparr>"

definition public_inputs :: "blake3 \<Rightarrow> SpendWitness \<Rightarrow> Anchor \<Rightarrow> SpendPublicInputs" where
  "public_inputs B w anchor =
     \<lparr>pi_anchor = anchor,
      pi_nullifiers = map (\<lambda>i. nullifier B (iw_note i) (sw_spender_nk w)) (sw_inputs w),
      pi_commitments = map (commitment B) (sw_outputs w),
      pi_binding_digest = sw_binding_digest w,
      pi_mint_value = sw_mint_value w\<rparr>"

fun check_inputs ::
  "blake3 \<Rightarrow> SpendWitness \<Rightarrow> SpendPublicInputs \<Rightarrow> nat \<Rightarrow> InputWitness list \<Rightarrow> u128 \<Rightarrow> ProveError + u128" where
  "check_inputs B w pi i [] value_in = Inr value_in"
| "check_inputs B w pi i (input # rest) value_in =
     (if iw_is_dummy input \<and> note_value (iw_note input) \<noteq> 0
      then Inl (Unsatisfied ''C4: dummy note must have zero value'')
      else if note_value (iw_note input) \<ge> MAX_MONEY
      then Inl (Unsatisfied ''C6: input value out of range'')
      else if \<not> iw_is_dummy input
          \<and> \<not> verify_path B (commitment B (iw_note input)) (iw_path input) (anc_root (pi_anchor pi))
      then Inl (Unsatisfied ''C1: membership proof invalid'')
      else if \<not> iw_is_dummy input \<and> note_addr_tag (iw_note input) \<noteq> sw_spender_addr_tag w
      then Inl (Unsatisfied ''C3: note not owned by spender'')
      else if nullifier B (iw_note input) (sw_spender_nk w) \<noteq> pi_nullifiers pi ! i
      then Inl (Unsatisfied ''C2: nullifier derivation mismatch'')
      else check_inputs B w pi (Suc i) rest (value_in + ucast (note_value (iw_note input))))"

fun check_outputs ::
  "blake3 \<Rightarrow> SpendWitness \<Rightarrow> SpendPublicInputs \<Rightarrow> Nullifier \<Rightarrow> nat \<Rightarrow> Note list \<Rightarrow> u128 \<Rightarrow> ProveError + u128" where
  "check_outputs B w pi first_nf i [] value_out = Inr value_out"
| "check_outputs B w pi first_nf i (out # rest) value_out =
     (if note_value out \<ge> MAX_MONEY
      then Inl (Unsatisfied ''C6: output value out of range'')
      else if commitment B out \<noteq> pi_commitments pi ! i
      then Inl (Unsatisfied ''C5: output commitment mismatch'')
      else if sw_mint_value w = 0 \<and> note_rho out \<noteq> rho_transfer B first_nf (word_of_nat i)
      then Inl (Unsatisfied ''C5: output rho derivation invalid'')
      else check_outputs B w pi first_nf (Suc i) rest (value_out + ucast (note_value out)))"

definition check_spend_statement :: "blake3 \<Rightarrow> SpendWitness \<Rightarrow> SpendPublicInputs \<Rightarrow> ProveError + unit" where
  "check_spend_statement B w pi =
     (if length (sw_inputs w) \<noteq> TX_INPUTS \<or> length (sw_outputs w) \<noteq> TX_OUTPUTS
      then Inl (Unsatisfied ''C0: wrong input/output arity'')
      else if length (pi_nullifiers pi) \<noteq> TX_INPUTS \<or> length (pi_commitments pi) \<noteq> TX_OUTPUTS
      then Inl (Unsatisfied ''C0: public input arity'')
      else if pi_binding_digest pi \<noteq> sw_binding_digest w
      then Inl (Unsatisfied ''C8: binding digest mismatch'')
      else case check_inputs B w pi 0 (sw_inputs w) 0 of
        Inl e \<Rightarrow> Inl e
      | Inr value_in \<Rightarrow> (case check_outputs B w pi (pi_nullifiers pi ! 0) 0 (sw_outputs w) 0 of
            Inl e \<Rightarrow> Inl e
          | Inr value_out \<Rightarrow>
              if (ucast (sw_mint_value w) :: u128) \<ge> ucast MAX_MONEY
              then Inl (Unsatisfied ''C6: mint value out of range'')
              else if value_in + ucast (sw_mint_value w) \<noteq> value_out
              then Inl (Unsatisfied ''C7: value imbalance'')
              else Inr ()))"

section \<open>The development prover and verifier\<close>

definition dev_tag :: "blake3 \<Rightarrow> SpendPublicInputs \<Rightarrow> bytes" where
  "dev_tag B pi = hash_parts B DEV_PROOF [pi_encode pi]"

text \<open>\<^verbatim>\<open>Vec::resize\<close>.\<close>

definition vec_resize :: "nat \<Rightarrow> 'a \<Rightarrow> 'a list \<Rightarrow> 'a list" where
  "vec_resize n v xs = take n xs @ replicate (n - length xs) v"

definition prove :: "blake3 \<Rightarrow> SpendWitness \<Rightarrow> Anchor \<Rightarrow> ProveError + SpendPublicInputs \<times> bytes" where
  "prove B w anchor =
     (let w' = canonicalize B w; pi = public_inputs B w' anchor
      in case check_spend_statement B w' pi of
           Inl e \<Rightarrow> Inl e
         | Inr _ \<Rightarrow> Inr (pi, vec_resize PROOF_BUCKET 0 (dev_tag B pi)))"

definition dev_verify :: "blake3 \<Rightarrow> SpendVerifier" where
  "dev_verify B pi proof =
     (if length proof \<noteq> PROOF_BUCKET then Inl VerifyMalformed
      else if \<exists>b \<in> set (drop 32 proof). b \<noteq> 0 then Inl VerifyMalformed
      else if take 32 proof = dev_tag B pi then Inr () else Inl VerifyInvalid)"

section \<open>The declarative statement\<close>

definition input_ok :: "blake3 \<Rightarrow> bytes \<Rightarrow> bytes \<Rightarrow> InputWitness \<Rightarrow> bool" where
  "input_ok B tag root i \<longleftrightarrow>
     note_value (iw_note i) < MAX_MONEY
     \<and> (if iw_is_dummy i then note_value (iw_note i) = 0
        else verify_path B (commitment B (iw_note i)) (iw_path i) root \<and> note_addr_tag (iw_note i) = tag)"

definition spend_statement :: "blake3 \<Rightarrow> SpendWitness \<Rightarrow> SpendPublicInputs \<Rightarrow> bool" where
  "spend_statement B w pi \<longleftrightarrow>
     length (sw_inputs w) = TX_INPUTS \<and> length (sw_outputs w) = TX_OUTPUTS
     \<and> pi_nullifiers pi = map (\<lambda>i. nullifier B (iw_note i) (sw_spender_nk w)) (sw_inputs w)
     \<and> pi_commitments pi = map (commitment B) (sw_outputs w)
     \<and> pi_binding_digest pi = sw_binding_digest w
     \<and> (\<forall>i \<in> set (sw_inputs w). input_ok B (sw_spender_addr_tag w) (anc_root (pi_anchor pi)) i)
     \<and> (\<forall>out \<in> set (sw_outputs w). note_value out < MAX_MONEY)
     \<and> (sw_mint_value w = 0 \<longrightarrow> map note_rho (sw_outputs w)
          = map (\<lambda>k. rho_transfer B (hd (pi_nullifiers pi)) (word_of_nat k)) [0 ..< TX_OUTPUTS])
     \<and> sw_mint_value w < MAX_MONEY
     \<and> sum_list (map (\<lambda>i. unat (note_value (iw_note i))) (sw_inputs w)) + unat (sw_mint_value w)
       = sum_list (map (\<lambda>out. unat (note_value out)) (sw_outputs w))"

section \<open>The check decides the statement\<close>

lemma unat_ucast_value [simp]: "unat (ucast (a :: u64) :: u128) = unat a"
  using unat_u64_less [of a] by (simp add: unsigned_ucast_eq take_bit_nat_eq_self)

lemma balance_u128:
  fixes a b m c d :: u64
  shows "(0 + ucast a + ucast b + ucast m :: u128) = 0 + ucast c + ucast d
    \<longleftrightarrow> unat a + unat b + unat m = unat c + unat d"
proof -
  have "unat (ucast a + ucast b + ucast m :: u128) = unat a + unat b + unat m"
    using unat_u64_less [of a] unat_u64_less [of b] unat_u64_less [of m] by (simp add: unat_word_ariths)
  moreover have "unat (ucast c + ucast d :: u128) = unat c + unat d"
    using unat_u64_less [of c] unat_u64_less [of d] by (simp add: unat_word_ariths)
  ultimately show ?thesis by (simp add: word_unat_eq_iff)
qed

lemma mint_range: "(ucast (m :: u64) :: u128) \<ge> ucast MAX_MONEY \<longleftrightarrow> MAX_MONEY \<le> m"
  by (simp add: word_le_nat_alt)

lemma check_spend_statement_cases:
  "check_spend_statement B w pi = Inr u \<longleftrightarrow>
     length (sw_inputs w) = 2 \<and> length (sw_outputs w) = 2 \<and> length (pi_nullifiers pi) = 2
     \<and> length (pi_commitments pi) = 2 \<and> pi_binding_digest pi = sw_binding_digest w \<and> sw_mint_value w < MAX_MONEY
     \<and> (\<exists>vi vo. check_inputs B w pi 0 (sw_inputs w) 0 = Inr vi
          \<and> check_outputs B w pi (pi_nullifiers pi ! 0) 0 (sw_outputs w) 0 = Inr vo
          \<and> vi + ucast (sw_mint_value w) = vo)"
  by (auto simp: check_spend_statement_def mint_range not_le TX_INPUTS_def TX_OUTPUTS_def split: sum.splits if_splits)

lemma check_spend_statement_Inr_iff:
  "check_spend_statement B w pi = Inr u \<longleftrightarrow> spend_statement B w pi"
proof (cases "length (sw_inputs w) = 2 \<and> length (sw_outputs w) = 2
    \<and> length (pi_nullifiers pi) = 2 \<and> length (pi_commitments pi) = 2")
  case False
  then show ?thesis
    by (auto simp: check_spend_statement_cases spend_statement_def interface_consts)
next
  case True
  then obtain i j c d n m x y where w: "sw_inputs w = [i, j]" "sw_outputs w = [c, d]"
      "pi_nullifiers pi = [n, m]" "pi_commitments pi = [x, y]"
    using two_elements by metis
  let ?root = "anc_root (pi_anchor pi)" and ?tag = "sw_spender_addr_tag w" and ?nk = "sw_spender_nk w"
  have ins: "check_inputs B w pi 0 (sw_inputs w) 0 = Inr v \<longleftrightarrow>
      input_ok B ?tag ?root i \<and> input_ok B ?tag ?root j
      \<and> nullifier B (iw_note i) ?nk = n \<and> nullifier B (iw_note j) ?nk = m
      \<and> v = 0 + ucast (note_value (iw_note i)) + ucast (note_value (iw_note j))" for v
    by (auto simp: input_ok_def w not_le)
  have outs: "check_outputs B w pi (pi_nullifiers pi ! 0) 0 (sw_outputs w) 0 = Inr v \<longleftrightarrow>
      note_value c < MAX_MONEY \<and> note_value d < MAX_MONEY \<and> commitment B c = x \<and> commitment B d = y
      \<and> (sw_mint_value w = 0 \<longrightarrow> note_rho c = rho_transfer B n 0 \<and> note_rho d = rho_transfer B n 1)
      \<and> v = 0 + ucast (note_value c) + ucast (note_value d)" for v
    by (auto simp: w not_le)
  have "check_spend_statement B w pi = Inr u \<longleftrightarrow>
      pi_binding_digest pi = sw_binding_digest w \<and> sw_mint_value w < MAX_MONEY
      \<and> (input_ok B ?tag ?root i \<and> input_ok B ?tag ?root j)
      \<and> (nullifier B (iw_note i) ?nk = n \<and> nullifier B (iw_note j) ?nk = m)
      \<and> (note_value c < MAX_MONEY \<and> note_value d < MAX_MONEY) \<and> (commitment B c = x \<and> commitment B d = y)
      \<and> (sw_mint_value w = 0 \<longrightarrow> note_rho c = rho_transfer B n 0 \<and> note_rho d = rho_transfer B n 1)
      \<and> (0 + ucast (note_value (iw_note i)) + ucast (note_value (iw_note j)) + ucast (sw_mint_value w) :: u128)
        = 0 + ucast (note_value c) + ucast (note_value d)"
    unfolding check_spend_statement_cases ins outs using True by auto
  then show ?thesis
    unfolding balance_u128 spend_statement_def TX_INPUTS_def TX_OUTPUTS_def w
    by (simp add: upt_rec numeral_2_eq_2) blast
qed

section \<open>The development proof system\<close>

lemma prove_Inr_iff:
  "prove B w a = Inr (pi, pf) \<longleftrightarrow>
     pi = public_inputs B (canonicalize B w) a \<and> spend_statement B (canonicalize B w) pi
     \<and> pf = vec_resize PROOF_BUCKET 0 (dev_tag B pi)"
  using check_spend_statement_Inr_iff [of B "canonicalize B w" "public_inputs B (canonicalize B w) a"]
  by (auto simp: prove_def Let_def split: sum.splits)

lemma length_dev_tag: "digest32 B \<Longrightarrow> length (dev_tag B pi) = 32"
  by (simp add: dev_tag_def)

lemma dev_proof_eq: "digest32 B \<Longrightarrow> vec_resize PROOF_BUCKET 0 (dev_tag B pi) = dev_tag B pi @ replicate 160 0"
  by (simp add: vec_resize_def length_dev_tag PROOF_BUCKET_def)

lemma dev_verify_Inr_iff:
  assumes "digest32 B"
  shows "dev_verify B pi pf = Inr () \<longleftrightarrow> pf = dev_tag B pi @ replicate 160 0"
proof
  assume ok: "dev_verify B pi pf = Inr ()"
  then have "drop 32 pf = replicate 160 0"
    by (intro replicate_eqI) (auto simp: dev_verify_def PROOF_BUCKET_def split: if_splits)
  moreover have "take 32 pf = dev_tag B pi" using ok by (auto simp: dev_verify_def split: if_splits)
  ultimately show "pf = dev_tag B pi @ replicate 160 0" by (metis append_take_drop_id)
qed (simp add: dev_verify_def length_dev_tag [OF assms] PROOF_BUCKET_def)

lemma pi_anchor_public_inputs: "pi_anchor (public_inputs B w a) = a"
  by (simp add: public_inputs_def)

interpretation dev: proof_system "digest32 B" "prove B" "dev_verify B"
    "\<lambda>w pi. spend_statement B (canonicalize B w) pi" for B
  by unfold_locales
    (auto simp: prove_Inr_iff dev_verify_Inr_iff dev_proof_eq [unfolded PROOF_BUCKET_def] length_dev_tag pi_anchor_public_inputs PROOF_BUCKET_def)

text \<open>Sorting permutes the inputs, so the per-input part of the statement does not see it.\<close>

lemma canonicalize_simps [simp]:
  "mset (sw_inputs (canonicalize B w)) = mset (sw_inputs w)"
  "set (sw_inputs (canonicalize B w)) = set (sw_inputs w)"
  "length (sw_inputs (canonicalize B w)) = length (sw_inputs w)"
  "sw_outputs (canonicalize B w) = sw_outputs w" "sw_spender_nk (canonicalize B w) = sw_spender_nk w"
  "sw_spender_addr_tag (canonicalize B w) = sw_spender_addr_tag w"
  "sw_mint_value (canonicalize B w) = sw_mint_value w"
  "sw_binding_digest (canonicalize B w) = sw_binding_digest w"
  by (simp_all add: canonicalize_def)

lemma canonicalize_idem [simp]: "canonicalize B (canonicalize B w) = canonicalize B w"
  by (simp add: canonicalize_def sorted_sort_id [symmetric] sort_key_id_if_sorted)

lemma sum_inputs_canonicalize:
  "sum_list (map f (sw_inputs (canonicalize B w))) = sum_list (map f (sw_inputs w))" for f :: "InputWitness \<Rightarrow> nat"
  by (metis canonicalize_simps(1) mset_map sum_mset_sum_list)

lemma prover_nullifiers_sorted:
  assumes "prove B w a = Inr (pi, pf)"
  shows "sorted (map nf_bytes (pi_nullifiers pi))"
    and "mset (pi_nullifiers pi) = mset (map (\<lambda>i. nullifier B (iw_note i) (sw_spender_nk w)) (sw_inputs w))"
proof -
  have pi: "pi_nullifiers pi = map (\<lambda>i. nullifier B (iw_note i) (sw_spender_nk w)) (sw_inputs (canonicalize B w))"
    using assms by (simp add: prove_Inr_iff public_inputs_def)
  show "sorted (map nf_bytes (pi_nullifiers pi))"
    unfolding pi by (simp add: canonicalize_def comp_def)
  show "mset (pi_nullifiers pi) = mset (map (\<lambda>i. nullifier B (iw_note i) (sw_spender_nk w)) (sw_inputs w))"
    unfolding pi by simp
qed

lemma prove_ok_iff:
  "(\<exists>pi pf. prove B w a = Inr (pi, pf)) \<longleftrightarrow>
     length (sw_inputs w) = TX_INPUTS \<and> length (sw_outputs w) = TX_OUTPUTS
     \<and> (\<forall>i \<in> set (sw_inputs w). input_ok B (sw_spender_addr_tag w) (anc_root a) i)
     \<and> (\<forall>out \<in> set (sw_outputs w). note_value out < MAX_MONEY)
     \<and> (sw_mint_value w = 0 \<longrightarrow> map note_rho (sw_outputs w)
          = map (\<lambda>k. rho_transfer B (nullifier B (iw_note (hd (sw_inputs (canonicalize B w)))) (sw_spender_nk w))
              (word_of_nat k)) [0 ..< TX_OUTPUTS])
     \<and> sw_mint_value w < MAX_MONEY
     \<and> sum_list (map (\<lambda>i. unat (note_value (iw_note i))) (sw_inputs w)) + unat (sw_mint_value w)
       = sum_list (map (\<lambda>out. unat (note_value out)) (sw_outputs w))"
proof -
  have "hd (map f (sw_inputs (canonicalize B w))) = f (hd (sw_inputs (canonicalize B w)))"
    if "length (sw_inputs w) = TX_INPUTS" for f :: "InputWitness \<Rightarrow> Nullifier"
    using that by (intro hd_map) (metis canonicalize_simps(3) length_0_conv TX_INPUTS_def zero_neq_numeral)
  then show ?thesis
    by (simp add: prove_Inr_iff spend_statement_def public_inputs_def sum_inputs_canonicalize cong: conj_cong)
qed

text \<open>The same notes spent under another nullifier key, with the outputs' nonces re-derived.\<close>

definition rekey :: "blake3 \<Rightarrow> bytes \<Rightarrow> SpendWitness \<Rightarrow> SpendWitness" where
  "rekey B k w =
     (let w1 = canonicalize B (w\<lparr>sw_spender_nk := k\<rparr>);
          nf = nullifier B (iw_note (hd (sw_inputs w1))) k
      in w1\<lparr>sw_outputs := map (\<lambda>(j, out). out\<lparr>note_rho := rho_transfer B nf (word_of_nat j)\<rparr>)
              (enumerate 0 (sw_outputs w))\<rparr>)"

lemma canonicalize_outputs [simp]:
  "canonicalize B (w\<lparr>sw_outputs := x\<rparr>) = (canonicalize B w)\<lparr>sw_outputs := x\<rparr>"
  by (simp add: canonicalize_def)

lemma canonicalize_key [simp]:
  "set (sw_inputs (canonicalize B (w\<lparr>sw_spender_nk := k\<rparr>))) = set (sw_inputs w)"
  "mset (sw_inputs (canonicalize B (w\<lparr>sw_spender_nk := k\<rparr>))) = mset (sw_inputs w)"
  by simp_all

lemma rekey_simps [simp]:
  "sw_inputs (rekey B k w) = sw_inputs (canonicalize B (w\<lparr>sw_spender_nk := k\<rparr>))"
  "sw_spender_nk (rekey B k w) = k" "sw_spender_addr_tag (rekey B k w) = sw_spender_addr_tag w"
  "sw_mint_value (rekey B k w) = sw_mint_value w"
  "sw_inputs (canonicalize B (rekey B k w)) = sw_inputs (canonicalize B (w\<lparr>sw_spender_nk := k\<rparr>))"
  by (simp_all add: rekey_def Let_def)

lemma map_enumerate_update:
  "map (\<lambda>out. note_value (case out of (j, n) \<Rightarrow> n\<lparr>note_rho := g j\<rparr>)) (enumerate k outs) = map note_value outs"
  for outs :: "Note list"
  by (induction outs arbitrary: k) auto

lemma rekey_outputs:
  "map note_rho (sw_outputs (rekey B k w))
     = map (\<lambda>j. rho_transfer B (nullifier B (iw_note (hd (sw_inputs (rekey B k w)))) k) (word_of_nat j))
         [0 ..< length (sw_outputs w)]"
  "map note_value (sw_outputs (rekey B k w)) = map note_value (sw_outputs w)"
  "length (sw_outputs (rekey B k w)) = length (sw_outputs w)"
proof -
  show "length (sw_outputs (rekey B k w)) = length (sw_outputs w)" by (simp add: rekey_def Let_def)
  show "map note_value (sw_outputs (rekey B k w)) = map note_value (sw_outputs w)"
    by (simp add: rekey_def Let_def comp_def map_enumerate_update)
  show "map note_rho (sw_outputs (rekey B k w))
     = map (\<lambda>j. rho_transfer B (nullifier B (iw_note (hd (sw_inputs (rekey B k w)))) k) (word_of_nat j))
         [0 ..< length (sw_outputs w)]"
    by (rule nth_equalityI) (auto simp: rekey_def Let_def nth_enumerate_eq split: prod.split)
qed

section \<open>Properties\<close>

text \<open>C13. The checked spend statement is the declarative one: \<^verbatim>\<open>check_spend_statement\<close> returns
  \<^verbatim>\<open>Ok\<close> exactly when the shapes are right, the public nullifiers and commitments are those of the
  witness, every real input is in the tree under the anchor root and carries the spender's tag,
  dummies are worthless, all values are below \<open>2 ^ 62\<close>, transfer outputs derive their nonce
  from the first nullifier, and value is conserved over the natural numbers (the \<^verbatim>\<open>u128\<close> sums
  do not wrap).\<close>

theorem check_spend_statement_decides:
  "check_spend_statement B w pi = Inr () \<longleftrightarrow> spend_statement B w pi"
  by (rule check_spend_statement_Inr_iff)

text \<open>C14. The prover is complete and honest, whatever the order of the witness's inputs: it produces a
  proof exactly when the canonicalised witness satisfies the statement, the verifier accepts it, it
  fills the bucket, and the nullifiers come out in ascending order.\<close>

theorem prove_complete:
  assumes "digest32 B"
  shows "case prove B w a of
      Inr (pi, pf) \<Rightarrow> spend_statement B (canonicalize B w) pi \<and> pi_anchor pi = a
        \<and> dev_verify B pi pf = Inr () \<and> length pf = PROOF_BUCKET \<and> sorted (map nf_bytes (pi_nullifiers pi))
    | Inl _ \<Rightarrow> \<not> spend_statement B (canonicalize B w) (public_inputs B (canonicalize B w) a)"
proof (cases "prove B w a")
  case (Inl e)
  then show ?thesis using prove_Inr_iff [of B w a] by auto
next
  case (Inr r)
  obtain pi pf where r: "r = (pi, pf)" by fastforce
  have ok: "prove B w a = Inr (pi, pf)" using Inr r by simp
  show ?thesis
    using dev.complete [OF assms ok] dev.honest [OF ok] dev.bucket [OF assms ok] prover_nullifiers_sorted(1) [OF ok]
    by (simp add: ok)
qed

lemma prove_complete_witness:
  "case prove zero_hash
      \<lparr>sw_spender_nk = [], sw_spender_addr_tag = [], sw_inputs = [], sw_outputs = [], sw_mint_value = 0,
       sw_binding_digest = []\<rparr> \<lparr>anc_height = 0, anc_root = []\<rparr> of
      Inr (pi, pf) \<Rightarrow> False | Inl _ \<Rightarrow> True"
  using prove_complete [of zero_hash
      "\<lparr>sw_spender_nk = [], sw_spender_addr_tag = [], sw_inputs = [], sw_outputs = [], sw_mint_value = 0,
       sw_binding_digest = []\<rparr>" "\<lparr>anc_height = 0, anc_root = []\<rparr>"]
  by (auto simp: spend_statement_def interface_consts split: sum.splits)

text \<open>The dev verifier accepts exactly one proof per public input, and a proof cannot be moved:
  if one proof is accepted for two well-formed public inputs, they are equal or their encodings are
  a BLAKE3 collision.\<close>

theorem dev_proof_not_transferable:
  assumes "digest32 B" and "wf_pi pi" and "wf_pi pi'"
    and "dev_verify B pi pf = Inr ()" and "dev_verify B pi' pf = Inr ()"
  shows "pi = pi' \<or> collision_at B DEV_PROOF (absorb_parts [pi_encode pi]) (absorb_parts [pi_encode pi'])"
proof -
  have len: "length (pi_encode p) < 2 ^ 64" if "wf_pi p" for p
  proof -
    have "length (concat (map nf_bytes (pi_nullifiers p))) = 32 * length (map nf_bytes (pi_nullifiers p))"
      "length (concat (map cm_bytes (pi_commitments p))) = 32 * length (map cm_bytes (pi_commitments p))"
      using that by (intro length_concat_const; auto simp: wf_defs list_all_iff)+
    then show ?thesis using that by (simp add: pi_encode_def wf_defs del: length_concat)
  qed
  have "dev_tag B pi = dev_tag B pi'" using assms by (simp add: dev_verify_Inr_iff)
  then have "[pi_encode pi] = [pi_encode pi']
      \<or> collision_at B DEV_PROOF (absorb_parts [pi_encode pi]) (absorb_parts [pi_encode pi'])"
    using assms(2,3) len unfolding dev_tag_def by (intro hash_parts_binding) auto
  then show ?thesis using pi_encode_inject [OF assms(2,3)] by auto
qed

definition sample_pi :: SpendPublicInputs where
  "sample_pi = \<lparr>pi_anchor = \<lparr>anc_height = 0, anc_root = replicate 32 0\<rparr>, pi_nullifiers = [],
     pi_commitments = [], pi_binding_digest = replicate 32 0, pi_mint_value = 0\<rparr>"

lemma dev_proof_not_transferable_witness:
  "dev_verify zero_hash sample_pi (replicate 192 0) = Inr ()
   \<and> dev_verify zero_hash (sample_pi\<lparr>pi_mint_value := 1\<rparr>) (replicate 192 0) = Inr ()
   \<and> (sample_pi = sample_pi\<lparr>pi_mint_value := 1\<rparr>
     \<or> collision_at zero_hash DEV_PROOF (absorb_parts [pi_encode sample_pi])
         (absorb_parts [pi_encode (sample_pi\<lparr>pi_mint_value := 1\<rparr>)]))"
  using dev_proof_not_transferable [of zero_hash sample_pi "sample_pi\<lparr>pi_mint_value := 1\<rparr>" "replicate 192 0"]
  by (simp add: dev_verify_def dev_tag_def hash_parts_def zero_hash_def sample_pi_def wf_defs PROOF_BUCKET_def)

text \<open>C17. The statement does not bind the nullifier key to the owner of the notes: from any transfer
  that can be proved, and for every key at all, the same input notes can be proved spent
  again under that key, to the same amounts, and the nullifiers published the second time are those
  of the other key.  The design requires the key to be derived from the spending key that owns
  the notes (constraints C2 and C3 of the engineering plan); the checked statement leaves it
  free.\<close>

theorem nullifier_key_unconstrained:
  assumes "prove B w a = Inr (pi, pf)" and "sw_mint_value w = 0"
  shows "\<exists>pi' pf'. prove B (rekey B k w) a = Inr (pi', pf')
    \<and> mset (sw_inputs (rekey B k w)) = mset (sw_inputs w)
    \<and> map note_value (sw_outputs (rekey B k w)) = map note_value (sw_outputs w)
    \<and> mset (pi_nullifiers pi') = mset (map (\<lambda>i. nullifier B (iw_note i) k) (sw_inputs w))"
proof -
  let ?w = "rekey B k w"
  note w = assms(1)[THEN exI [of "\<lambda>p. prove B w a = Inr (pi, p)"], THEN exI [of "\<lambda>q. \<exists>p. prove B w a = Inr (q, p)"],
      unfolded prove_ok_iff]
  have sums: "sum_list (map (\<lambda>i. unat (note_value (iw_note i))) (sw_inputs ?w))
      = sum_list (map (\<lambda>i. unat (note_value (iw_note i))) (sw_inputs w))"
    by (simp add: sum_inputs_canonicalize)
  have "map (\<lambda>out. unat (note_value out)) (sw_outputs ?w) = map (\<lambda>out. unat (note_value out)) (sw_outputs w)"
    using arg_cong [OF rekey_outputs(2), of "map unat"] by (simp add: comp_def)
  moreover have "\<forall>out \<in> set (sw_outputs ?w). note_value out < MAX_MONEY"
    using w rekey_outputs(2) [of B k w] by (metis (no_types, lifting) image_iff list.set_map)
  ultimately have "\<exists>pi' pf'. prove B ?w a = Inr (pi', pf')"
    unfolding prove_ok_iff using w sums assms(2) rekey_outputs(1,3) [of B k w] by simp
  then obtain pi' pf' where ok: "prove B ?w a = Inr (pi', pf')" by blast
  have "mset (sw_inputs ?w) = mset (sw_inputs w)" by simp
  with ok show ?thesis using prover_nullifiers_sorted(2) [OF ok] rekey_outputs(2) [of B k w] by auto
qed

definition sample_spend :: SpendWitness where
  "sample_spend =
     \<lparr>sw_spender_nk = replicate 32 1, sw_spender_addr_tag = replicate 32 9,
      sw_inputs =
        [\<lparr>iw_note = \<lparr>note_value = 100, note_addr_tag = replicate 32 9, note_rho = replicate 32 2, note_rseed = replicate 32 3\<rparr>,
          iw_path = \<lparr>mp_position = 0, mp_siblings = replicate 32 (replicate 32 0)\<rparr>, iw_is_dummy = False\<rparr>,
         \<lparr>iw_note = dummy zero_hash (replicate 32 5), iw_path = \<lparr>mp_position = 0, mp_siblings = []\<rparr>, iw_is_dummy = True\<rparr>],
      sw_outputs =
        [\<lparr>note_value = 70, note_addr_tag = replicate 32 8, note_rho = replicate 32 0, note_rseed = replicate 32 1\<rparr>,
         \<lparr>note_value = 30, note_addr_tag = replicate 32 9, note_rho = replicate 32 0, note_rseed = replicate 32 2\<rparr>],
      sw_mint_value = 0, sw_binding_digest = replicate 32 3\<rparr>"

lemma hash_parts_zero_hash [simp]: "hash_parts zero_hash c ps = replicate 32 0"
  by (simp add: hash_parts_def zero_hash_def)

lemma path_root_zero_hash: "path_root zero_hash (replicate 32 0) p ss = replicate 32 0"
  by (induction ss arbitrary: p) (simp_all add: node_hash_def)

lemma sample_spend_proves:
  "\<exists>pi pf. prove zero_hash sample_spend \<lparr>anc_height = 0, anc_root = replicate 32 0\<rparr> = Inr (pi, pf)"
  unfolding prove_ok_iff
  by (simp add: sample_spend_def input_ok_def verify_path_def path_root_zero_hash interface_consts rho_transfer_def
      upt_rec nullifier_def commitment_def)

lemma nullifier_key_unconstrained_witness:
  "\<exists>pi' pf'. prove zero_hash (rekey zero_hash (replicate 32 77) sample_spend) \<lparr>anc_height = 0, anc_root = replicate 32 0\<rparr>
      = Inr (pi', pf')"
proof -
  obtain pi pf where "prove zero_hash sample_spend \<lparr>anc_height = 0, anc_root = replicate 32 0\<rparr> = Inr (pi, pf)"
    using sample_spend_proves by blast
  from nullifier_key_unconstrained [OF this, of "replicate 32 77"] show ?thesis by (auto simp: sample_spend_def)
qed

end
