(* ===== verification/Emission.thy ===== *)
theory Emission
  imports Prelude
begin

text \<open>
  \<^verbatim>\<open>crates/emission\<close>: the issuance schedule in \<^verbatim>\<open>u128\<close> fixed point and the split of a
  checkpoint's emission among validators.  The \<^verbatim>\<open>u64\<close> subtraction \<^verbatim>\<open>e0 - e_tail\<close>
  and the divisions by \<^verbatim>\<open>half_life\<close> can panic, so the schedule returns an option.  The
  \<^verbatim>\<open>u128\<close> products are word products; the lemmas show that they never wrap.
\<close>

section \<open>The issuance schedule\<close>

definition SCALE :: u128 where "SCALE = 4294967296"

record EmissionParams =
  em_e0 :: u64
  em_e_tail :: u64
  em_half_life :: u64

definition em_new :: "u64 \<Rightarrow> u64 \<Rightarrow> u64 \<Rightarrow> EmissionParams option" where
  "em_new e0 e_tail half_life =
     (if half_life > 0 then Some \<lparr>em_e0 = e0, em_e_tail = e_tail, em_half_life = half_life\<rparr> else None)"

definition decay_factor :: "EmissionParams \<Rightarrow> u64 \<Rightarrow> u128 option" where
  "decay_factor p height =
     (if em_half_life p = 0 then None
      else let q = height div em_half_life p;
               r = height mod em_half_life p
           in if q \<ge> 64 then Some 0
              else let halvings = drop_bit (unat q) SCALE;
                       dropped = (halvings * ucast r) div (2 * ucast (em_half_life p))
                   in sub_or_panic halvings dropped)"

definition emission_at :: "EmissionParams \<Rightarrow> u64 \<Rightarrow> u64 option" where
  "emission_at p height =
     do { span \<leftarrow> sub_or_panic (em_e0 p) (em_e_tail p);
          d \<leftarrow> decay_factor p height;
          let decayed = ((ucast span :: u128) * d) div SCALE;
          add_or_panic (em_e_tail p) (ucast decayed) }"

section \<open>Distribution among validators\<close>

record RewardShare =
  rs_validator_index :: u32
  rs_amount :: u64

text \<open>The first loop: the rounded-down share of each weight, and their sum.\<close>

fun floor_shares :: "u64 \<Rightarrow> u128 \<Rightarrow> nat \<Rightarrow> u64 list \<Rightarrow> u64 \<Rightarrow> (RewardShare list \<times> u64) option" where
  "floor_shares tot weight_sum i [] distributed = Some ([], distributed)"
| "floor_shares tot weight_sum i (w # ws) distributed =
     do { let amount = ucast (((ucast tot :: u128) * ucast w) div weight_sum);
          distributed' \<leftarrow> add_or_panic distributed amount;
          (shares, d) \<leftarrow> floor_shares tot weight_sum (Suc i) ws distributed';
          Some (\<lparr>rs_validator_index = word_of_nat i, rs_amount = amount\<rparr> # shares, d) }"

text \<open>The second loop: the remainder, one unit at a time from the lowest index.\<close>

function hand_out :: "u64 \<Rightarrow> nat \<Rightarrow> RewardShare list \<Rightarrow> RewardShare list option" where
  "hand_out remainder i shares =
     (if remainder > 0
      then do { s \<leftarrow> index_or_panic shares i;
                a \<leftarrow> add_or_panic (rs_amount s) 1;
                hand_out (remainder - 1) ((i + 1) mod length shares)
                  (shares[i := s\<lparr>rs_amount := a\<rparr>]) }
      else Some shares)"
  by pat_completeness auto
termination
proof (relation "measure (\<lambda>(remainder, i, shares). unat remainder)")
  show "((remainder - 1, (i + 1) mod length shares, shares[i := s\<lparr>rs_amount := a\<rparr>]), remainder, i, shares)
      \<in> measure (\<lambda>(remainder, i, shares). unat remainder)" if "remainder > 0" for remainder :: u64 and i shares s a
    using that by (simp add: measure_unat word_gt_0)
qed simp

definition weight_sum_of :: "u64 list \<Rightarrow> u128 option" where
  "weight_sum_of weights = sum_or_panic (map ucast weights)"

definition distribute :: "u64 \<Rightarrow> u64 list \<Rightarrow> RewardShare list option" where
  "distribute tot weights =
     do { weight_sum \<leftarrow> weight_sum_of weights;
          if weight_sum = 0 \<or> weights = [] then Some []
          else do { (shares, distributed) \<leftarrow> floor_shares tot weight_sum 0 weights 0;
                    remainder \<leftarrow> sub_or_panic tot distributed;
                    hand_out remainder 0 shares } }"

record RewardDescriptor =
  rd_height :: u64
  rd_total :: u64
  rd_shares :: "RewardShare list"

definition reward_descriptor :: "EmissionParams \<Rightarrow> u64 \<Rightarrow> u64 list \<Rightarrow> RewardDescriptor option" where
  "reward_descriptor params height validator_weights =
     do { tot \<leftarrow> emission_at params height;
          shares \<leftarrow> distribute tot validator_weights;
          Some \<lparr>rd_height = height, rd_total = tot, rd_shares = shares\<rparr> }"

section \<open>The schedule over the natural numbers\<close>

definition decay_nat :: "nat \<Rightarrow> nat \<Rightarrow> nat" where
  "decay_nat hl h =
     (if 64 \<le> h div hl then 0
      else 2 ^ 32 div 2 ^ (h div hl) - (2 ^ 32 div 2 ^ (h div hl)) * (h mod hl) div (2 * hl))"

definition emission_nat :: "nat \<Rightarrow> nat \<Rightarrow> nat \<Rightarrow> nat \<Rightarrow> nat" where
  "emission_nat e0 e_tail hl h = e_tail + (e0 - e_tail) * decay_nat hl h div 2 ^ 32"

lemma decay_nat_le: "decay_nat hl h \<le> 2 ^ 32"
  unfolding decay_nat_def by (auto intro: order_trans [OF diff_le_self div_le_dividend])

lemma decay_nat_0: "0 < hl \<Longrightarrow> decay_nat hl 0 = 2 ^ 32"
  by (simp add: decay_nat_def)

lemma half_drop_le: "(m::nat) * r div (2 * hl) \<le> m div 2" if "r < hl" for m r hl
proof -
  have "m * r div (2 * hl) \<le> m * hl div (2 * hl)" using that by (intro div_le_mono mult_le_mono) auto
  also have "\<dots> = m div 2" using that by (simp add: div_mult_mult1_if mult.commute [of m])
  finally show ?thesis .
qed

lemma decay_nat_Suc_le:
  assumes "0 < hl"
  shows "decay_nat hl (Suc h) \<le> decay_nat hl h"
proof (cases "64 \<le> Suc h div hl")
  case True
  then show ?thesis by (simp add: decay_nat_def)
next
  case False
  define q r where "q = h div hl" and "r = h mod hl"
  define m :: nat where "m = 2 ^ 32 div 2 ^ q"
  have r: "r < hl" using assms by (simp add: r_def)
  have q64: "\<not> 64 \<le> q" using False div_le_mono [of h "Suc h" hl] unfolding q_def by linarith
  show ?thesis
  proof (cases "Suc r = hl")
    case True
    then have "Suc h div hl = Suc q" "Suc h mod hl = 0"
      by (simp_all add: q_def r_def div_Suc mod_Suc)
    then have "decay_nat hl (Suc h) \<le> m div 2"
      by (simp add: decay_nat_def m_def div_mult2_eq [symmetric] mult.commute)
    also have "\<dots> \<le> m - m * r div (2 * hl)" using half_drop_le [OF r, of m] by linarith
    also have "\<dots> = decay_nat hl h" using q64 by (simp add: decay_nat_def m_def q_def r_def)
    finally show ?thesis .
  next
    case False
    then have "Suc h div hl = q" "Suc h mod hl = Suc r"
      by (simp_all add: q_def r_def div_Suc mod_Suc)
    then have "decay_nat hl (Suc h) = m - m * Suc r div (2 * hl)"
      using q64 by (simp add: decay_nat_def m_def)
    also have "\<dots> \<le> m - m * r div (2 * hl)" by (intro diff_le_mono2 div_le_mono) simp
    also have "\<dots> = decay_nat hl h" using q64 by (simp add: decay_nat_def m_def q_def r_def)
    finally show ?thesis .
  qed
qed

lemma decay_nat_antimono: "0 < hl \<Longrightarrow> h \<le> h' \<Longrightarrow> decay_nat hl h' \<le> decay_nat hl h"
  by (rule lift_Suc_antimono_le [of "decay_nat hl"]) (simp_all add: decay_nat_Suc_le)

lemma emission_nat_bounds:
  assumes "e_tail \<le> e0"
  shows "e_tail \<le> emission_nat e0 e_tail hl h" and "emission_nat e0 e_tail hl h \<le> e0"
proof -
  have "(e0 - e_tail) * decay_nat hl h div 2 ^ 32 \<le> (e0 - e_tail) * 2 ^ 32 div 2 ^ 32"
    by (intro div_le_mono mult_le_mono2 decay_nat_le)
  then show "e_tail \<le> emission_nat e0 e_tail hl h" and "emission_nat e0 e_tail hl h \<le> e0"
    using assms by (simp_all add: emission_nat_def)
qed

lemma emission_nat_antimono:
  "0 < hl \<Longrightarrow> h \<le> h' \<Longrightarrow> emission_nat e0 e_tail hl h' \<le> emission_nat e0 e_tail hl h"
  by (simp add: emission_nat_def div_le_mono mult_le_mono2 decay_nat_antimono)

section \<open>The words compute the schedule\<close>

lemma unat_ucast_u128 [simp]: "unat (ucast (a :: u64) :: u128) = unat a"
  using unat_u64_less [of a] by (simp add: unsigned_ucast_eq take_bit_nat_eq_self)

lemma unat_mult_u128:
  "unat a * unat b < 2 ^ 128 \<Longrightarrow> unat (a * b :: u128) = unat a * unat b"
  using unat_mult_lem [of a b] by simp

lemma unat_halvings: "unat (drop_bit n SCALE) = 2 ^ 32 div 2 ^ n"
  unfolding unsigned_drop_bit_eq SCALE_def by (simp add: drop_bit_eq_div)

lemma decay_factor_eq:
  assumes "em_half_life p \<noteq> 0"
  shows "\<exists>d. decay_factor p h = Some d \<and> unat d = decay_nat (unat (em_half_life p)) (unat h)"
proof -
  let ?q = "h div em_half_life p" and ?r = "h mod em_half_life p"
  have q: "unat ?q = unat h div unat (em_half_life p)" and r: "unat ?r = unat h mod unat (em_half_life p)"
    by (simp_all add: unat_div_distrib unat_mod_distrib)
  have hl: "0 < unat (em_half_life p)" using assms by (simp add: unat_gt_0)
  show ?thesis
  proof (cases "64 \<le> ?q")
    case True
    then have "64 \<le> unat ?q" by (simp add: word_le_nat_alt)
    with True assms show ?thesis by (simp add: decay_factor_def decay_nat_def q [symmetric])
  next
    case False
    then have q64: "\<not> 64 \<le> unat ?q" by (simp add: word_le_nat_alt)
    define hv where "hv = drop_bit (unat ?q) SCALE"
    have hv: "unat hv = 2 ^ 32 div 2 ^ unat ?q" "unat hv \<le> 2 ^ 32"
      by (simp_all add: hv_def unat_halvings)
    have "unat hv * unat ?r \<le> 2 ^ 32 * unat ?r" by (rule mult_le_mono1 [OF hv(2)])
    also have "\<dots> < 2 ^ 32 * 18446744073709551616" using unat_u64_less [of ?r] by simp
    finally have "unat hv * unat ?r < 2 ^ 32 * 18446744073709551616" .
    then have prod: "unat (hv * ucast ?r) = unat hv * unat ?r" by (simp add: unat_mult_u128)
    have "unat (2 * ucast (em_half_life p) :: u128) = 2 * unat (em_half_life p)"
      using unat_mult_u128 [of 2 "ucast (em_half_life p)"] unat_u64_less [of "em_half_life p"] by simp
    with prod have dropped: "unat ((hv * ucast ?r) div (2 * ucast (em_half_life p)))
        = unat hv * unat ?r div (2 * unat (em_half_life p))"
      by (simp add: unat_div_distrib)
    have "unat hv * unat ?r div (2 * unat (em_half_life p)) \<le> unat hv"
      using half_drop_le [of "unat ?r" "unat (em_half_life p)" "unat hv"] hl by (simp add: r)
    then have le: "(hv * ucast ?r) div (2 * ucast (em_half_life p)) \<le> hv"
      by (simp only: word_le_nat_alt dropped)
    then have "decay_factor p h = Some (hv - (hv * ucast ?r) div (2 * ucast (em_half_life p)))"
      using assms False by (simp add: decay_factor_def Let_def sub_or_panic_def hv_def)
    moreover have "unat (hv - (hv * ucast ?r) div (2 * ucast (em_half_life p)))
        = decay_nat (unat (em_half_life p)) (unat h)"
      using q64 le by (simp add: unat_sub dropped decay_nat_def q r hv(1) flip: q)
    ultimately show ?thesis by blast
  qed
qed

lemma emission_at_eq:
  assumes "em_half_life p \<noteq> 0" and "em_e_tail p \<le> em_e0 p"
  shows "\<exists>e. emission_at p h = Some e
    \<and> unat e = emission_nat (unat (em_e0 p)) (unat (em_e_tail p)) (unat (em_half_life p)) (unat h)"
proof -
  obtain d where d: "decay_factor p h = Some d" "unat d = decay_nat (unat (em_half_life p)) (unat h)"
    using decay_factor_eq [OF assms(1)] by blast
  let ?span = "em_e0 p - em_e_tail p" and ?N = "emission_nat (unat (em_e0 p)) (unat (em_e_tail p)) (unat (em_half_life p)) (unat h)"
  have span: "unat ?span = unat (em_e0 p) - unat (em_e_tail p)" using assms(2) by (simp add: unat_sub)
  have "unat ?span * unat d < 18446744073709551616 * 2 ^ 33"
    using decay_nat_le [of "unat (em_half_life p)" "unat h"] unat_u64_less [of ?span] d(2)
    by (intro mult_strict_mono) auto
  then have "unat ((ucast ?span :: u128) * d) = unat ?span * unat d" by (simp add: unat_mult_u128)
  then have dec: "unat ((ucast ?span * d) div SCALE) = unat ?span * unat d div 2 ^ 32"
    by (simp add: unat_div_distrib SCALE_def)
  have N: "?N = unat (em_e_tail p) + unat ?span * unat d div 2 ^ 32" by (simp add: emission_nat_def span d(2))
  have N_le: "?N \<le> unat (em_e0 p)"
    using emission_nat_bounds(2) assms(2) by (simp add: word_le_nat_alt)
  then have N_less: "?N < 18446744073709551616" using unat_u64_less [of "em_e0 p"] by simp
  have cast: "unat (ucast ((ucast ?span * d) div SCALE) :: u64) = unat ?span * unat d div 2 ^ 32"
    using N N_less dec by (simp add: unsigned_ucast_eq take_bit_nat_eq_self)
  have "emission_at p h = add_or_panic (em_e_tail p) (ucast ((ucast ?span * d) div SCALE))"
    using assms(2) d(1) by (simp add: emission_at_def sub_or_panic_def)
  moreover obtain e where e: "add_or_panic (em_e_tail p) (ucast ((ucast ?span * d) div SCALE)) = Some e"
    using N N_less cast by (simp add: add_or_panic_def)
  ultimately show ?thesis using add_or_panic_unat [OF e] cast N by simp
qed

lemma emission_at_None_iff:
  "emission_at p h = None \<longleftrightarrow> em_half_life p = 0 \<or> em_e0 p < em_e_tail p"
proof (cases "em_half_life p = 0 \<or> em_e0 p < em_e_tail p")
  case True
  then show ?thesis
    by (auto simp: emission_at_def sub_or_panic_def decay_factor_def bind_eq_None_conv)
next
  case False
  then show ?thesis using emission_at_eq [of p h] by (auto simp: not_less)
qed

section \<open>The split is exact\<close>

definition floor_amount :: "u64 \<Rightarrow> nat \<Rightarrow> u64 \<Rightarrow> nat" where
  "floor_amount tot W w = unat tot * unat w div W"

definition floor_total :: "u64 \<Rightarrow> u64 list \<Rightarrow> nat" where
  "floor_total tot ws = sum_list (map (floor_amount tot (sum_list (map unat ws))) ws)"

text \<open>What validator \<open>i\<close> gets: its floor, and one unit more while the remainder lasts.\<close>

definition share_amount :: "u64 \<Rightarrow> u64 list \<Rightarrow> nat \<Rightarrow> nat" where
  "share_amount tot ws i = floor_amount tot (sum_list (map unat ws)) (ws ! i)
     + (if i < unat tot - floor_total tot ws then 1 else 0)"

lemma sum_floors_bounds:
  "W * sum_list (map (\<lambda>w. t * w div W) ws) \<le> t * sum_list ws"
  "0 < W \<Longrightarrow> t * sum_list ws \<le> W * sum_list (map (\<lambda>w. t * w div W) ws) + (W - 1) * length ws"
  for t W :: nat
proof (induction ws)
  case (Cons w ws)
  { case 1
    have "W * (t * w div W) \<le> t * w" by simp
    with Cons.IH(1) show ?case by (simp only: list.map sum_list.Cons distrib_left add_mono) }
  { case 2
    have "t * w = W * (t * w div W) + t * w mod W" by simp
    moreover have "t * w mod W \<le> W - 1" using 2 mod_less_divisor [of W "t * w"] by linarith
    ultimately have "t * w \<le> W * (t * w div W) + (W - 1)" by linarith
    with Cons.IH(2) [OF 2] show ?case by (simp add: distrib_left) }
qed simp_all

lemma floor_total_bounds:
  assumes "0 < sum_list (map unat ws)"
  shows "floor_total tot ws \<le> unat tot" and "unat tot - floor_total tot ws < length ws"
proof -
  let ?W = "sum_list (map unat ws)"
  have ft: "floor_total tot ws = sum_list (map (\<lambda>w. unat tot * w div ?W) (map unat ws))"
    by (simp add: floor_total_def floor_amount_def [abs_def] comp_def)
  have "?W * floor_total tot ws \<le> ?W * unat tot"
    unfolding ft using sum_floors_bounds(1) [of ?W "unat tot" "map unat ws"] by (simp add: mult.commute)
  with assms show le: "floor_total tot ws \<le> unat tot" by simp
  have "?W * unat tot \<le> ?W * floor_total tot ws + (?W - 1) * length ws"
    unfolding ft using sum_floors_bounds(2) [OF assms, of "unat tot" "map unat ws"] by (simp add: mult.commute)
  then have "?W * (unat tot - floor_total tot ws) \<le> (?W - 1) * length ws" by (simp add: diff_mult_distrib2)
  also have "\<dots> < ?W * length ws" using assms by (intro mult_strict_right_mono) (cases ws, auto)
  finally show "unat tot - floor_total tot ws < length ws" by simp
qed

lemma floor_cast:
  assumes "unat w \<le> unat W" and "0 < unat W"
  shows "unat (ucast (((ucast tot :: u128) * ucast w) div W) :: u64) = floor_amount tot (unat W) w"
proof -
  have "unat tot * unat w < 18446744073709551616 * 18446744073709551616"
    using unat_u64_less [of tot] unat_u64_less [of w] by (intro mult_strict_mono) auto
  then have prod: "unat ((ucast tot :: u128) * ucast w) = unat tot * unat w" by (simp add: unat_mult_u128)
  have "floor_amount tot (unat W) w \<le> unat tot * unat W div unat W"
    unfolding floor_amount_def using assms(1) by (intro div_le_mono mult_le_mono2)
  then have "floor_amount tot (unat W) w < 18446744073709551616"
    using assms(2) unat_u64_less [of tot] by simp
  then show ?thesis
    using prod by (simp add: unsigned_ucast_eq take_bit_nat_eq_self unat_div_distrib floor_amount_def)
qed

lemma floor_shares_eq:
  assumes "\<forall>w \<in> set ws. unat w \<le> unat W" and "0 < unat W"
    and "unat d + sum_list (map (floor_amount tot (unat W)) ws) < 2 ^ 64"
  shows "\<exists>shares d'. floor_shares tot W i ws d = Some (shares, d')
    \<and> unat d' = unat d + sum_list (map (floor_amount tot (unat W)) ws)
    \<and> map rs_validator_index shares = map word_of_nat [i ..< i + length ws]
    \<and> map (\<lambda>s. unat (rs_amount s)) shares = map (floor_amount tot (unat W)) ws"
  using assms
proof (induction ws arbitrary: i d)
  case (Cons w ws)
  let ?a = "ucast (((ucast tot :: u128) * ucast w) div W) :: u64"
  have a: "unat ?a = floor_amount tot (unat W) w" using Cons.prems by (intro floor_cast) auto
  then obtain d1 where d1: "add_or_panic d ?a = Some d1" using Cons.prems(3) by (simp add: add_or_panic_def)
  then have u: "unat d1 = unat d + floor_amount tot (unat W) w" using add_or_panic_unat [OF d1] a by simp
  obtain shares d' where IH: "floor_shares tot W (Suc i) ws d1 = Some (shares, d')"
      "unat d' = unat d1 + sum_list (map (floor_amount tot (unat W)) ws)"
      "map rs_validator_index shares = map word_of_nat [Suc i ..< Suc i + length ws]"
      "map (\<lambda>s. unat (rs_amount s)) shares = map (floor_amount tot (unat W)) ws"
    using Cons.IH [of d1 "Suc i"] Cons.prems u by (auto simp del: upt_Suc)
  show ?case
    using d1 u IH a upt_conv_Cons [of i "i + length (w # ws)"] by (simp add: Let_def del: upt_Suc)
qed simp

declare hand_out.simps [simp del]

lemma hand_out_0 [simp]: "hand_out 0 i shares = Some shares"
  by (subst hand_out.simps) simp

lemma hand_out_eq:
  assumes "unat rem + i \<le> length shares" and "\<forall>j < length shares. i \<le> j \<longrightarrow> unat (rs_amount (shares ! j)) + 1 < 2 ^ 64 \<or> rem = 0"
  shows "hand_out rem i shares = Some (map (\<lambda>j. let s = shares ! j in
      if i \<le> j \<and> j < i + unat rem then s\<lparr>rs_amount := rs_amount s + 1\<rparr> else s) [0 ..< length shares])"
  using assms
proof (induction rem i shares rule: hand_out.induct)
  case (1 rem i shares)
  show ?case
  proof (cases "rem > 0")
    case False
    then have "rem = 0" by (simp add: not_less word_le_0_iff)
    then show ?thesis by (auto simp: Let_def map_nth intro: nth_equalityI)
  next
    case True
    then have pos: "0 < unat rem" by (simp add: word_gt_0 unat_gt_0)
    with 1(2) have i: "i < length shares" by linarith
    let ?s = "shares ! i"
    let ?sh = "shares[i := ?s\<lparr>rs_amount := rs_amount ?s + 1\<rparr>]"
    have s: "index_or_panic shares i = Some ?s" using i by (simp add: index_or_panic_def)
    have a: "add_or_panic (rs_amount ?s) 1 = Some (rs_amount ?s + 1)"
      using 1(3) i pos by (auto simp: add_or_panic_def)
    have rem1: "unat (rem - 1) = unat rem - 1" using pos by (simp add: unat_minus_one unat_gt_0)
    have step: "hand_out rem i shares = hand_out (rem - 1) ((i + 1) mod length shares) ?sh"
      using True s a by (subst hand_out.simps) simp
    show ?thesis
    proof (cases "i + 1 = length shares")
      case True
      then have "unat rem = 1" using 1(2) pos by linarith
      moreover from this have "rem = 1" by (simp add: word_unat_eq_iff)
      moreover have "i \<le> j \<longleftrightarrow> j = i" if "j < length shares" for j using True that by linarith
      ultimately show ?thesis using step True
        by (auto simp: nth_list_update Let_def intro!: nth_equalityI)
    next
      case False
      then have m: "(i + 1) mod length shares = i + 1" using i by simp
      have "hand_out (rem - 1) (i + 1) ?sh = Some (map (\<lambda>j. let s = ?sh ! j in
          if i + 1 \<le> j \<and> j < i + 1 + unat (rem - 1) then s\<lparr>rs_amount := rs_amount s + 1\<rparr> else s)
          [0 ..< length ?sh])"
      proof (rule 1(1) [OF \<open>rem > 0\<close> s a, unfolded m])
        show "unat (rem - 1) + (i + 1) \<le> length ?sh" using 1(2) rem1 pos by simp
        show "\<forall>j < length ?sh. i + 1 \<le> j \<longrightarrow> unat (rs_amount (?sh ! j)) + 1 < 2 ^ 64 \<or> rem - 1 = 0"
          using 1(3) pos by (auto simp: nth_list_update)
      qed
      then show ?thesis using step m rem1 pos i
        by (auto simp: nth_list_update Let_def intro!: nth_equalityI)
    qed
  qed
qed

lemma weight_sum_of_eq:
  assumes "length ws < 2 ^ 64"
  shows "\<exists>W. weight_sum_of ws = Some W \<and> unat W = sum_list (map unat ws)"
proof -
  have "sum_list (map unat ws) \<le> length ws * 18446744073709551616"
    by (induction ws) (auto intro: add_mono less_imp_le [OF unat_u64_less])
  also have "\<dots> < 2 ^ 128" using assms by simp
  finally have "\<exists>W. weight_sum_of ws = Some W"
    unfolding weight_sum_of_def by (intro sum_or_panic_exists) (simp add: comp_def)
  then show ?thesis by (auto simp: weight_sum_of_def sum_or_panic_Some_iff comp_def)
qed

lemma distribute_zero_weight:
  assumes "length ws < 2 ^ 64" and "sum_list (map unat ws) = 0"
  shows "distribute tot ws = Some []"
  using weight_sum_of_eq [OF assms(1)] assms(2) by (auto simp: distribute_def unat_eq_0)

lemma unat_u64_Suc: "unat a + 1 < 2 ^ 64 \<Longrightarrow> unat (a + 1 :: u64) = unat a + 1"
  using add_or_panic_unat [of a 1 "a + 1"] by (simp add: add_or_panic_def)

lemma distribute_eq:
  assumes "length ws < 2 ^ 64" and pos: "0 < sum_list (map unat ws)"
  shows "\<exists>shares. distribute tot ws = Some shares
    \<and> map rs_validator_index shares = map word_of_nat [0 ..< length ws]
    \<and> map (\<lambda>s. unat (rs_amount s)) shares = map (share_amount tot ws) [0 ..< length ws]"
proof -
  obtain W where W: "weight_sum_of ws = Some W" "unat W = sum_list (map unat ws)"
    using weight_sum_of_eq [OF assms(1)] by blast
  have "0 < unat W" using pos by (simp only: W(2))
  then have W0: "W \<noteq> 0" by auto
  have ne: "ws \<noteq> []" using pos by auto
  have fl: "floor_total tot ws = sum_list (map (floor_amount tot (unat W)) ws)"
    by (simp add: floor_total_def W(2))
  note bounds = floor_total_bounds [OF pos, of tot]
  have "\<forall>w \<in> set ws. unat w \<le> unat W" unfolding W(2) by (auto intro: member_le_sum_list)
  moreover have "unat (0 :: u64) + sum_list (map (floor_amount tot (unat W)) ws) < 2 ^ 64"
    using bounds(1) fl unat_u64_less [of tot] by simp
  ultimately obtain sh d where sh: "floor_shares tot W 0 ws 0 = Some (sh, d)"
      "unat d = floor_total tot ws" "map rs_validator_index sh = map word_of_nat [0 ..< length ws]"
      "map (\<lambda>s. unat (rs_amount s)) sh = map (floor_amount tot (unat W)) ws"
    using floor_shares_eq [of ws W 0 tot 0] pos W(2) fl by auto
  have len: "length sh = length ws" using sh(4) by (metis length_map)
  have amt: "unat (rs_amount (sh ! j)) = floor_amount tot (unat W) (ws ! j)" if "j < length ws" for j
    using arg_cong [OF sh(4), of "\<lambda>xs. xs ! j"] len that by simp
  have dle: "d \<le> tot" using bounds(1) sh(2) by (simp add: word_le_nat_alt)
  have rem: "unat (tot - d) = unat tot - floor_total tot ws" using dle sh(2) by (simp add: unat_sub)
  have small: "unat (rs_amount (sh ! j)) + 1 < 2 ^ 64 \<or> tot - d = 0" if j: "j < length sh" for j
  proof (cases "tot - d = 0")
    case False
    then have "0 < unat (tot - d)" by (simp add: unat_gt_0)
    then have "floor_total tot ws < unat tot" using rem by simp
    moreover have "unat (rs_amount (sh ! j)) \<le> floor_total tot ws"
      unfolding fl using j len amt [of j] by (auto intro: member_le_sum_list)
    ultimately show ?thesis using unat_u64_less [of tot] by simp
  qed simp
  let ?res = "map (\<lambda>j. let s = sh ! j in
      if 0 \<le> j \<and> j < 0 + unat (tot - d) then s\<lparr>rs_amount := rs_amount s + 1\<rparr> else s) [0 ..< length sh]"
  have "hand_out (tot - d) 0 sh = Some ?res"
    using bounds(2) rem len small by (intro hand_out_eq) auto
  then have "distribute tot ws = Some ?res"
    using sh(1) dle W0 ne W(1) by (simp add: distribute_def sub_or_panic_def)
  moreover have "map rs_validator_index ?res = map rs_validator_index sh"
    by (auto simp: Let_def intro!: nth_equalityI)
  moreover have "unat (rs_amount (sh ! j) + 1) = unat (rs_amount (sh ! j)) + 1"
    if "j < unat (tot - d)" "j < length ws" for j
    using small [of j] that len by (intro unat_u64_Suc) auto
  then have "map (\<lambda>s. unat (rs_amount s)) ?res = map (share_amount tot ws) [0 ..< length ws]"
    using amt len by (auto simp: Let_def share_amount_def rem W(2) intro!: nth_equalityI)
  ultimately show ?thesis using sh(3) by auto
qed

lemma sum_share_amount:
  assumes "0 < sum_list (map unat ws)"
  shows "sum_list (map (share_amount tot ws) [0 ..< length ws]) = unat tot"
proof -
  let ?W = "sum_list (map unat ws)" and ?r = "unat tot - floor_total tot ws" and ?n = "length ws"
  have "sum_list (map (share_amount tot ws) [0 ..< ?n])
      = (\<Sum>i\<in>{0..<?n}. floor_amount tot ?W (ws ! i)) + (\<Sum>i\<in>{0..<?n}. if i < ?r then 1 else 0)"
    by (simp add: share_amount_def sum.distrib sum_list_distinct_conv_sum_set)
  also have "(\<Sum>i\<in>{0..<?n}. floor_amount tot ?W (ws ! i)) = floor_total tot ws"
    by (simp add: floor_total_def sum_list_sum_nth)
  also have "(\<Sum>i\<in>{0..<?n}. if i < ?r then 1 else 0) = card ({0..<?n} \<inter> {i. i < ?r})"
    by (simp add: sum.inter_restrict [symmetric] sum.If_cases)
  also have "{0..<?n} \<inter> {i. i < ?r} = {0..<?r}" using floor_total_bounds(2) [OF assms, of tot] by auto
  finally show ?thesis using floor_total_bounds(1) [OF assms, of tot] by simp
qed

section \<open>Properties\<close>

text \<open>C31. The schedule is total, bounded and monotone: with a positive half-life and
  \<^verbatim>\<open>e_tail <= e0\<close>, \<^verbatim>\<open>emission_at\<close> returns at every height (no intermediate product
  overflows), starts at \<^verbatim>\<open>e0\<close>, stays between \<^verbatim>\<open>e_tail\<close> and \<^verbatim>\<open>e0\<close>, and never
  increases.\<close>

theorem emission_at_schedule:
  assumes "em_half_life p \<noteq> 0" and "em_e_tail p \<le> em_e0 p" and "h \<le> h'"
  shows "\<exists>e e'. emission_at p h = Some e \<and> emission_at p h' = Some e'
    \<and> em_e_tail p \<le> e' \<and> e' \<le> e \<and> e \<le> em_e0 p \<and> emission_at p 0 = Some (em_e0 p)"
proof -
  let ?N = "emission_nat (unat (em_e0 p)) (unat (em_e_tail p)) (unat (em_half_life p))"
  have le: "unat (em_e_tail p) \<le> unat (em_e0 p)" "unat h \<le> unat h'" "0 < unat (em_half_life p)"
    using assms by (simp_all add: word_le_nat_alt unat_gt_0)
  obtain e e' z where e: "emission_at p h = Some e" "unat e = ?N (unat h)"
      "emission_at p h' = Some e'" "unat e' = ?N (unat h')" "emission_at p 0 = Some z" "unat z = ?N 0"
    using emission_at_eq [OF assms(1,2), of h] emission_at_eq [OF assms(1,2), of h']
      emission_at_eq [OF assms(1,2), of 0] by auto
  have "unat z = unat (em_e0 p)" using e(6) le by (simp add: emission_nat_def decay_nat_0)
  then have "z = em_e0 p" by (simp add: word_unat_eq_iff)
  then show ?thesis
    using e le emission_nat_bounds [OF le(1)] emission_nat_antimono [OF le(3,2)]
    by (auto simp: word_le_nat_alt)
qed

lemma emission_at_schedule_witness:
  "\<exists>e e'. emission_at \<lparr>em_e0 = 1000000, em_e_tail = 10000, em_half_life = 100\<rparr> 50 = Some e
    \<and> emission_at \<lparr>em_e0 = 1000000, em_e_tail = 10000, em_half_life = 100\<rparr> 10000 = Some e'
    \<and> 10000 \<le> e' \<and> e' \<le> e \<and> e \<le> 1000000"
  using emission_at_schedule [of "\<lparr>em_e0 = 1000000, em_e_tail = 10000, em_half_life = 100\<rparr>" 50 10000]
  by auto

text \<open>The constructor only checks the half-life, so a schedule whose tail exceeds its start is
  accepted, and \<^verbatim>\<open>emission_at\<close> panics at every height for exactly the accepted parameters with
  \<^verbatim>\<open>e0 < e_tail\<close>.\<close>

theorem emission_at_panics_iff:
  assumes "em_new e0 e_tail hl = Some p"
  shows "emission_at p h = None \<longleftrightarrow> e0 < e_tail"
  using assms by (auto simp: em_new_def emission_at_None_iff split: if_splits)

lemma emission_at_panics_iff_witness:
  "em_new 5 7 1 = Some \<lparr>em_e0 = 5, em_e_tail = 7, em_half_life = 1\<rparr>
   \<and> emission_at \<lparr>em_e0 = 5, em_e_tail = 7, em_half_life = 1\<rparr> 0 = None"
  using emission_at_panics_iff [of 5 7 1 "\<lparr>em_e0 = 5, em_e_tail = 7, em_half_life = 1\<rparr>" 0]
  by (simp add: em_new_def)

text \<open>C32. The split is exact: with a non-zero total weight \<^verbatim>\<open>distribute\<close> never panics, gives one
  share per validator in index order, each the rounded-down proportional amount plus at most one
  unit, the extra units go to the lowest indices, and the shares sum to the total exactly.\<close>

theorem distribute_exact:
  assumes "length ws < 2 ^ 64" and "0 < sum_list (map unat ws)"
  shows "\<exists>shares. distribute tot ws = Some shares
    \<and> map rs_validator_index shares = map word_of_nat [0 ..< length ws]
    \<and> map (\<lambda>s. unat (rs_amount s)) shares = map (share_amount tot ws) [0 ..< length ws]
    \<and> sum_list (map (\<lambda>s. unat (rs_amount s)) shares) = unat tot"
  using distribute_eq [OF assms, of tot] sum_share_amount [OF assms(2), of tot] by auto

lemma distribute_exact_witness:
  "\<exists>shares. distribute 10 [1, 2, 4] = Some shares
    \<and> map (\<lambda>s. unat (rs_amount s)) shares = [2, 3, 5]
    \<and> sum_list (map (\<lambda>s. unat (rs_amount s)) shares) = 10"
  using distribute_exact [of "[1, 2, 4]" 10]
  by (auto simp: share_amount_def floor_amount_def floor_total_def upt_rec)

end
