(* ===== verification/Ledger.thy ===== *)
theory Ledger
  imports Prover_Dev Emission
begin

text \<open>
  \<^verbatim>\<open>crates/state\<close>: the checkpoint state machine.  \<open>apply_checkpoint\<close> is the whole
  method: the loop over the ordered transactions (\<open>process_tx\<close> folded by \<open>process_txs\<close>),
  the commit of the staged effects, the minting of rewards and the sealing of the anchor.  Every
  panic of the Rust method (height, supply and reward overflow, an index out of range, the
  quota registry's subtraction) makes the result \<open>None\<close>.  The trait \<^verbatim>\<open>SpendVerifier\<close> is the
  argument \<open>V\<close>.  Reading and writing snapshots is in theory \<open>Persistence\<close>.
\<close>

section \<open>State\<close>

definition EPOCH_LENGTH :: u64 where "EPOCH_LENGTH = 100"

record ValidatorInfo =
  vi_weight :: u64
  vi_addr_tag :: bytes

datatype RejectReason = StaleOrUnknownAnchor | DoubleSpend | StatelessInvalid | QuotaRejected

record CheckpointSummary =
  cs_height :: u64
  cs_anchor :: Anchor
  cs_accepted :: nat
  cs_rejected :: "(nat \<times> RejectReason) list"
  cs_rewards :: RewardDescriptor
  cs_total_supply :: u64
  cs_output_positions :: "u64 list"

record Ledger =
  lg_tree :: CommitmentTree
  lg_nullifiers :: "Nullifier set"
  lg_quota :: QuotaRegistry
  lg_height :: u64
  lg_supply :: u64
  lg_emission :: EmissionParams
  lg_validators :: "ValidatorInfo list"
  lg_difficulty_bits :: u32

section \<open>Genesis\<close>

fun genesis_loop :: "CommitmentTree \<Rightarrow> u64 \<Rightarrow> (Commitment \<times> u64) list \<Rightarrow> (CommitmentTree \<times> u64) option" where
  "genesis_loop tree supply [] = Some (tree, supply)"
| "genesis_loop tree supply ((cm, v) # notes) =
     do { supply' \<leftarrow> add_or_panic supply v;
          genesis_loop (fst (ct_append tree cm)) supply' notes }"

definition genesis ::
  "blake3 \<Rightarrow> EmissionParams \<Rightarrow> ValidatorInfo list \<Rightarrow> u32 \<Rightarrow> (Commitment \<times> u64) list \<Rightarrow> Ledger option" where
  "genesis B emission validators difficulty_bits genesis_notes =
     do { (tree, supply) \<leftarrow> genesis_loop (ct_new B) 0 genesis_notes;
          Some \<lparr>lg_tree = fst (ct_seal B tree 0), lg_nullifiers = {}, lg_quota = qr_new,
                lg_height = 0, lg_supply = supply, lg_emission = emission,
                lg_validators = validators, lg_difficulty_bits = difficulty_bits\<rparr> }"

definition total_supply :: "Ledger \<Rightarrow> u64" where
  "total_supply L = lg_supply L"

definition current_anchor :: "blake3 \<Rightarrow> Ledger \<Rightarrow> Anchor" where
  "current_anchor B L = \<lparr>anc_height = lg_height L, anc_root = ct_root B (lg_tree L)\<rparr>"

definition nullifier_seen :: "Ledger \<Rightarrow> Nullifier \<Rightarrow> bool" where
  "nullifier_seen L nf \<longleftrightarrow> nf \<in> lg_nullifiers L"

section \<open>The loop over the ordered transactions\<close>

text \<open>The method's local variables and the registry it mutates.\<close>

record Staging =
  st_quota :: QuotaRegistry
  st_staged_nf :: "Nullifier list"
  st_staged_cm :: "Commitment list"
  st_seen :: "Nullifier set"
  st_accepted :: nat
  st_rejected :: "(nat \<times> RejectReason) list"

definition reject :: "nat \<Rightarrow> RejectReason \<Rightarrow> Staging \<Rightarrow> Staging" where
  "reject i r st = st\<lparr>st_rejected := st_rejected st @ [(i, r)]\<rparr>"

definition accept :: "TxV1 \<Rightarrow> Staging \<Rightarrow> Staging" where
  "accept tx st = st\<lparr>st_seen := st_seen st \<union> set (tx_nullifiers tx),
     st_staged_nf := st_staged_nf st @ tx_nullifiers tx,
     st_staged_cm := st_staged_cm st @ tx_commitments tx,
     st_accepted := st_accepted st + 1\<rparr>"

text \<open>The quota lane's stateful check: the verdict, and the registry after \<^verbatim>\<open>admit\<close>.\<close>

definition quota_check :: "u64 \<Rightarrow> AntiSpam \<Rightarrow> QuotaRegistry \<Rightarrow> (QuotaRegistry \<times> bool) option" where
  "quota_check next_height antispam reg =
     (case antispam of
        LanePow _ \<Rightarrow> Some (reg, True)
      | LaneQuota rp \<Rightarrow>
          if rp_epoch rp \<noteq> next_height div EPOCH_LENGTH then Some (reg, False)
          else do { (reg', verdict) \<leftarrow> admit reg rp; Some (reg', verdict = AdmitOk) })"

definition process_tx ::
  "blake3 \<Rightarrow> SpendVerifier \<Rightarrow> Ledger \<Rightarrow> u64 \<Rightarrow> nat \<Rightarrow> TxV1 \<Rightarrow> Staging \<Rightarrow> Staging option" where
  "process_tx B V L next_height i tx st =
     (if \<not> ct_anchor_valid (lg_tree L) (tx_anchor tx) then Some (reject i StaleOrUnknownAnchor st)
      else case validate_stateless B tx V (lg_difficulty_bits L) of
        Inl _ \<Rightarrow> Some (reject i StatelessInvalid st)
      | Inr _ \<Rightarrow>
          if list_ex (\<lambda>nf. nf \<in> lg_nullifiers L \<or> nf \<in> st_seen st) (tx_nullifiers tx)
          then Some (reject i DoubleSpend st)
          else do { (reg, ok) \<leftarrow> quota_check next_height (tx_antispam tx) (st_quota st);
                    if ok then Some (accept tx (st\<lparr>st_quota := reg\<rparr>))
                    else Some (reject i QuotaRejected (st\<lparr>st_quota := reg\<rparr>)) })"

fun process_txs ::
  "blake3 \<Rightarrow> SpendVerifier \<Rightarrow> Ledger \<Rightarrow> u64 \<Rightarrow> nat \<Rightarrow> TxV1 list \<Rightarrow> Staging \<Rightarrow> Staging option" where
  "process_txs B V L next_height i [] st = Some st"
| "process_txs B V L next_height i (tx # txs) st =
     do { st' \<leftarrow> process_tx B V L next_height i tx st;
          process_txs B V L next_height (Suc i) txs st' }"

definition staging_init :: "Ledger \<Rightarrow> Staging" where
  "staging_init L = \<lparr>st_quota = lg_quota L, st_staged_nf = [], st_staged_cm = [], st_seen = {},
     st_accepted = 0, st_rejected = []\<rparr>"

section \<open>Applying a checkpoint\<close>

definition append_all :: "CommitmentTree \<Rightarrow> Commitment list \<Rightarrow> CommitmentTree" where
  "append_all tree cms = fold (\<lambda>cm t. fst (ct_append t cm)) cms tree"

definition reward_note :: "blake3 \<Rightarrow> u64 \<Rightarrow> ValidatorInfo \<Rightarrow> RewardShare \<Rightarrow> Note option" where
  "reward_note B next_height v share =
     do { i2 \<leftarrow> add_or_panic (128 :: u8) (ucast (rs_validator_index share));
          Some \<lparr>note_value = rs_amount share, note_addr_tag = vi_addr_tag v,
                note_rho = rho_mint B next_height (ucast (rs_validator_index share)),
                note_rseed = rho_mint B next_height i2\<rparr> }"

fun mint_loop ::
  "blake3 \<Rightarrow> u64 \<Rightarrow> ValidatorInfo list \<Rightarrow> RewardShare list \<Rightarrow> CommitmentTree \<Rightarrow> u64
   \<Rightarrow> (CommitmentTree \<times> u64) option" where
  "mint_loop B next_height vs [] tree supply = Some (tree, supply)"
| "mint_loop B next_height vs (share # shares) tree supply =
     do { v \<leftarrow> index_or_panic vs (unat (rs_validator_index share));
          note \<leftarrow> reward_note B next_height v share;
          supply' \<leftarrow> add_or_panic supply (rs_amount share);
          mint_loop B next_height vs shares (fst (ct_append tree (commitment B note))) supply' }"

definition apply_checkpoint ::
  "blake3 \<Rightarrow> Ledger \<Rightarrow> TxV1 list \<Rightarrow> SpendVerifier \<Rightarrow> (Ledger \<times> CheckpointSummary) option" where
  "apply_checkpoint B L ordered V =
     do { next_height \<leftarrow> add_or_panic (lg_height L) 1;
          st \<leftarrow> process_txs B V L next_height 0 ordered (staging_init L);
          let base = length (ct_leaves (lg_tree L));
          let output_positions = map word_of_nat [base ..< base + length (st_staged_cm st)];
          let tree = append_all (lg_tree L) (st_staged_cm st);
          rewards \<leftarrow> reward_descriptor (lg_emission L) next_height (map vi_weight (lg_validators L));
          (tree', supply) \<leftarrow> mint_loop B next_height (lg_validators L) (rd_shares rewards) tree (lg_supply L);
          let (sealed, anchor) = ct_seal B tree' next_height;
          Some (L\<lparr>lg_tree := sealed, lg_nullifiers := lg_nullifiers L \<union> set (st_staged_nf st),
                   lg_quota := st_quota st, lg_height := next_height, lg_supply := supply\<rparr>,
                \<lparr>cs_height = next_height, cs_anchor = anchor, cs_accepted = st_accepted st,
                 cs_rejected = st_rejected st, cs_rewards = rewards, cs_total_supply = supply,
                 cs_output_positions = output_positions\<rparr>) }"

section \<open>Queries\<close>

definition audit_supply :: "Ledger \<Rightarrow> u64 \<Rightarrow> bool option" where
  "audit_supply L genesis_supply =
     do { es \<leftarrow> those (map (\<lambda>h. emission_at (lg_emission L) (word_of_nat h)) [1 ..< Suc (unat (lg_height L))]);
          minted \<leftarrow> sum_or_panic es;
          expected \<leftarrow> add_or_panic genesis_supply minted;
          Some (lg_supply L = expected) }"

definition tree_witness :: "blake3 \<Rightarrow> Ledger \<Rightarrow> u64 \<Rightarrow> MerklePath option" where
  "tree_witness B L position = ct_witness B (lg_tree L) position"

definition lg_anchor_valid :: "Ledger \<Rightarrow> Anchor \<Rightarrow> bool" where
  "lg_anchor_valid L anchor \<longleftrightarrow> ct_anchor_valid (lg_tree L) anchor"

definition current_epoch :: "Ledger \<Rightarrow> u64" where
  "current_epoch L = lg_height L div EPOCH_LENGTH"

section \<open>The normative checkpoint rule\<close>

text \<open>
  \<^verbatim>\<open>specs/anchors.md\<close> section 3 as a relation: each transaction in commit order gets a verdict
  (\<open>None\<close> is acceptance) from its anchor, its stateless validity and the nullifiers spent
  before it.  The quota lane may reject a transaction of its own lane; the rule leaves open
  when.
\<close>

inductive judge ::
  "(Anchor \<Rightarrow> bool) \<Rightarrow> (TxV1 \<Rightarrow> bool) \<Rightarrow> u64 \<Rightarrow> Nullifier set \<Rightarrow> TxV1 list \<Rightarrow> RejectReason option list \<Rightarrow> bool"
  for anchor_ok and stateless_ok and epoch where
  judge_Nil: "judge anchor_ok stateless_ok epoch spent [] []"
| judge_stale: "\<not> anchor_ok (tx_anchor tx) \<Longrightarrow> judge anchor_ok stateless_ok epoch spent txs vs
    \<Longrightarrow> judge anchor_ok stateless_ok epoch spent (tx # txs) (Some StaleOrUnknownAnchor # vs)"
| judge_invalid: "anchor_ok (tx_anchor tx) \<Longrightarrow> \<not> stateless_ok tx \<Longrightarrow> judge anchor_ok stateless_ok epoch spent txs vs
    \<Longrightarrow> judge anchor_ok stateless_ok epoch spent (tx # txs) (Some StatelessInvalid # vs)"
| judge_double: "anchor_ok (tx_anchor tx) \<Longrightarrow> stateless_ok tx \<Longrightarrow> set (tx_nullifiers tx) \<inter> spent \<noteq> {}
    \<Longrightarrow> judge anchor_ok stateless_ok epoch spent txs vs
    \<Longrightarrow> judge anchor_ok stateless_ok epoch spent (tx # txs) (Some DoubleSpend # vs)"
| judge_quota: "anchor_ok (tx_anchor tx) \<Longrightarrow> stateless_ok tx \<Longrightarrow> set (tx_nullifiers tx) \<inter> spent = {}
    \<Longrightarrow> tx_antispam tx = LaneQuota rp \<Longrightarrow> judge anchor_ok stateless_ok epoch spent txs vs
    \<Longrightarrow> judge anchor_ok stateless_ok epoch spent (tx # txs) (Some QuotaRejected # vs)"
| judge_accept: "anchor_ok (tx_anchor tx) \<Longrightarrow> stateless_ok tx \<Longrightarrow> set (tx_nullifiers tx) \<inter> spent = {}
    \<Longrightarrow> (\<And>rp. tx_antispam tx = LaneQuota rp \<Longrightarrow> rp_epoch rp = epoch)
    \<Longrightarrow> judge anchor_ok stateless_ok epoch (spent \<union> set (tx_nullifiers tx)) txs vs
    \<Longrightarrow> judge anchor_ok stateless_ok epoch spent (tx # txs) (None # vs)"

inductive_cases judge_NilE: "judge a s e spent [] vs"
inductive_cases judge_ConsE: "judge a s e spent (tx # txs) vs"

fun accepted_txs :: "RejectReason option list \<Rightarrow> TxV1 list \<Rightarrow> TxV1 list" where
  "accepted_txs (None # vs) (tx # txs) = tx # accepted_txs vs txs"
| "accepted_txs (Some r # vs) (tx # txs) = accepted_txs vs txs"
| "accepted_txs _ _ = []"

fun rejections :: "nat \<Rightarrow> RejectReason option list \<Rightarrow> (nat \<times> RejectReason) list" where
  "rejections i [] = []"
| "rejections i (None # vs) = rejections (Suc i) vs"
| "rejections i (Some r # vs) = (i, r) # rejections (Suc i) vs"

abbreviation stateless_ok :: "blake3 \<Rightarrow> SpendVerifier \<Rightarrow> Ledger \<Rightarrow> TxV1 \<Rightarrow> bool" where
  "stateless_ok B V L tx \<equiv> validate_stateless B tx V (lg_difficulty_bits L) = Inr ()"

lemma judge_length: "judge a s e spent txs vs \<Longrightarrow> length vs = length txs"
  by (induction rule: judge.induct) auto

lemma judge_accepted_ok:
  "judge a s e spent txs vs \<Longrightarrow> tx \<in> set (accepted_txs vs txs) \<Longrightarrow> a (tx_anchor tx) \<and> s tx \<and> tx \<in> set txs
    \<and> (\<forall>rp. tx_antispam tx = LaneQuota rp \<longrightarrow> rp_epoch rp = e)"
  by (induction rule: judge.induct) auto

lemma judge_no_double_spend:
  assumes "judge a s e spent txs vs" and "\<And>tx. tx \<in> set txs \<Longrightarrow> s tx \<Longrightarrow> distinct (tx_nullifiers tx)"
  shows "distinct (concat (map tx_nullifiers (accepted_txs vs txs)))
    \<and> set (concat (map tx_nullifiers (accepted_txs vs txs))) \<inter> spent = {}"
  using assms by (induction rule: judge.induct) (auto simp: disjoint_iff)

lemma rejections_index:
  "(j, r) \<in> set (rejections i vs) \<longleftrightarrow> i \<le> j \<and> j < i + length vs \<and> vs ! (j - i) = Some r"
proof (induction i vs rule: rejections.induct)
  case (2 i vs)
  then show ?case by (cases "j = i") (auto simp: nth_Cons' Suc_le_eq)
next
  case (3 i q vs)
  then show ?case by (cases "j = i") (auto simp: nth_Cons' Suc_le_eq)
qed simp

section \<open>The loop implements the rule\<close>

abbreviation ledger_judge :: "blake3 \<Rightarrow> SpendVerifier \<Rightarrow> Ledger \<Rightarrow> u64 \<Rightarrow> Nullifier set \<Rightarrow> TxV1 list \<Rightarrow> RejectReason option list \<Rightarrow> bool" where
  "ledger_judge B V L nh \<equiv> judge (ct_anchor_valid (lg_tree L)) (stateless_ok B V L) (nh div EPOCH_LENGTH)"

text \<open>One transaction: a verdict, and its effect on the staging area.\<close>

definition staged :: "nat \<Rightarrow> TxV1 list \<Rightarrow> RejectReason option list \<Rightarrow> Staging \<Rightarrow> Staging \<Rightarrow> bool" where
  "staged i txs vs st st' \<longleftrightarrow>
     st_staged_nf st' = st_staged_nf st @ concat (map tx_nullifiers (accepted_txs vs txs))
     \<and> st_staged_cm st' = st_staged_cm st @ concat (map tx_commitments (accepted_txs vs txs))
     \<and> st_seen st' = st_seen st \<union> set (concat (map tx_nullifiers (accepted_txs vs txs)))
     \<and> st_accepted st' = st_accepted st + length (accepted_txs vs txs)
     \<and> st_rejected st' = st_rejected st @ rejections i vs"

lemma quota_check_cases:
  assumes "quota_check nh a reg = Some (reg', ok)"
  shows "if ok then \<forall>rp. a = LaneQuota rp \<longrightarrow> rp_epoch rp = nh div EPOCH_LENGTH else \<exists>rp. a = LaneQuota rp"
  using assms by (auto simp: quota_check_def split: AntiSpam.splits if_splits)

lemma process_tx_judge:
  assumes "process_tx B V L nh i tx st = Some st1"
  shows "\<exists>v. staged i [tx] [v] st st1
    \<and> (\<forall>txs vs. ledger_judge B V L nh (lg_nullifiers L \<union> st_seen st1) txs vs
        \<longrightarrow> ledger_judge B V L nh (lg_nullifiers L \<union> st_seen st) (tx # txs) (v # vs))"
proof -
  let ?spent = "lg_nullifiers L \<union> st_seen st"
  consider (stale) "\<not> ct_anchor_valid (lg_tree L) (tx_anchor tx)"
    | (invalid) "ct_anchor_valid (lg_tree L) (tx_anchor tx)" "\<not> stateless_ok B V L tx"
    | (double) "ct_anchor_valid (lg_tree L) (tx_anchor tx)" "stateless_ok B V L tx" "set (tx_nullifiers tx) \<inter> ?spent \<noteq> {}"
    | (fresh) "ct_anchor_valid (lg_tree L) (tx_anchor tx)" "stateless_ok B V L tx" "set (tx_nullifiers tx) \<inter> ?spent = {}"
    by blast
  then show ?thesis
  proof cases
    case stale
    then have "st1 = reject i StaleOrUnknownAnchor st" using assms by (simp add: process_tx_def)
    with stale show ?thesis
      by (intro exI [of _ "Some StaleOrUnknownAnchor"]) (auto simp: staged_def reject_def intro: judge_stale)
  next
    case invalid
    then have "st1 = reject i StatelessInvalid st" using assms by (auto simp: process_tx_def split: sum.splits)
    with invalid show ?thesis
      by (intro exI [of _ "Some StatelessInvalid"]) (auto simp: staged_def reject_def intro: judge_invalid)
  next
    case double
    then have "st1 = reject i DoubleSpend st"
      using assms by (auto simp: process_tx_def list_ex_iff split: if_splits)
    with double show ?thesis
      by (intro exI [of _ "Some DoubleSpend"]) (auto simp: staged_def reject_def intro: judge_double)
  next
    case fresh
    then have "\<not> list_ex (\<lambda>nf. nf \<in> lg_nullifiers L \<or> nf \<in> st_seen st) (tx_nullifiers tx)"
      by (auto simp: list_ex_iff)
    with fresh obtain reg ok where q: "quota_check nh (tx_antispam tx) (st_quota st) = Some (reg, ok)"
      and st1: "st1 = (if ok then accept tx (st\<lparr>st_quota := reg\<rparr>) else reject i QuotaRejected (st\<lparr>st_quota := reg\<rparr>))"
      using assms by (auto simp: process_tx_def bind_eq_Some_conv split: if_splits)
    show ?thesis
    proof (cases ok)
      case True
      with st1 fresh quota_check_cases [OF q] show ?thesis
        by (intro exI [of _ None]) (auto simp: staged_def accept_def Un_assoc intro!: judge_accept)
    next
      case False
      with quota_check_cases [OF q] obtain rp where "tx_antispam tx = LaneQuota rp" by auto
      with False st1 fresh show ?thesis
        by (intro exI [of _ "Some QuotaRejected"]) (auto simp: staged_def reject_def intro!: judge_quota)
    qed
  qed
qed

lemma process_txs_judge:
  "process_txs B V L nh i txs st = Some st'
   \<Longrightarrow> \<exists>vs. ledger_judge B V L nh (lg_nullifiers L \<union> st_seen st) txs vs \<and> staged i txs vs st st'"
proof (induction txs arbitrary: i st)
  case Nil
  then show ?case by (intro exI [of _ "[]"]) (auto simp: staged_def intro: judge_Nil)
next
  case (Cons tx txs)
  then obtain st1 where st1: "process_tx B V L nh i tx st = Some st1"
    and rest: "process_txs B V L nh (Suc i) txs st1 = Some st'"
    by (auto simp: bind_eq_Some_conv)
  from Cons.IH [OF rest] obtain vs where vs: "ledger_judge B V L nh (lg_nullifiers L \<union> st_seen st1) txs vs"
      "staged (Suc i) txs vs st1 st'" by blast
  from process_tx_judge [OF st1] vs(1) obtain v where v: "staged i [tx] [v] st st1"
      "ledger_judge B V L nh (lg_nullifiers L \<union> st_seen st) (tx # txs) (v # vs)" by blast
  have "staged i (tx # txs) (v # vs) st st'"
    using v(1) vs(2) by (cases v) (auto simp: staged_def)
  with v(2) show ?case by blast
qed

section \<open>Commit, mint and seal\<close>

lemma append_all_simps [simp]:
  "ct_leaves (append_all t cms) = ct_leaves t @ map cm_bytes cms"
  "ct_anchors (append_all t cms) = ct_anchors t" "wf_tree B (append_all t cms) = wf_tree B t"
  by (induction cms arbitrary: t) (auto simp: append_all_def ct_append_def wf_tree_def Let_def)

lemma mint_loop_Some:
  "mint_loop B nh vs shares tree sp = Some (tree', sp') \<Longrightarrow>
   \<exists>ns. length ns = length shares
     \<and> list_all2 (\<lambda>share n. \<exists>v. index_or_panic vs (unat (rs_validator_index share)) = Some v
          \<and> reward_note B nh v share = Some n) shares ns
     \<and> ct_leaves tree' = ct_leaves tree @ map (\<lambda>n. cm_bytes (commitment B n)) ns
     \<and> ct_anchors tree' = ct_anchors tree \<and> (wf_tree B tree' = wf_tree B tree)
     \<and> unat sp' = unat sp + sum_list (map (\<lambda>s. unat (rs_amount s)) shares)"
proof (induction shares arbitrary: tree sp)
  case (Cons s shares)
  then obtain v n sup1 where step: "index_or_panic vs (unat (rs_validator_index s)) = Some v"
      "reward_note B nh v s = Some n" "add_or_panic sp (rs_amount s) = Some sup1"
      "mint_loop B nh vs shares (fst (ct_append tree (commitment B n))) sup1 = Some (tree', sp')"
    by (auto simp: bind_eq_Some_conv)
  from Cons.IH [OF step(4)] obtain ns where n: "length ns = length shares"
     "list_all2 (\<lambda>share n. \<exists>v. index_or_panic vs (unat (rs_validator_index share)) = Some v
          \<and> reward_note B nh v share = Some n) shares ns"
     "ct_leaves tree' = ct_leaves (fst (ct_append tree (commitment B n))) @ map (\<lambda>n. cm_bytes (commitment B n)) ns"
     "ct_anchors tree' = ct_anchors (fst (ct_append tree (commitment B n)))"
     "wf_tree B tree' = wf_tree B (fst (ct_append tree (commitment B n)))"
     "unat sp' = unat sup1 + sum_list (map (\<lambda>s. unat (rs_amount s)) shares)" by blast
  then show ?case
    using step(1,2) add_or_panic_unat [OF step(3)]
    by (intro exI [of _ "n # ns"]) (auto simp: ct_append_def Let_def wf_tree_def)
qed simp

section \<open>The abstract ledger and the invariant\<close>

record ledger_view =
  lv_leaves :: "bytes list"
  lv_spent :: "Nullifier set"
  lv_height :: nat
  lv_supply :: nat
  lv_window :: "Anchor list"

definition view :: "Ledger \<Rightarrow> ledger_view" where
  "view L = \<lparr>lv_leaves = ct_leaves (lg_tree L), lv_spent = lg_nullifiers L, lv_height = unat (lg_height L),
     lv_supply = unat (lg_supply L), lv_window = ct_anchors (lg_tree L)\<rparr>"

text \<open>The checkpoint lifecycle of the specification: judge, commit in order, mint, seal.\<close>

definition checkpoint_spec ::
  "blake3 \<Rightarrow> (TxV1 \<Rightarrow> bool) \<Rightarrow> ledger_view \<Rightarrow> TxV1 list \<Rightarrow> RejectReason option list \<Rightarrow> Note list \<Rightarrow> ledger_view \<Rightarrow> bool" where
  "checkpoint_spec B ok A txs vs rewards A' \<longleftrightarrow>
     judge (\<lambda>a. a \<in> set (lv_window A)) ok (word_of_nat (lv_height A') div EPOCH_LENGTH) (lv_spent A) txs vs
     \<and> lv_leaves A' = lv_leaves A @ map cm_bytes (concat (map tx_commitments (accepted_txs vs txs)))
         @ map (\<lambda>n. cm_bytes (commitment B n)) rewards
     \<and> lv_spent A' = lv_spent A \<union> set (concat (map tx_nullifiers (accepted_txs vs txs)))
     \<and> lv_height A' = lv_height A + 1
     \<and> lv_supply A' = lv_supply A + sum_list (map (\<lambda>n. unat (note_value n)) rewards)
     \<and> lv_window A' = filter (\<lambda>a. lv_height A' - unat (anc_height a) < 1024) (lv_window A)
         @ [\<lparr>anc_height = word_of_nat (lv_height A'), anc_root = ref_root B 0 TREE_DEPTH (lv_leaves A')\<rparr>]"

text \<open>The invariant: the tree's padding table is right, the window holds one anchor for each of
  the last 1024 heights, and each anchor is the root of a prefix of the leaves.\<close>

definition ledger_inv :: "blake3 \<Rightarrow> Ledger \<Rightarrow> bool" where
  "ledger_inv B L \<longleftrightarrow> wf_tree B (lg_tree L)
     \<and> map (\<lambda>a. unat (anc_height a)) (ct_anchors (lg_tree L)) = [Suc (unat (lg_height L)) - 1024 ..< Suc (unat (lg_height L))]
     \<and> (\<forall>a \<in> set (ct_anchors (lg_tree L)). \<exists>n \<le> length (ct_leaves (lg_tree L)).
          anc_root a = ref_root B 0 TREE_DEPTH (take n (ct_leaves (lg_tree L))))
     \<and> last (ct_anchors (lg_tree L)) = current_anchor B L"

lemma filter_window: "filter (\<lambda>n. Suc h - n < 1024) [Suc h - 1024 ..< Suc h] = [Suc (Suc h) - 1024 ..< Suc h]"
  by (rule sorted_distinct_set_unique) (auto simp: sorted_wrt_filter simp del: upt_Suc)

lemma ledger_inv_sealed_below:
  assumes "ledger_inv B L" and "add_or_panic (lg_height L) 1 = Some nh"
  shows "sealed_below (lg_tree L) nh"
proof -
  let ?hs = "map (\<lambda>a. unat (anc_height a)) (ct_anchors (lg_tree L))"
  have nh: "unat nh = Suc (unat (lg_height L))" using add_or_panic_unat [OF assms(2)] by simp
  have hs: "?hs = [Suc (unat (lg_height L)) - 1024 ..< Suc (unat (lg_height L))]"
    using assms(1) by (simp add: ledger_inv_def)
  then have "sorted_wrt (<) ?hs" by (simp del: upt_Suc)
  moreover have "\<forall>n \<in> set ?hs. n < unat nh" unfolding hs nh by auto
  ultimately show ?thesis
    by (simp add: sealed_below_def sorted_wrt_map word_less_nat_alt list_all_iff)
qed

lemma reward_note_value: "reward_note B nh v s = Some n \<Longrightarrow> note_value n = rs_amount s"
  by (auto simp: reward_note_def bind_eq_Some_conv)

lemma checkpoint_steps:
  assumes "apply_checkpoint B L ordered V = Some (L', S)"
  obtains nh st rewards tree where
    "add_or_panic (lg_height L) 1 = Some nh"
    "process_txs B V L nh 0 ordered (staging_init L) = Some st"
    "reward_descriptor (lg_emission L) nh (map vi_weight (lg_validators L)) = Some rewards"
    "mint_loop B nh (lg_validators L) (rd_shares rewards) (append_all (lg_tree L) (st_staged_cm st)) (lg_supply L)
       = Some (tree, lg_supply L')"
    "lg_tree L' = fst (ct_seal B tree nh)" "lg_height L' = nh"
    "lg_nullifiers L' = lg_nullifiers L \<union> set (st_staged_nf st)" "lg_quota L' = st_quota st"
    "lg_emission L' = lg_emission L" "lg_validators L' = lg_validators L" "lg_difficulty_bits L' = lg_difficulty_bits L"
    "cs_height S = nh" "cs_anchor S = snd (ct_seal B tree nh)" "cs_accepted S = st_accepted st"
    "cs_rejected S = st_rejected st" "cs_rewards S = rewards" "cs_total_supply S = lg_supply L'"
    "cs_output_positions S = map word_of_nat [length (ct_leaves (lg_tree L)) ..<
       length (ct_leaves (lg_tree L)) + length (st_staged_cm st)]"
  using assms by (auto simp: apply_checkpoint_def bind_eq_Some_conv Let_def split_beta)

text \<open>One checkpoint refines the specification and keeps the invariant.\<close>

lemma ct_seal_window:
  assumes "sealed_below t nh" and "unat nh = Suc h"
    and "map (\<lambda>a. unat (anc_height a)) (ct_anchors t) = [Suc h - 1024 ..< Suc h]"
  shows "map (\<lambda>a. unat (anc_height a)) (ct_anchors (fst (ct_seal B t nh))) = [Suc (Suc h) - 1024 ..< Suc (Suc h)]"
proof -
  have "map (\<lambda>a. unat (anc_height a)) (filter (\<lambda>x. Suc h - unat (anc_height x) < 1024) (ct_anchors t))
      = filter (\<lambda>n. Suc h - n < 1024) (map (\<lambda>a. unat (anc_height a)) (ct_anchors t))"
    by (simp add: filter_map comp_def)
  also have "\<dots> = [Suc (Suc h) - 1024 ..< Suc h]" unfolding assms(3) by (rule filter_window)
  finally show ?thesis
    using ct_seal_anchors [OF assms(1) surjective_pairing] assms(2) by (simp add: upt_Suc_append del: upt_Suc)
qed

lemma checkpoint_refines:
  assumes step: "apply_checkpoint B L ordered V = Some (L', S)" and inv: "ledger_inv B L"
  shows "\<exists>vs ns. checkpoint_spec B (stateless_ok B V L) (view L) ordered vs ns (view L')
    \<and> cs_rejected S = rejections 0 vs \<and> cs_accepted S = length (accepted_txs vs ordered)
    \<and> list_all2 (\<lambda>share n. \<exists>v. index_or_panic (lg_validators L) (unat (rs_validator_index share)) = Some v
          \<and> reward_note B (cs_height S) v share = Some n) (rd_shares (cs_rewards S)) ns
    \<and> cs_anchor S = current_anchor B L' \<and> ledger_inv B L'"
proof -
  obtain nh st rewards tree where nh: "add_or_panic (lg_height L) 1 = Some nh"
    and pt: "process_txs B V L nh 0 ordered (staging_init L) = Some st"
    and mint: "mint_loop B nh (lg_validators L) (rd_shares rewards) (append_all (lg_tree L) (st_staged_cm st)) (lg_supply L)
       = Some (tree, lg_supply L')"
    and lt': "lg_tree L' = fst (ct_seal B tree nh)" "lg_height L' = nh"
       "lg_nullifiers L' = lg_nullifiers L \<union> set (st_staged_nf st)"
    and S: "cs_height S = nh" "cs_anchor S = snd (ct_seal B tree nh)" "cs_accepted S = st_accepted st"
       "cs_rejected S = st_rejected st" "cs_rewards S = rewards"
    by (rule checkpoint_steps [OF step])
  have unh: "unat nh = Suc (unat (lg_height L))" using add_or_panic_unat [OF nh] by simp
  have nh_eq: "1 + lg_height L = nh" using nh by (simp only: add_or_panic_Some_iff add.commute)
  obtain vs where vs: "ledger_judge B V L nh (lg_nullifiers L) ordered vs" "staged 0 ordered vs (staging_init L) st"
    using process_txs_judge [OF pt] by (auto simp: staging_init_def)
  note st = vs(2)[unfolded staged_def staging_init_def, simplified]
  obtain ns where ns: "list_all2 (\<lambda>share n. \<exists>v. index_or_panic (lg_validators L) (unat (rs_validator_index share)) = Some v
          \<and> reward_note B nh v share = Some n) (rd_shares rewards) ns"
      "ct_leaves tree = ct_leaves (lg_tree L) @ map cm_bytes (st_staged_cm st) @ map (\<lambda>n. cm_bytes (commitment B n)) ns"
      "ct_anchors tree = ct_anchors (lg_tree L)" "wf_tree B tree = wf_tree B (lg_tree L)"
      "unat (lg_supply L') = unat (lg_supply L) + sum_list (map (\<lambda>s. unat (rs_amount s)) (rd_shares rewards))"
    using mint_loop_Some [OF mint] by auto
  have amts: "map (\<lambda>s. unat (rs_amount s)) (rd_shares rewards) = map (\<lambda>n. unat (note_value n)) ns"
    using ns(1) by (induction rule: list_all2_induct) (auto dest: reward_note_value)
  have below: "sealed_below tree nh"
    using ledger_inv_sealed_below [OF inv nh] by (simp add: sealed_below_def ns(3))
  note seal = ct_seal_anchors [OF below surjective_pairing]
  have wf: "wf_tree B tree" using inv ns(4) by (simp add: ledger_inv_def)
  have root: "ct_root B tree = ref_root B 0 TREE_DEPTH (ct_leaves tree)" by (rule ct_root_eq_ref_root [OF wf])
  have root': "ct_root B (fst (ct_seal B tree nh)) = ct_root B tree"
    using note_tree.root_cong [of B "fst (ct_seal B tree nh)" tree] wf by simp
  have anchor: "cs_anchor S = current_anchor B L'"
    using seal(1) root' by (simp add: S(2) current_anchor_def lt')
  have win: "a \<in> set (ct_anchors (lg_tree L)) \<longleftrightarrow> ct_anchor_valid (lg_tree L) a" for a
    by (simp add: ct_anchor_valid_def list_ex_iff)
  have "checkpoint_spec B (stateless_ok B V L) (view L) ordered vs ns (view L')"
    unfolding checkpoint_spec_def view_def ledger_view.simps win
    using vs(1) st ns(2,3,5) unh seal root amts nh_eq by (simp add: lt')
  moreover have "ledger_inv B L'"
  proof -
    have "\<exists>n \<le> length (ct_leaves tree). anc_root a = ref_root B 0 TREE_DEPTH (take n (ct_leaves tree))"
      if "a \<in> set (ct_anchors (fst (ct_seal B tree nh)))" for a
    proof (cases "a = snd (ct_seal B tree nh)")
      case True
      then show ?thesis using seal(1) root by (intro exI [of _ "length (ct_leaves tree)"]) simp
    next
      case False
      then have "a \<in> set (ct_anchors (lg_tree L))" using that seal(2) ns(3) by auto
      then obtain n where n: "n \<le> length (ct_leaves (lg_tree L))"
          "anc_root a = ref_root B 0 TREE_DEPTH (take n (ct_leaves (lg_tree L)))"
        using inv by (auto simp: ledger_inv_def)
      then show ?thesis using ns(2) by (intro exI [of _ n]) simp
    qed
    moreover have "map (\<lambda>a. unat (anc_height a)) (ct_anchors (fst (ct_seal B tree nh))) = [Suc (unat nh) - 1024 ..< Suc (unat nh)]"
      unfolding unh using inv ns(3) by (intro ct_seal_window [OF below unh]) (simp add: ledger_inv_def)
    moreover have "last (ct_anchors (fst (ct_seal B tree nh))) = current_anchor B L'"
      using seal(2) anchor S(2) by simp
    ultimately show ?thesis using wf seal(3) by (simp add: ledger_inv_def lt')
  qed
  ultimately show ?thesis using st ns(1) anchor by (auto simp: S)
qed

text \<open>A ledger is a state machine over committed orders; consensus replicates it.\<close>

interpretation ledger_machine: state_machine "\<lambda>L ordered. apply_checkpoint B L ordered V" "ledger_inv B" for B V
  by unfold_locales (use checkpoint_refines in blast)

section \<open>Reachable ledgers\<close>

text \<open>The transactions that a checkpoint accepted, read off its summary.\<close>

definition accepted_by :: "TxV1 list \<Rightarrow> CheckpointSummary \<Rightarrow> TxV1 list" where
  "accepted_by ordered S =
     map snd (filter (\<lambda>(i, tx). i \<notin> fst ` set (cs_rejected S)) (enumerate 0 ordered))"

lemma accepted_txs_filter:
  assumes "length vs = length txs"
  shows "map snd (filter (\<lambda>(j, tx). j \<notin> fst ` set (rejections i vs)) (enumerate i txs)) = accepted_txs vs txs"
  using assms
proof (induction vs txs arbitrary: i rule: list_induct2)
  case (Cons v vs tx txs)
  have "filter (\<lambda>(j, tx). j \<notin> fst ` set (rejections i (v # vs))) (enumerate (Suc i) txs)
      = filter (\<lambda>(j, tx). j \<notin> fst ` set (rejections (Suc i) vs)) (enumerate (Suc i) txs)"
    by (intro filter_cong) (cases v; auto simp: in_set_enumerate_eq)+
  moreover have "i \<notin> fst ` set (rejections (Suc i) vs)" by (auto simp: rejections_index)
  ultimately show ?case using Cons.IH [of "Suc i"] by (cases v) auto
qed simp

text \<open>A chain: a genesis ledger, then checkpoints of transactions with the array shapes of the
  Rust type.  \<open>hist\<close> is every transaction accepted so far, in order.\<close>

inductive chain ::
  "blake3 \<Rightarrow> SpendVerifier \<Rightarrow> (Commitment \<times> u64) list \<Rightarrow> Ledger \<Rightarrow> TxV1 list \<Rightarrow> bool" for B V gs where
  chain_genesis: "genesis B emission validators difficulty_bits gs = Some L \<Longrightarrow> chain B V gs L []"
| chain_step: "chain B V gs L hist \<Longrightarrow> \<forall>tx \<in> set ordered. wf_tx_body tx
    \<Longrightarrow> apply_checkpoint B L ordered V = Some (L', S) \<Longrightarrow> chain B V gs L' (hist @ accepted_by ordered S)"

lemma genesis_loop_Some:
  "genesis_loop t sp gs = Some (t', sp') \<Longrightarrow>
   ct_leaves t' = ct_leaves t @ map (\<lambda>g. cm_bytes (fst g)) gs \<and> ct_anchors t' = ct_anchors t
   \<and> (wf_tree B t' = wf_tree B t) \<and> unat sp' = unat sp + sum_list (map (\<lambda>g. unat (snd g)) gs)"
proof (induction t sp gs rule: genesis_loop.induct)
  case (2 t sp cm v gs)
  then obtain sp1 where "add_or_panic sp v = Some sp1"
      "genesis_loop (fst (ct_append t cm)) sp1 gs = Some (t', sp')"
    by (auto simp: bind_eq_Some_conv)
  with 2(1) [OF this] show ?case
    by (simp add: ct_append_def Let_def wf_tree_def add_or_panic_unat)
qed simp

lemma genesis_view:
  assumes "genesis B emission validators d gs = Some L"
  shows "view L = \<lparr>lv_leaves = map (\<lambda>g. cm_bytes (fst g)) gs, lv_spent = {}, lv_height = 0,
      lv_supply = sum_list (map (\<lambda>g. unat (snd g)) gs),
      lv_window = [\<lparr>anc_height = 0, anc_root = ref_root B 0 TREE_DEPTH (map (\<lambda>g. cm_bytes (fst g)) gs)\<rparr>]\<rparr>"
    and "ledger_inv B L" and "lg_emission L = emission" and "lg_validators L = validators"
proof -
  obtain t sp where g: "genesis_loop (ct_new B) 0 gs = Some (t, sp)"
    and L: "L = \<lparr>lg_tree = fst (ct_seal B t 0), lg_nullifiers = {}, lg_quota = qr_new,
                lg_height = 0, lg_supply = sp, lg_emission = emission,
                lg_validators = validators, lg_difficulty_bits = d\<rparr>"
    using assms by (auto simp: genesis_def bind_eq_Some_conv)
  have t: "ct_leaves t = map (\<lambda>g. cm_bytes (fst g)) gs" "ct_anchors t = []" "wf_tree B t"
      "unat sp = sum_list (map (\<lambda>g. unat (snd g)) gs)"
    using genesis_loop_Some [OF g, of B] by (simp_all add: ct_new_def wf_tree_def)
  have root: "ct_root B t = ref_root B 0 TREE_DEPTH (map (\<lambda>g. cm_bytes (fst g)) gs)"
    using ct_root_eq_ref_root [OF t(3)] t(1) by simp
  have "sealed_below t 0" by (simp add: sealed_below_def t)
  note seal = ct_seal_anchors [OF this surjective_pairing]
  have root': "ct_root B (fst (ct_seal B t 0)) = ct_root B t"
    using note_tree.root_cong [of B "fst (ct_seal B t 0)" t] t(3) by simp
  show "view L = \<lparr>lv_leaves = map (\<lambda>g. cm_bytes (fst g)) gs, lv_spent = {}, lv_height = 0,
      lv_supply = sum_list (map (\<lambda>g. unat (snd g)) gs),
      lv_window = [\<lparr>anc_height = 0, anc_root = ref_root B 0 TREE_DEPTH (map (\<lambda>g. cm_bytes (fst g)) gs)\<rparr>]\<rparr>"
    using seal t root by (simp add: view_def L)
  show "ledger_inv B L"
    using seal t root root' by (auto simp: ledger_inv_def L current_anchor_def intro!: exI [of _ "length gs"])
qed (use assms in \<open>auto simp: genesis_def bind_eq_Some_conv\<close>)

lemma chain_inv: "chain B V gs L hist \<Longrightarrow> ledger_inv B L"
  by (induction rule: chain.induct) (use genesis_view(2) checkpoint_refines in blast)+

lemma stateless_ok_distinct:
  assumes "stateless_ok B V L tx" and "wf_tx_body tx"
  shows "distinct (tx_nullifiers tx)"
proof -
  obtain a b where "tx_nullifiers tx = [a, b]"
    using assms(2) two_elements [of "tx_nullifiers tx"] by (auto simp: wf_defs interface_consts)
  then show ?thesis using assms(1) by (auto simp: validate_stateless_ok_iff)
qed

text \<open>The summary counts the accepted transactions.\<close>

lemma accepted_count:
  assumes "apply_checkpoint B L ordered V = Some (L', S)" and "ledger_inv B L"
  shows "cs_accepted S = length (accepted_by ordered S)"
proof -
  obtain vs ns where vs: "cs_rejected S = rejections 0 vs" "cs_accepted S = length (accepted_txs vs ordered)"
      "checkpoint_spec B (stateless_ok B V L) (view L) ordered vs ns (view L')"
    using checkpoint_refines [OF assms] by blast
  have "length vs = length ordered" using vs(3) judge_length by (auto simp: checkpoint_spec_def)
  then show ?thesis using accepted_txs_filter [of vs ordered 0] vs(1,2) by (simp add: accepted_by_def)
qed

text \<open>A checkpoint of a chain in terms of what it accepted.\<close>

lemma checkpoint_accepts:
  assumes "apply_checkpoint B L ordered V = Some (L', S)" and "ledger_inv B L" and "\<forall>tx \<in> set ordered. wf_tx_body tx"
  shows "lg_nullifiers L' = lg_nullifiers L \<union> set (concat (map tx_nullifiers (accepted_by ordered S)))"
    and "distinct (concat (map tx_nullifiers (accepted_by ordered S)))"
    and "set (concat (map tx_nullifiers (accepted_by ordered S))) \<inter> lg_nullifiers L = {}"
    and "\<forall>tx \<in> set (accepted_by ordered S). ct_anchor_valid (lg_tree L) (tx_anchor tx) \<and> stateless_ok B V L tx
        \<and> (\<forall>rp. tx_antispam tx = LaneQuota rp \<longrightarrow> rp_epoch rp = lg_height L' div EPOCH_LENGTH)"
    and "\<exists>ns. ct_leaves (lg_tree L') = ct_leaves (lg_tree L)
        @ map cm_bytes (concat (map tx_commitments (accepted_by ordered S))) @ map (\<lambda>n. cm_bytes (commitment B n)) ns"
proof -
  obtain vs ns where spec: "checkpoint_spec B (stateless_ok B V L) (view L) ordered vs ns (view L')"
    and rej: "cs_rejected S = rejections 0 vs"
    using checkpoint_refines [OF assms(1,2)] by blast
  have j: "judge (\<lambda>a. a \<in> set (ct_anchors (lg_tree L))) (stateless_ok B V L) (lg_height L' div EPOCH_LENGTH)
      (lg_nullifiers L) ordered vs"
    using spec by (simp add: checkpoint_spec_def view_def)
  have acc: "accepted_by ordered S = accepted_txs vs ordered"
    using accepted_txs_filter [OF judge_length [OF j], of 0] by (simp add: accepted_by_def rej)
  show "lg_nullifiers L' = lg_nullifiers L \<union> set (concat (map tx_nullifiers (accepted_by ordered S)))"
    and "\<exists>ns. ct_leaves (lg_tree L') = ct_leaves (lg_tree L)
        @ map cm_bytes (concat (map tx_commitments (accepted_by ordered S))) @ map (\<lambda>n. cm_bytes (commitment B n)) ns"
    using spec by (auto simp: checkpoint_spec_def view_def acc)
  show "distinct (concat (map tx_nullifiers (accepted_by ordered S)))"
    and "set (concat (map tx_nullifiers (accepted_by ordered S))) \<inter> lg_nullifiers L = {}"
    using judge_no_double_spend [OF j] stateless_ok_distinct assms(3) unfolding acc by blast+
  show "\<forall>tx \<in> set (accepted_by ordered S). ct_anchor_valid (lg_tree L) (tx_anchor tx) \<and> stateless_ok B V L tx
        \<and> (\<forall>rp. tx_antispam tx = LaneQuota rp \<longrightarrow> rp_epoch rp = lg_height L' div EPOCH_LENGTH)"
    using judge_accepted_ok [OF j] by (auto simp: acc ct_anchor_valid_def list_ex_iff)
qed

lemma chain_history:
  assumes "chain B V gs L hist"
  shows "lg_nullifiers L = set (concat (map tx_nullifiers hist)) \<and> distinct (concat (map tx_nullifiers hist))"
  using assms
proof (induction rule: chain.induct)
  case (chain_genesis emission validators difficulty_bits L)
  then have "lv_spent (view L) = {}" using genesis_view(1) by fastforce
  then show ?case by (simp add: view_def)
next
  case (chain_step L hist ordered L' S)
  note acc = checkpoint_accepts [OF chain_step(3) chain_inv [OF chain_step(1)] chain_step(2)]
  show ?case using chain_step.IH acc(1-3) by auto
qed

section \<open>Supply\<close>

definition emission_or_0 :: "EmissionParams \<Rightarrow> nat \<Rightarrow> nat" where
  "emission_or_0 p h = (case emission_at p (word_of_nat h) of Some e \<Rightarrow> unat e | None \<Rightarrow> 0)"

definition validator_weight :: "Ledger \<Rightarrow> nat" where
  "validator_weight L = sum_list (map (\<lambda>v. unat (vi_weight v)) (lg_validators L))"

lemma checkpoint_supply:
  assumes "apply_checkpoint B L ordered V = Some (L', S)" and "length (lg_validators L) < 2 ^ 64"
  shows "lg_emission L' = lg_emission L" and "lg_validators L' = lg_validators L"
    and "unat (lg_height L') = Suc (unat (lg_height L))"
    and "\<exists>e. emission_at (lg_emission L) (lg_height L') = Some e"
    and "unat (lg_supply L') = unat (lg_supply L)
      + (if 0 < validator_weight L then emission_or_0 (lg_emission L) (unat (lg_height L')) else 0)"
proof -
  obtain nh st rewards tree where nh: "add_or_panic (lg_height L) 1 = Some nh"
    and pt: "process_txs B V L nh 0 ordered (staging_init L) = Some st"
    and rd: "reward_descriptor (lg_emission L) nh (map vi_weight (lg_validators L)) = Some rewards"
    and mint: "mint_loop B nh (lg_validators L) (rd_shares rewards) (append_all (lg_tree L) (st_staged_cm st)) (lg_supply L)
       = Some (tree, lg_supply L')"
    and h: "lg_height L' = nh" and same: "lg_emission L' = lg_emission L" "lg_validators L' = lg_validators L"
    by (rule checkpoint_steps [OF assms(1)])
  show "lg_emission L' = lg_emission L" "lg_validators L' = lg_validators L" by (rule same)+
  show "unat (lg_height L') = Suc (unat (lg_height L))" using add_or_panic_unat [OF nh] by (simp add: h)
  obtain e sh where e: "emission_at (lg_emission L) nh = Some e"
      "distribute e (map vi_weight (lg_validators L)) = Some sh" "rd_shares rewards = sh"
    using rd by (auto simp: reward_descriptor_def bind_eq_Some_conv)
  then show "\<exists>e. emission_at (lg_emission L) (lg_height L') = Some e" by (simp add: h)
  have len: "length (map vi_weight (lg_validators L)) < 2 ^ 64" using assms(2) by simp
  have W: "sum_list (map unat (map vi_weight (lg_validators L))) = validator_weight L"
    by (simp add: validator_weight_def comp_def)
  have "sum_list (map (\<lambda>s. unat (rs_amount s)) sh) = (if 0 < validator_weight L then unat e else 0)"
  proof (cases "0 < validator_weight L")
    case True
    then show ?thesis
      using distribute_eq [OF len, of e] sum_share_amount [of "map vi_weight (lg_validators L)" e] e(2) W by auto
  next
    case False
    then show ?thesis using distribute_zero_weight [OF len, of e] e(2) W by simp
  qed
  then show "unat (lg_supply L') = unat (lg_supply L)
      + (if 0 < validator_weight L then emission_or_0 (lg_emission L) (unat (lg_height L')) else 0)"
    using mint_loop_Some [OF mint] e by (auto simp: emission_or_0_def h)
qed

lemma chain_supply:
  assumes "chain B V gs L hist" and "length (lg_validators L) < 2 ^ 64"
  shows "unat (lg_supply L) = sum_list (map (\<lambda>g. unat (snd g)) gs)
      + (if 0 < validator_weight L then \<Sum>h = 1..unat (lg_height L). emission_or_0 (lg_emission L) h else 0)
    \<and> (\<forall>h \<in> {1..unat (lg_height L)}. emission_at (lg_emission L) (word_of_nat h) \<noteq> None)"
  using assms
proof (induction rule: chain.induct)
  case (chain_genesis emission validators difficulty_bits L)
  then have "lv_supply (view L) = sum_list (map (\<lambda>g. unat (snd g)) gs)" "lv_height (view L) = 0"
    using genesis_view(1) by fastforce+
  then show ?case by (simp add: view_def)
next
  case (chain_step L hist ordered L' S)
  have len: "length (lg_validators L) < 2 ^ 64"
    using chain_step.prems by (metis checkpoint_steps [OF chain_step(3)])
  note step = checkpoint_supply [OF chain_step(3) len]
  have W: "validator_weight L' = validator_weight L" by (simp add: validator_weight_def step(2))
  have h: "word_of_nat (Suc (unat (lg_height L))) = lg_height L'" unfolding step(3) [symmetric] by simp
  show ?case
    using chain_step.IH [OF len] step(4,5) h
    by (auto simp: step(1,3) W atLeastAtMostSuc_conv le_Suc_eq)
qed

lemma those_map_Some: "those (map Some xs) = Some xs"
  by (induction xs) auto

lemma those_SomeD: "those xs = Some ys \<Longrightarrow> xs = map Some ys"
  by (induction xs arbitrary: ys) (auto split: option.splits)

lemma chain_audit:
  assumes "chain B V gs L hist" and "length (lg_validators L) < 2 ^ 64" and "0 < validator_weight L"
  shows "audit_supply L (word_of_nat (sum_list (map (\<lambda>g. unat (snd g)) gs))) = Some True"
proof -
  let ?em = "lg_emission L" and ?H = "unat (lg_height L)" and ?G = "sum_list (map (\<lambda>g. unat (snd g)) gs)"
  let ?hs = "[1 ..< Suc ?H]"
  have sup: "unat (lg_supply L) = ?G + (\<Sum>h = 1..?H. emission_or_0 ?em h)"
    and some: "\<forall>h \<in> {1..?H}. emission_at ?em (word_of_nat h) \<noteq> None"
    using chain_supply [OF assms(1,2)] assms(3) by auto
  define es where "es = map (\<lambda>h. the (emission_at ?em (word_of_nat h))) ?hs"
  have "map (\<lambda>h. emission_at ?em (word_of_nat h)) ?hs = map Some es"
    using some by (auto simp: es_def simp del: upt_Suc)
  then have those_es: "those (map (\<lambda>h. emission_at ?em (word_of_nat h)) ?hs) = Some es"
    by (metis those_map_Some)
  have "map unat es = map (emission_or_0 ?em) ?hs"
    using some by (force simp: es_def emission_or_0_def simp del: upt_Suc)
  then have sum_es: "sum_list (map unat es) = (\<Sum>h = 1..?H. emission_or_0 ?em h)"
    by (simp only: sum_list_distinct_conv_sum_set distinct_upt set_upt atLeastLessThanSuc_atLeastAtMost)
  have bound: "?G + sum_list (map unat es) < 2 ^ 64" using sup sum_es unat_u64_less [of "lg_supply L"] by simp
  then obtain m where m: "sum_or_panic es = Some m" using sum_or_panic_exists [of es] by auto
  then have um: "unat m = sum_list (map unat es)" by (simp add: sum_or_panic_Some_iff)
  have ug: "unat (word_of_nat ?G :: u64) = ?G" using bound by (intro unat_word_of_nat_less) simp
  have "add_or_panic (word_of_nat ?G) m = Some (lg_supply L)"
    using sup sum_es um ug bound by (auto simp: add_or_panic_def word_unat_eq_iff unat_word_ariths)
  then show ?thesis using those_es m by (simp add: audit_supply_def del: upt_Suc)
qed

section \<open>Checkpoints that do not panic\<close>

definition quota_reduced :: "QuotaRegistry \<Rightarrow> bool" where
  "quota_reduced reg \<longleftrightarrow> (\<forall>k x y. qr_seen reg k = Some (x, y) \<longrightarrow> uint x < p61 \<and> uint y < p61)"

lemma admit_total:
  assumes "quota_reduced reg" and "uint (rp_x p) < p61" and "uint (rp_y p) < p61"
  shows "\<exists>reg' v. admit reg p = Some (reg', v) \<and> quota_reduced reg'"
proof (cases "qr_seen reg (rp_epoch p, rp_rate_nullifier p)")
  case None
  then show ?thesis using assms by (auto simp: admit_fresh quota_reduced_def)
next
  case (Some xy)
  then obtain x0 y0 where xy: "qr_seen reg (rp_epoch p, rp_rate_nullifier p) = Some (x0, y0)" by (cases xy) auto
  have red: "uint x0 < p61" "uint y0 < p61" using assms(1) xy by (auto simp: quota_reduced_def)
  obtain dx dy where d: "field_sub (rp_x p) x0 = Some dx" "field_sub (rp_y p) y0 = Some dy"
    using gf61.sub_reduced [OF red(1), of "rp_x p"] gf61.sub_reduced [OF red(2), of "rp_y p"] by auto
  have "uint (field_mul (field_mul dy (field_inv dx)) x0) < p61" by (simp add: gf61.rep_mul)
  from gf61.sub_reduced [OF this, of y0] obtain a where "field_sub y0 (field_mul (field_mul dy (field_inv dx)) x0) = Some a" by auto
  with d xy assms(1) show ?thesis by (auto simp: admit_def Let_def)
qed

lemma process_txs_total:
  assumes "quota_reduced (st_quota st)" and "\<forall>tx \<in> set txs. \<forall>rp. tx_antispam tx = LaneQuota rp \<longrightarrow> uint (rp_y rp) < p61"
  shows "\<exists>st'. process_txs B V L nh i txs st = Some st' \<and> quota_reduced (st_quota st')"
  using assms
proof (induction txs arbitrary: i st)
  case (Cons tx txs)
  have "\<exists>st1. process_tx B V L nh i tx st = Some st1 \<and> quota_reduced (st_quota st1)"
  proof (cases "stateless_ok B V L tx")
    case False
    then show ?thesis using Cons.prems by (auto simp: process_tx_def reject_def split: sum.split)
  next
    case True
    have "\<exists>reg ok. quota_check nh (tx_antispam tx) (st_quota st) = Some (reg, ok) \<and> quota_reduced reg"
    proof (cases "tx_antispam tx")
      case (LaneQuota rp)
      then have "uint (rp_x rp) < p61" "uint (rp_y rp) < p61"
        using True Cons.prems(2) by (auto simp: validate_stateless_ok_iff quota_values_reduced)
      from admit_total [OF Cons.prems(1) this] show ?thesis
        using Cons.prems(1) by (auto simp: quota_check_def LaneQuota)
    qed (use Cons.prems(1) in \<open>auto simp: quota_check_def\<close>)
    with True Cons.prems(1) show ?thesis by (auto simp: process_tx_def reject_def accept_def)
  qed
  then show ?case using Cons.IH Cons.prems(2) by fastforce
qed simp

lemma mint_loop_total:
  assumes "unat sp + sum_list (map (\<lambda>s. unat (rs_amount s)) shares) < 2 ^ 64"
    and "\<forall>s \<in> set shares. unat (rs_validator_index s) < length vs \<and> unat (rs_validator_index s) < 128"
  shows "\<exists>r. mint_loop B nh vs shares tree sp = Some r"
  using assms
proof (induction shares arbitrary: tree sp)
  case (Cons s shares)
  have "unat (ucast (rs_validator_index s) :: u8) = unat (rs_validator_index s)"
    using Cons.prems(2) by (simp add: unsigned_ucast_eq take_bit_nat_eq_self)
  then have "\<exists>n. reward_note B nh v s = Some n" for v
    using Cons.prems(2) by (simp add: reward_note_def add_or_panic_def)
  moreover obtain sp1 where sp1: "add_or_panic sp (rs_amount s) = Some sp1"
    using Cons.prems(1) by (simp add: add_or_panic_def)
  moreover have "\<exists>r. mint_loop B nh vs shares t sp1 = Some r" for t
    using Cons.IH [of sp1 t] Cons.prems add_or_panic_unat [OF sp1] by simp
  ultimately show ?case using Cons.prems(2) by (simp add: index_or_panic_def) (metis bind.bind_lunit)
qed simp

lemma checkpoint_total:
  assumes height: "unat (lg_height L) + 1 < 2 ^ 64"
    and em: "em_half_life (lg_emission L) \<noteq> 0" "em_e_tail (lg_emission L) \<le> em_e0 (lg_emission L)"
    and vs: "length (lg_validators L) \<le> 128"
    and sup: "unat (lg_supply L) + unat (em_e0 (lg_emission L)) < 2 ^ 64"
    and quota: "quota_reduced (lg_quota L)"
      "\<forall>tx \<in> set ordered. \<forall>rp. tx_antispam tx = LaneQuota rp \<longrightarrow> uint (rp_y rp) < p61"
  shows "\<exists>r. apply_checkpoint B L ordered V = Some r"
proof -
  let ?ws = "map vi_weight (lg_validators L)"
  obtain nh where nh: "add_or_panic (lg_height L) 1 = Some nh" using height by (simp add: add_or_panic_def)
  obtain st where st: "process_txs B V L nh 0 ordered (staging_init L) = Some st"
    using process_txs_total [of "staging_init L" ordered B V L nh 0] quota by (auto simp: staging_init_def)
  obtain e where e: "emission_at (lg_emission L) nh = Some e"
      "unat e = emission_nat (unat (em_e0 (lg_emission L))) (unat (em_e_tail (lg_emission L))) (unat (em_half_life (lg_emission L))) (unat nh)"
    using emission_at_eq [OF em] by blast
  have "unat e \<le> unat (em_e0 (lg_emission L))"
    using emission_nat_bounds(2) em(2) by (simp add: e(2) word_le_nat_alt)
  moreover have "\<exists>sh. distribute e ?ws = Some sh \<and> sum_list (map (\<lambda>s. unat (rs_amount s)) sh) \<le> unat e
      \<and> (\<forall>s \<in> set sh. unat (rs_validator_index s) < length (lg_validators L))"
  proof (cases "0 < sum_list (map unat ?ws)")
    case True
    then obtain sh where sh: "distribute e ?ws = Some sh" "map rs_validator_index sh = map word_of_nat [0 ..< length ?ws]"
        "map (\<lambda>s. unat (rs_amount s)) sh = map (share_amount e ?ws) [0 ..< length ?ws]"
      using distribute_eq [of ?ws e] vs by auto
    have "\<forall>i \<in> set (map rs_validator_index sh). unat i < length (lg_validators L)"
      unfolding sh(2) using vs by (auto simp: unat_of_nat)
    then have "\<forall>s \<in> set sh. unat (rs_validator_index s) < length (lg_validators L)" by simp
    then show ?thesis using sh sum_share_amount [OF True, of e] by auto
  next
    case False
    then show ?thesis using distribute_zero_weight [of ?ws e] vs by auto
  qed
  then obtain sh where sh: "distribute e ?ws = Some sh" "sum_list (map (\<lambda>s. unat (rs_amount s)) sh) \<le> unat e"
      "\<forall>s \<in> set sh. unat (rs_validator_index s) < length (lg_validators L)" by blast
  ultimately obtain r where "mint_loop B nh (lg_validators L) sh (append_all (lg_tree L) (st_staged_cm st)) (lg_supply L) = Some r"
    using mint_loop_total [of "lg_supply L" sh "lg_validators L" B nh] sup vs by force
  then show ?thesis
    using nh st e(1) sh(1) by (simp add: apply_checkpoint_def reward_descriptor_def Let_def split_beta)
qed

section \<open>Properties\<close>

text \<open>A concrete chain for the witnesses: a genesis note of 5000, one validator, and one checkpoint
  that accepts one transaction.\<close>

definition sample_emission :: EmissionParams where
  "sample_emission = \<lparr>em_e0 = 1000, em_e_tail = 100, em_half_life = 50\<rparr>"

definition sample_notes :: "(Commitment \<times> u64) list" where
  "sample_notes = [(Commitment (replicate 32 1), 5000)]"

definition sample_ledger :: Ledger where
  "sample_ledger = the (genesis zero_hash sample_emission [\<lparr>vi_weight = 1, vi_addr_tag = replicate 32 200\<rparr>] 0 sample_notes)"

definition sample_ledger_tx :: TxV1 where
  "sample_ledger_tx = sample_tx\<lparr>tx_anchor := current_anchor zero_hash sample_ledger\<rparr>"

lemma sample_genesis:
  "genesis zero_hash sample_emission [\<lparr>vi_weight = 1, vi_addr_tag = replicate 32 200\<rparr>] 0 sample_notes = Some sample_ledger"
  by (simp add: sample_ledger_def genesis_def sample_notes_def add_or_panic_def)

lemma sample_ledger_simps:
  "lg_height sample_ledger = 0" "lg_supply sample_ledger = 5000" "lg_emission sample_ledger = sample_emission"
  "lg_validators sample_ledger = [\<lparr>vi_weight = 1, vi_addr_tag = replicate 32 200\<rparr>]"
  "lg_nullifiers sample_ledger = {}" "lg_quota sample_ledger = qr_new" "lg_difficulty_bits sample_ledger = 0"
  by (simp_all add: sample_ledger_def genesis_def sample_notes_def add_or_panic_def)

lemma sample_ledger_inv: "ledger_inv zero_hash sample_ledger"
  by (rule genesis_view(2) [OF sample_genesis])

lemma replicate_less: "0 < n \<Longrightarrow> a < b \<Longrightarrow> replicate n a < replicate n b" for a b :: "'a::order"
  by (cases n) auto

lemma length_ref_root: "digest32 B \<Longrightarrow> length (ref_root B k TREE_DEPTH xs) = 32"
  using ref_root.simps(2) [of B k 31 xs] by (simp add: TREE_DEPTH_def node_hash_def)

lemma sample_ledger_tx_ok:
  "stateless_ok zero_hash (dev_verify zero_hash) sample_ledger sample_ledger_tx" "wf_tx_body sample_ledger_tx"
  "ct_anchor_valid (lg_tree sample_ledger) (tx_anchor sample_ledger_tx)"
proof -
  show "stateless_ok zero_hash (dev_verify zero_hash) sample_ledger sample_ledger_tx"
    by (simp add: validate_stateless_ok_iff sample_ledger_simps sample_ledger_tx_def sample_tx_def dev_verify_def
        dev_tag_def PROOF_BUCKET_def replicate_less)
  have "current_anchor zero_hash sample_ledger = last (ct_anchors (lg_tree sample_ledger))"
      "ct_anchors (lg_tree sample_ledger) \<noteq> []"
    using sample_ledger_inv by (auto simp: ledger_inv_def)
  then show anchor: "ct_anchor_valid (lg_tree sample_ledger) (tx_anchor sample_ledger_tx)"
    by (auto simp: sample_ledger_tx_def ct_anchor_valid_def list_ex_iff)
  have "length (ct_root zero_hash (lg_tree sample_ledger)) = 32"
    using sample_ledger_inv by (simp add: ledger_inv_def ct_root_eq_ref_root length_ref_root)
  then show "wf_tx_body sample_ledger_tx"
    using wf_tx_sample by (simp add: sample_ledger_tx_def wf_defs current_anchor_def)
qed

lemma sample_step:
  obtains L S where "apply_checkpoint zero_hash sample_ledger [sample_ledger_tx] (dev_verify zero_hash) = Some (L, S)"
    "accepted_by [sample_ledger_tx] S = [sample_ledger_tx]"
    "chain zero_hash (dev_verify zero_hash) sample_notes L [sample_ledger_tx]"
    "unat (lg_height L) = 1" "lg_validators L = lg_validators sample_ledger"
proof -
  obtain L S where step: "apply_checkpoint zero_hash sample_ledger [sample_ledger_tx] (dev_verify zero_hash) = Some (L, S)"
    using checkpoint_total [of sample_ledger "[sample_ledger_tx]" zero_hash "dev_verify zero_hash"]
    by (auto simp: sample_ledger_simps sample_emission_def quota_reduced_def qr_new_def sample_ledger_tx_def sample_tx_def)
  obtain nh st where st: "process_txs zero_hash (dev_verify zero_hash) sample_ledger nh 0 [sample_ledger_tx] (staging_init sample_ledger) = Some st"
      "cs_rejected S = st_rejected st"
    using checkpoint_steps [OF step] by metis
  have "tx_antispam sample_ledger_tx = LanePow \<lparr>pow_nonce = 0\<rparr>" by (simp add: sample_ledger_tx_def sample_tx_def)
  then have "st_rejected st = []"
    using st(1) sample_ledger_tx_ok
    by (auto simp: process_tx_def quota_check_def accept_def reject_def staging_init_def sample_ledger_simps list_ex_iff)
  then have acc: "accepted_by [sample_ledger_tx] S = [sample_ledger_tx]" by (simp add: accepted_by_def st(2))
  have "chain zero_hash (dev_verify zero_hash) sample_notes L ([] @ accepted_by [sample_ledger_tx] S)"
    using sample_ledger_tx_ok(2) by (intro chain_step [OF chain_genesis [OF sample_genesis] _ step]) simp
  moreover have "unat (lg_height L) = 1" "lg_validators L = lg_validators sample_ledger"
    using checkpoint_supply(2,3) [OF step] by (simp_all add: sample_ledger_simps)
  ultimately show ?thesis using that step acc by simp
qed

text \<open>C2. Applying a checkpoint refines the normative lifecycle of \<^verbatim>\<open>specs/anchors.md\<close>: on a ledger
  that satisfies the invariant, the method's result is the specification's next state for a
  verdict list that the rule allows.  Leaves are appended in commit order and then the rewards, the
  nullifiers of the accepted transactions are added, the supply grows by the reward values, the
  window keeps the anchors fewer than 1024 checkpoints old plus the reference root of the new
  leaves; the summary reports those verdicts and the new anchor, and the invariant holds again.\<close>

theorem apply_checkpoint_refines_spec:
  assumes "ledger_inv B L" and "apply_checkpoint B L ordered V = Some (L', S)"
  shows "\<exists>vs ns. checkpoint_spec B (stateless_ok B V L) (view L) ordered vs ns (view L')
    \<and> cs_rejected S = rejections 0 vs \<and> cs_accepted S = length (accepted_txs vs ordered)
    \<and> list_all2 (\<lambda>share n. \<exists>v. index_or_panic (lg_validators L) (unat (rs_validator_index share)) = Some v
          \<and> reward_note B (cs_height S) v share = Some n) (rd_shares (cs_rewards S)) ns
    \<and> cs_anchor S = current_anchor B L' \<and> ledger_inv B L'"
  by (rule checkpoint_refines [OF assms(2,1)])

lemma apply_checkpoint_refines_spec_witness:
  "\<exists>L S vs ns. apply_checkpoint zero_hash sample_ledger [sample_ledger_tx] (dev_verify zero_hash) = Some (L, S)
    \<and> checkpoint_spec zero_hash (stateless_ok zero_hash (dev_verify zero_hash) sample_ledger) (view sample_ledger)
        [sample_ledger_tx] vs ns (view L) \<and> cs_rejected S = rejections 0 vs"
proof -
  obtain L S where step: "apply_checkpoint zero_hash sample_ledger [sample_ledger_tx] (dev_verify zero_hash) = Some (L, S)"
    using sample_step by blast
  from apply_checkpoint_refines_spec [OF sample_ledger_inv step] step show ?thesis by blast
qed

text \<open>C5. A checkpoint cannot panic on its own: below the last height, with a valid schedule, at most
  128 validators, supply head-room for one emission, and quota shares that are reduced field
  elements, \<^verbatim>\<open>apply_checkpoint\<close> returns for every ordered list of transactions and every
  verifier.\<close>

theorem apply_checkpoint_total:
  assumes "unat (lg_height L) + 1 < 2 ^ 64"
    and "em_half_life (lg_emission L) \<noteq> 0" and "em_e_tail (lg_emission L) \<le> em_e0 (lg_emission L)"
    and "length (lg_validators L) \<le> 128"
    and "unat (lg_supply L) + unat (em_e0 (lg_emission L)) < 2 ^ 64"
    and "quota_reduced (lg_quota L)"
    and "\<forall>tx \<in> set ordered. \<forall>rp. tx_antispam tx = LaneQuota rp \<longrightarrow> uint (rp_y rp) < p61"
  shows "\<exists>L' S. apply_checkpoint B L ordered V = Some (L', S)"
  using checkpoint_total [OF assms] by auto

lemma apply_checkpoint_total_witness:
  "\<exists>L' S. apply_checkpoint zero_hash sample_ledger [sample_ledger_tx] (dev_verify zero_hash) = Some (L', S)"
  by (rule apply_checkpoint_total)
    (simp_all add: sample_ledger_simps sample_emission_def quota_reduced_def qr_new_def sample_ledger_tx_def sample_tx_def)

text \<open>C1. No double spend, ever: in every ledger reachable from a genesis by checkpoints, the
  nullifiers of all transactions accepted so far are pairwise distinct, within a transaction,
  within a checkpoint and across checkpoints, and the nullifier set is exactly theirs.\<close>

theorem chain_no_double_spend:
  assumes "chain B V gs L hist"
  shows "distinct (concat (map tx_nullifiers hist))
    \<and> (\<forall>nf. nullifier_seen L nf \<longleftrightarrow> nf \<in> set (concat (map tx_nullifiers hist)))"
  using chain_history [OF assms] by (simp add: nullifier_seen_def)

lemma chain_no_double_spend_witness:
  "\<exists>L. chain zero_hash (dev_verify zero_hash) sample_notes L [sample_ledger_tx]
     \<and> nullifier_seen L (Nullifier (replicate 32 1)) \<and> \<not> nullifier_seen L (Nullifier (replicate 32 9))"
proof -
  obtain L where L: "chain zero_hash (dev_verify zero_hash) sample_notes L [sample_ledger_tx]"
    using sample_step by blast
  from chain_no_double_spend [OF L] L show ?thesis
    by (intro exI [of _ L]) (simp add: sample_ledger_tx_def sample_tx_def)
qed

text \<open>C3. The supply audit holds in every reachable ledger whose validators have some weight: the
  supply counter equals the genesis allocation plus every emission to date, and
  \<^verbatim>\<open>audit_supply\<close> returns true without overflowing.\<close>

theorem chain_supply_audited:
  assumes "chain B V gs L hist" and "length (lg_validators L) < 2 ^ 64" and "0 < validator_weight L"
  shows "unat (total_supply L) = sum_list (map (\<lambda>g. unat (snd g)) gs)
      + (\<Sum>h = 1..unat (lg_height L). emission_or_0 (lg_emission L) h)
    \<and> audit_supply L (word_of_nat (sum_list (map (\<lambda>g. unat (snd g)) gs))) = Some True"
  using chain_supply [OF assms(1,2)] chain_audit [OF assms] assms(3) by (simp add: total_supply_def)

lemma chain_supply_audited_witness:
  "\<exists>L. chain zero_hash (dev_verify zero_hash) sample_notes L [sample_ledger_tx] \<and> unat (lg_height L) = 1
     \<and> audit_supply L 5000 = Some True"
proof -
  obtain L where L: "chain zero_hash (dev_verify zero_hash) sample_notes L [sample_ledger_tx]"
      "unat (lg_height L) = 1" "lg_validators L = lg_validators sample_ledger"
    using sample_step by metis
  from chain_supply_audited [OF L(1)] L show ?thesis
    by (intro exI [of _ L]) (simp add: sample_ledger_simps validator_weight_def sample_notes_def)
qed

text \<open>C4. The anchor window of every reachable ledger: for each of the last 1024 heights exactly one
  anchor is valid, no older or future height has one, every valid anchor's root is the root of
  a prefix of the current leaves, and the current anchor is valid.\<close>

theorem chain_anchor_window:
  assumes "chain B V gs L hist"
  shows "map (\<lambda>a. unat (anc_height a)) (filter (lg_anchor_valid L) (ct_anchors (lg_tree L)))
      = [Suc (unat (lg_height L)) - 1024 ..< Suc (unat (lg_height L))]
    \<and> (\<forall>a. lg_anchor_valid L a \<longrightarrow> (\<exists>n \<le> length (ct_leaves (lg_tree L)).
          anc_root a = ref_root B 0 TREE_DEPTH (take n (ct_leaves (lg_tree L)))))
    \<and> lg_anchor_valid L (current_anchor B L)"
proof -
  note inv = chain_inv [OF assms, unfolded ledger_inv_def]
  have valid: "lg_anchor_valid L a \<longleftrightarrow> a \<in> set (ct_anchors (lg_tree L))" for a
    by (auto simp: lg_anchor_valid_def ct_anchor_valid_def list_ex_iff)
  have "filter (lg_anchor_valid L) (ct_anchors (lg_tree L)) = ct_anchors (lg_tree L)"
    by (simp add: valid filter_id_conv)
  moreover have "ct_anchors (lg_tree L) \<noteq> []" using inv by auto
  then have "current_anchor B L \<in> set (ct_anchors (lg_tree L))" using inv last_in_set by metis
  ultimately show ?thesis using inv by (simp add: valid)
qed

lemma chain_anchor_window_witness:
  "\<exists>L. chain zero_hash (dev_verify zero_hash) sample_notes L [sample_ledger_tx]
     \<and> map (\<lambda>a. unat (anc_height a)) (filter (lg_anchor_valid L) (ct_anchors (lg_tree L))) = [0, 1]
     \<and> lg_anchor_valid L (current_anchor zero_hash L)"
proof -
  obtain L where L: "chain zero_hash (dev_verify zero_hash) sample_notes L [sample_ledger_tx]"
      "unat (lg_height L) = 1"
    using sample_step by metis
  from chain_anchor_window [OF L(1)] L show ?thesis by (intro exI [of _ L]) (simp add: upt_rec)
qed

text \<open>C9. An accepted transaction was admissible when it was applied: its anchor was sealed and
  inside the window, it passed stateless validation, and a quota-lane rate proof was for the epoch
  of the new height, no matter what the rest of the checkpoint held.\<close>

theorem accepted_was_admissible:
  assumes "ledger_inv B L" and "\<forall>tx \<in> set ordered. wf_tx_body tx"
    and "apply_checkpoint B L ordered V = Some (L', S)" and "tx \<in> set (accepted_by ordered S)"
  shows "lg_anchor_valid L (tx_anchor tx) \<and> validate_stateless B tx V (lg_difficulty_bits L) = Inr ()
    \<and> (\<forall>rp. tx_antispam tx = LaneQuota rp \<longrightarrow> rp_epoch rp = current_epoch L')"
  using checkpoint_accepts(4) [OF assms(3,1,2)] assms(4) by (simp add: lg_anchor_valid_def current_epoch_def)

lemma accepted_was_admissible_witness:
  "\<exists>L S. apply_checkpoint zero_hash sample_ledger [sample_ledger_tx] (dev_verify zero_hash) = Some (L, S)
     \<and> sample_ledger_tx \<in> set (accepted_by [sample_ledger_tx] S)
     \<and> lg_anchor_valid sample_ledger (tx_anchor sample_ledger_tx)"
proof -
  obtain L S where step: "apply_checkpoint zero_hash sample_ledger [sample_ledger_tx] (dev_verify zero_hash) = Some (L, S)"
      "accepted_by [sample_ledger_tx] S = [sample_ledger_tx]"
    using sample_step by blast
  from accepted_was_admissible [OF sample_ledger_inv _ step(1), of sample_ledger_tx] step sample_ledger_tx_ok(2)
  show ?thesis by auto
qed

text \<open>C39. At the last height of an epoch no quota transaction signed as documented is accepted: the
  documentation has wallets sign rate proofs for \<^verbatim>\<open>current_epoch()\<close>, but the checkpoint
  compares with the epoch of the next height.\<close>

theorem epoch_boundary_rejects_current_epoch:
  assumes "ledger_inv B L" and "\<forall>tx \<in> set ordered. wf_tx_body tx"
    and "apply_checkpoint B L ordered V = Some (L', S)"
    and "unat (lg_height L) mod 100 = 99"
    and "tx_antispam tx = LaneQuota rp" and "rp_epoch rp = current_epoch L"
  shows "tx \<notin> set (accepted_by ordered S)"
proof
  assume "tx \<in> set (accepted_by ordered S)"
  then have "rp_epoch rp = lg_height L' div EPOCH_LENGTH"
    using checkpoint_accepts(4) [OF assms(3,1,2)] assms(5) by blast
  then have "lg_height L div EPOCH_LENGTH = lg_height L' div EPOCH_LENGTH" using assms(6) by (simp add: current_epoch_def)
  then have "unat (lg_height L div EPOCH_LENGTH) = unat (lg_height L' div EPOCH_LENGTH)" by simp
  then have "unat (lg_height L) div 100 = unat (lg_height L') div 100"
    by (simp add: unat_div_distrib EPOCH_LENGTH_def)
  moreover obtain nh where "add_or_panic (lg_height L) 1 = Some nh" "lg_height L' = nh"
    using checkpoint_steps [OF assms(3)] by metis
  then have "unat (lg_height L') = Suc (unat (lg_height L))" using add_or_panic_unat by fastforce
  ultimately have "unat (lg_height L) div 100 = Suc (unat (lg_height L)) div 100" by simp
  then show False using assms(4) by (simp add: div_Suc mod_Suc)
qed

definition boundary_ledger :: Ledger where
  "boundary_ledger = sample_ledger\<lparr>lg_height := 99, lg_tree := (lg_tree sample_ledger)\<lparr>ct_anchors :=
     map (\<lambda>h. \<lparr>anc_height = word_of_nat h, anc_root = ct_root zero_hash (lg_tree sample_ledger)\<rparr>) [0 ..< 100]\<rparr>\<rparr>"

lemma boundary_ledger_inv: "ledger_inv zero_hash boundary_ledger"
proof -
  let ?t = "lg_tree sample_ledger"
  have wf: "wf_tree zero_hash ?t" using sample_ledger_inv by (simp add: ledger_inv_def)
  have root: "ct_root zero_hash (?t\<lparr>ct_anchors := as\<rparr>) = ct_root zero_hash ?t" for as
    by (rule note_tree.root_cong) (use wf in \<open>simp_all add: wf_tree_def\<close>)
  have "last (map f [0 ..< 100]) = f 99" for f :: "nat \<Rightarrow> Anchor" by (simp add: last_map)
  moreover have "map (\<lambda>a. unat (anc_height a)) (map (\<lambda>h. \<lparr>anc_height = word_of_nat h, anc_root = r\<rparr>) [0 ..< 100]) = [0 ..< 100]" for r
    by (rule nth_equalityI) (auto simp: unat_of_nat)
  ultimately show ?thesis
    using wf root
    by (auto simp: ledger_inv_def boundary_ledger_def current_anchor_def wf_tree_def ct_root_eq_ref_root
        intro!: exI [of _ "length (ct_leaves ?t)"])
qed

definition boundary_tx :: TxV1 where
  "boundary_tx = sample_ledger_tx\<lparr>tx_antispam := LaneQuota \<lparr>rp_epoch = 0, rp_rate_nullifier = replicate 32 9, rp_x = 0, rp_y = 0\<rparr>\<rparr>"

lemma epoch_boundary_rejects_current_epoch_witness:
  "\<exists>L S. apply_checkpoint zero_hash boundary_ledger [boundary_tx] (dev_verify zero_hash) = Some (L, S)
     \<and> boundary_tx \<notin> set (accepted_by [boundary_tx] S)"
proof -
  obtain L S where step: "apply_checkpoint zero_hash boundary_ledger [boundary_tx] (dev_verify zero_hash) = Some (L, S)"
    using checkpoint_total [of boundary_ledger "[boundary_tx]" zero_hash "dev_verify zero_hash"]
    by (auto simp: boundary_ledger_def sample_ledger_simps sample_emission_def quota_reduced_def qr_new_def boundary_tx_def)
  have "\<forall>tx \<in> set [boundary_tx]. wf_tx_body tx" using sample_ledger_tx_ok(2) by (simp add: boundary_tx_def wf_defs)
  from epoch_boundary_rejects_current_epoch [OF boundary_ledger_inv this step] step show ?thesis
    by (simp add: boundary_tx_def boundary_ledger_def current_epoch_def EPOCH_LENGTH_def)
qed

text \<open>C28. More than 128 validators halt the chain: with at least 129 validators (fewer than \<open>2 ^ 32\<close>) of
  positive total weight every checkpoint panics, whatever it contains, because the reward note of
  validator 128 adds 128 to an eight-bit index.\<close>

theorem too_many_validators_panic:
  assumes "128 < length (lg_validators L)" and "length (lg_validators L) < 2 ^ 32" and "0 < validator_weight L"
  shows "apply_checkpoint B L ordered V = None"
proof (rule ccontr)
  assume "apply_checkpoint B L ordered V \<noteq> None"
  then obtain L' S where step: "apply_checkpoint B L ordered V = Some (L', S)" by auto
  obtain nh st rewards tree where nh: "add_or_panic (lg_height L) 1 = Some nh"
    and pt: "process_txs B V L nh 0 ordered (staging_init L) = Some st"
    and rd: "reward_descriptor (lg_emission L) nh (map vi_weight (lg_validators L)) = Some rewards"
    and mint: "mint_loop B nh (lg_validators L) (rd_shares rewards) (append_all (lg_tree L) (st_staged_cm st)) (lg_supply L)
       = Some (tree, lg_supply L')"
    by (rule checkpoint_steps [OF step])
  let ?ws = "map vi_weight (lg_validators L)"
  obtain e where "distribute e ?ws = Some (rd_shares rewards)"
    using rd by (auto simp: reward_descriptor_def bind_eq_Some_conv)
  moreover have "0 < sum_list (map unat ?ws)" using assms(3) by (simp add: validator_weight_def comp_def)
  ultimately have idx: "map rs_validator_index (rd_shares rewards) = map word_of_nat [0 ..< length (lg_validators L)]"
    using distribute_eq [of ?ws e] assms(2) by auto
  then have len: "length (rd_shares rewards) = length (lg_validators L)" by (metis length_map length_upt minus_nat.diff_0)
  let ?s = "rd_shares rewards ! 128"
  have s128: "rs_validator_index ?s = 128"
    using arg_cong [OF idx, of "\<lambda>xs. xs ! 128"] assms(1) len by simp
  have "\<exists>v n. reward_note B nh v ?s = Some n"
    using mint_loop_Some [OF mint] len assms(1) by (fastforce simp: list_all2_conv_all_nth)
  then show False by (simp add: reward_note_def s128 add_or_panic_def)
qed

lemma too_many_validators_panic_witness:
  "apply_checkpoint zero_hash (sample_ledger\<lparr>lg_validators := replicate 129 \<lparr>vi_weight = 1, vi_addr_tag = []\<rparr>\<rparr>) []
     (dev_verify zero_hash) = None"
  by (rule too_many_validators_panic) (simp_all add: validator_weight_def sum_list_replicate)

text \<open>Without validator weight the supply audit fails: a checkpoint then mints nothing, but
  the audit still counts the emission of its height.\<close>

theorem unweighted_checkpoint_fails_audit:
  assumes "chain B V gs L hist" and "length (lg_validators L) < 2 ^ 64" and "validator_weight L = 0"
    and "audit_supply L (word_of_nat (sum_list (map (\<lambda>g. unat (snd g)) gs))) = Some ok"
    and "0 < emission_or_0 (lg_emission L) h" and "1 \<le> h" and "h \<le> unat (lg_height L)"
  shows "\<not> ok"
proof -
  let ?em = "lg_emission L" and ?H = "unat (lg_height L)" and ?G = "sum_list (map (\<lambda>g. unat (snd g)) gs)"
  have sup: "unat (lg_supply L) = ?G" using chain_supply [OF assms(1,2)] assms(3) by simp
  obtain es m x where a: "those (map (\<lambda>h. emission_at ?em (word_of_nat h)) [1 ..< Suc ?H]) = Some es"
      "sum_or_panic es = Some m" "add_or_panic (word_of_nat ?G) m = Some x" "ok \<longleftrightarrow> lg_supply L = x"
    using assms(4) by (auto simp: audit_supply_def bind_eq_Some_conv simp del: upt_Suc)
  have es: "map (\<lambda>h. emission_at ?em (word_of_nat h)) [1 ..< Suc ?H] = map Some es"
    using a(1) by (rule those_SomeD)
  have "emission_at ?em (word_of_nat h) \<in> set (map Some es)"
    unfolding es [symmetric] using assms(6,7) by (auto simp del: upt_Suc)
  then have "emission_or_0 ?em h \<in> set (map unat es)" by (auto simp: emission_or_0_def)
  then have "0 < unat m"
    using a(2) assms(5) member_le_sum_list [of "emission_or_0 ?em h" "map unat es"]
    by (simp add: sum_or_panic_Some_iff)
  moreover have "unat (word_of_nat ?G :: u64) = ?G"
    using sup unat_u64_less [of "lg_supply L"] by (intro unat_word_of_nat_less) simp
  ultimately have "unat (lg_supply L) < unat x" using add_or_panic_unat [OF a(3)] sup by simp
  then show ?thesis using a(4) by auto
qed

lemma unweighted_checkpoint_fails_audit_witness:
  "\<exists>L. chain zero_hash (dev_verify zero_hash) sample_notes L [] \<and> unat (lg_height L) = 1
     \<and> audit_supply L 5000 = Some False"
proof -
  define G where "G = sample_ledger\<lparr>lg_validators := []\<rparr>"
  have gen: "genesis zero_hash sample_emission [] 0 sample_notes = Some G"
    by (simp add: G_def sample_ledger_def genesis_def sample_notes_def add_or_panic_def)
  obtain L S where step: "apply_checkpoint zero_hash G [] (dev_verify zero_hash) = Some (L, S)"
    using checkpoint_total [of G "[]" zero_hash "dev_verify zero_hash"]
    by (auto simp: G_def sample_ledger_simps sample_emission_def quota_reduced_def qr_new_def)
  note sup = checkpoint_supply [OF step]
  have L: "lg_emission L = sample_emission" "lg_validators L = []" "unat (lg_height L) = 1"
    using sup(1-3) by (simp_all add: G_def sample_ledger_simps)
  have "chain zero_hash (dev_verify zero_hash) sample_notes L ([] @ accepted_by [] S)"
    by (intro chain_step [OF chain_genesis [OF gen] _ step]) simp
  then have chain: "chain zero_hash (dev_verify zero_hash) sample_notes L []" by (simp add: accepted_by_def)
  have e1: "emission_at sample_emission 1 = Some 991"
    by (simp add: emission_at_def sample_emission_def sub_or_panic_def decay_factor_def SCALE_def add_or_panic_def)
  then have "audit_supply L 5000 = Some (lg_supply L = 5991)"
    by (simp add: audit_supply_def L sum_or_panic_def add_or_panic_def upt_rec)
  with unweighted_checkpoint_fails_audit [OF chain, of _ 1] chain L e1 show ?thesis
    by (intro exI [of _ L]) (simp add: validator_weight_def sample_notes_def emission_or_0_def)
qed

end
