(* ===== verification/Storage.thy ===== *)
theory Storage
  imports Commitment_Tree
begin

text \<open>
  \<^verbatim>\<open>crates/storage\<close>: the persistent store.  The database \<^verbatim>\<open>redb\<close> is a third-party package:
  its calls are the fields of the parameter record \<open>redb\<close>, over abstract types of databases,
  write transactions and read snapshots, and each call may fail with a message.  What the code
  relies on (a write transaction sees and changes the tables, commit publishes them, a snapshot
  reads them in key order) is the predicate \<open>redb_ok\<close>, stated through the contents of the
  three tables.  \<^verbatim>\<open>db_err!\<close> wraps a failure into \<open>StoreError\<close>, and \<^verbatim>\<open>?\<close> is \<open>sbind\<close>.
\<close>

section \<open>The database library as a parameter\<close>

datatype tbl = NULLIFIERS | LEAVES | META

record ('db, 'txn, 'snap) redb =
  rb_create :: "string \<Rightarrow> string + 'db"
  rb_begin_write :: "'db \<Rightarrow> string + 'txn"
  rb_open_table :: "'txn \<Rightarrow> tbl \<Rightarrow> string + 'txn"
  rb_insert_leaf :: "'txn \<Rightarrow> u64 \<Rightarrow> bytes \<Rightarrow> string + 'txn"
  rb_insert_nf :: "'txn \<Rightarrow> bytes \<Rightarrow> u64 \<Rightarrow> string + 'txn"
  rb_insert_meta :: "'txn \<Rightarrow> string \<Rightarrow> u64 \<Rightarrow> string + 'txn"
  rb_commit :: "'txn \<Rightarrow> string + 'db"
  rb_begin_read :: "'db \<Rightarrow> string + 'snap"
  rb_open_read :: "'snap \<Rightarrow> tbl \<Rightarrow> string + unit"
  rb_get_meta :: "'snap \<Rightarrow> string \<Rightarrow> string + u64 option"
  rb_get_nf :: "'snap \<Rightarrow> bytes \<Rightarrow> string + u64 option"
  rb_len_nf :: "'snap \<Rightarrow> string + u64"
  rb_iter_leaves :: "'snap \<Rightarrow> string + (string + u64 \<times> bytes) list"
  rb_iter_nf :: "'snap \<Rightarrow> string + (string + bytes \<times> u64) list"

record tables =
  tb_leaves :: "u64 \<rightharpoonup> bytes"
  tb_nfs :: "bytes \<rightharpoonup> u64"
  tb_meta :: "string \<rightharpoonup> u64"

definition no_tables :: tables where
  "no_tables = \<lparr>tb_leaves = Map.empty, tb_nfs = Map.empty, tb_meta = Map.empty\<rparr>"

section \<open>The store\<close>

datatype StoreError = Db string

definition db_err :: "string + 'a \<Rightarrow> StoreError + 'a" where
  "db_err r = (case r of Inl e \<Rightarrow> Inl (Db e) | Inr x \<Rightarrow> Inr x)"

definition sbind :: "'e + 'a \<Rightarrow> ('a \<Rightarrow> 'e + 'b) \<Rightarrow> 'e + 'b" where
  "sbind r f = (case r of Inl e \<Rightarrow> Inl e | Inr x \<Rightarrow> f x)"

text \<open>A \<^verbatim>\<open>for\<close> loop whose body ends in \<^verbatim>\<open>?\<close>.\<close>

fun sfold :: "('a \<Rightarrow> 's \<Rightarrow> 'e + 's) \<Rightarrow> 'a list \<Rightarrow> 's \<Rightarrow> 'e + 's" where
  "sfold f [] s = Inr s"
| "sfold f (x # xs) s = sbind (f x s) (sfold f xs)"

definition store_open :: "('db, 'txn, 'snap) redb \<Rightarrow> string \<Rightarrow> StoreError + 'db" where
  "store_open R path =
     sbind (db_err (rb_create R path)) (\<lambda>db.
     sbind (db_err (rb_begin_write R db)) (\<lambda>w.
     sbind (db_err (rb_open_table R w NULLIFIERS)) (\<lambda>w.
     sbind (db_err (rb_open_table R w LEAVES)) (\<lambda>w.
     sbind (db_err (rb_open_table R w META)) (\<lambda>w.
     db_err (rb_commit R w))))))"

definition commit_checkpoint ::
  "('db, 'txn, 'snap) redb \<Rightarrow> 'db \<Rightarrow> u64 \<Rightarrow> u64 \<Rightarrow> (u64 \<times> Commitment) list \<Rightarrow> Nullifier list \<Rightarrow> StoreError + 'db" where
  "commit_checkpoint R db height supply new_leaves new_nullifiers =
     sbind (db_err (rb_begin_write R db)) (\<lambda>w.
     sbind (db_err (rb_open_table R w LEAVES)) (\<lambda>w.
     sbind (sfold (\<lambda>(pos, cm) w. db_err (rb_insert_leaf R w pos (cm_bytes cm))) new_leaves w) (\<lambda>w.
     sbind (db_err (rb_open_table R w NULLIFIERS)) (\<lambda>w.
     sbind (sfold (\<lambda>nf w. db_err (rb_insert_nf R w (nf_bytes nf) height)) new_nullifiers w) (\<lambda>w.
     sbind (db_err (rb_open_table R w META)) (\<lambda>w.
     sbind (db_err (rb_insert_meta R w ''height'' height)) (\<lambda>w.
     sbind (db_err (rb_insert_meta R w ''supply'' supply)) (\<lambda>w.
     db_err (rb_commit R w)))))))))"

definition set_meta :: "('db, 'txn, 'snap) redb \<Rightarrow> 'db \<Rightarrow> string \<Rightarrow> u64 \<Rightarrow> StoreError + 'db" where
  "set_meta R db key v =
     sbind (db_err (rb_begin_write R db)) (\<lambda>w.
     sbind (db_err (rb_open_table R w META)) (\<lambda>w.
     sbind (db_err (rb_insert_meta R w key v)) (\<lambda>w.
     db_err (rb_commit R w))))"

definition meta :: "('db, 'txn, 'snap) redb \<Rightarrow> 'db \<Rightarrow> string \<Rightarrow> StoreError + u64 option" where
  "meta R db key =
     sbind (db_err (rb_begin_read R db)) (\<lambda>r.
     sbind (db_err (rb_open_read R r META)) (\<lambda>_.
     db_err (rb_get_meta R r key)))"

definition contains_nullifier :: "('db, 'txn, 'snap) redb \<Rightarrow> 'db \<Rightarrow> Nullifier \<Rightarrow> StoreError + bool" where
  "contains_nullifier R db nf =
     sbind (db_err (rb_begin_read R db)) (\<lambda>r.
     sbind (db_err (rb_open_read R r NULLIFIERS)) (\<lambda>_.
     sbind (db_err (rb_get_nf R r (nf_bytes nf))) (\<lambda>v. Inr (v \<noteq> None))))"

definition nullifier_count :: "('db, 'txn, 'snap) redb \<Rightarrow> 'db \<Rightarrow> StoreError + u64" where
  "nullifier_count R db =
     sbind (db_err (rb_begin_read R db)) (\<lambda>r.
     sbind (db_err (rb_open_read R r NULLIFIERS)) (\<lambda>_.
     db_err (rb_len_nf R r)))"

definition load_leaves :: "('db, 'txn, 'snap) redb \<Rightarrow> 'db \<Rightarrow> StoreError + bytes list" where
  "load_leaves R db =
     sbind (db_err (rb_begin_read R db)) (\<lambda>r.
     sbind (db_err (rb_open_read R r LEAVES)) (\<lambda>_.
     sbind (db_err (rb_iter_leaves R r)) (\<lambda>items.
     sfold (\<lambda>item out. sbind (db_err item) (\<lambda>(pos, cm).
       if length cm = 32 then Inr (out @ [cm]) else Inl (Db ''bad leaf length''))) items [])))"

definition load_nullifiers :: "('db, 'txn, 'snap) redb \<Rightarrow> 'db \<Rightarrow> StoreError + Nullifier list" where
  "load_nullifiers R db =
     sbind (db_err (rb_begin_read R db)) (\<lambda>r.
     sbind (db_err (rb_open_read R r NULLIFIERS)) (\<lambda>_.
     sbind (db_err (rb_iter_nf R r)) (\<lambda>items.
     sfold (\<lambda>item out. sbind (db_err item) (\<lambda>(nf, height).
       if length nf = 32 then Inr (out @ [Nullifier nf]) else Inl (Db ''bad nullifier length''))) items [])))"

definition load_tree :: "blake3 \<Rightarrow> ('db, 'txn, 'snap) redb \<Rightarrow> 'db \<Rightarrow> StoreError + CommitmentTree" where
  "load_tree B R db = sbind (load_leaves R db) (\<lambda>leaves. Inr (from_raw_leaves B leaves))"

section \<open>What the store relies on\<close>

text \<open>
  \<open>c\<close>, \<open>wc\<close> and \<open>sc\<close> are the table contents of a database, of a write transaction and
  of a snapshot.  A call that succeeds has its documented effect on them.
\<close>

definition redb_ok ::
  "('db, 'txn, 'snap) redb \<Rightarrow> ('db \<Rightarrow> tables) \<Rightarrow> ('txn \<Rightarrow> tables) \<Rightarrow> ('snap \<Rightarrow> tables) \<Rightarrow> bool" where
  "redb_ok R c wc sc \<longleftrightarrow>
     (\<forall>db t. rb_begin_write R db = Inr t \<longrightarrow> wc t = c db)
     \<and> (\<forall>t tb t'. rb_open_table R t tb = Inr t' \<longrightarrow> wc t' = wc t)
     \<and> (\<forall>t k v t'. rb_insert_leaf R t k v = Inr t' \<longrightarrow> wc t' = (wc t)\<lparr>tb_leaves := (tb_leaves (wc t))(k \<mapsto> v)\<rparr>)
     \<and> (\<forall>t k v t'. rb_insert_nf R t k v = Inr t' \<longrightarrow> wc t' = (wc t)\<lparr>tb_nfs := (tb_nfs (wc t))(k \<mapsto> v)\<rparr>)
     \<and> (\<forall>t k v t'. rb_insert_meta R t k v = Inr t' \<longrightarrow> wc t' = (wc t)\<lparr>tb_meta := (tb_meta (wc t))(k \<mapsto> v)\<rparr>)
     \<and> (\<forall>t db. rb_commit R t = Inr db \<longrightarrow> c db = wc t)
     \<and> (\<forall>db s. rb_begin_read R db = Inr s \<longrightarrow> sc s = c db)
     \<and> (\<forall>s k r. rb_get_meta R s k = Inr r \<longrightarrow> r = tb_meta (sc s) k)
     \<and> (\<forall>s k r. rb_get_nf R s k = Inr r \<longrightarrow> r = tb_nfs (sc s) k)
     \<and> (\<forall>s n. rb_len_nf R s = Inr n \<longrightarrow> n = word_of_nat (card (dom (tb_nfs (sc s)))))
     \<and> (\<forall>s xs. rb_iter_leaves R s = Inr (map Inr xs) \<longrightarrow> sorted_wrt (<) (map fst xs) \<and> map_of xs = tb_leaves (sc s))
     \<and> (\<forall>s xs. rb_iter_nf R s = Inr (map Inr xs) \<longrightarrow> sorted_wrt (<) (map fst xs) \<and> map_of xs = tb_nfs (sc s))"

text \<open>A database whose reads do not fail.\<close>

definition readable :: "('db, 'txn, 'snap) redb \<Rightarrow> 'db \<Rightarrow> bool" where
  "readable R db \<longleftrightarrow> (\<exists>s. rb_begin_read R db = Inr s \<and> (\<forall>tb. rb_open_read R s tb = Inr ())
     \<and> (\<forall>k. \<exists>v. rb_get_meta R s k = Inr v) \<and> (\<forall>k. \<exists>v. rb_get_nf R s k = Inr v)
     \<and> (\<exists>xs. rb_iter_leaves R s = Inr (map Inr xs)) \<and> (\<exists>xs. rb_iter_nf R s = Inr (map Inr xs)))"

text \<open>
  A database library whose input and output never fail: \<open>ex\<close> and \<open>wx\<close> are the tables that exist in a database and
  in a write transaction, every call of a write transaction succeeds, opening a table creates it, and a database in
  which all three tables exist can be read.
\<close>

definition redb_works :: "('db, 'txn, 'snap) redb \<Rightarrow> ('db \<Rightarrow> tbl set) \<Rightarrow> ('txn \<Rightarrow> tbl set) \<Rightarrow> bool" where
  "redb_works R ex wx \<longleftrightarrow>
     (\<forall>db. \<exists>t. rb_begin_write R db = Inr t)
     \<and> (\<forall>t tb. \<exists>t'. rb_open_table R t tb = Inr t' \<and> wx t' = insert tb (wx t))
     \<and> (\<forall>t k v. \<exists>t'. rb_insert_leaf R t k v = Inr t' \<and> wx t' = wx t)
     \<and> (\<forall>t k v. \<exists>t'. rb_insert_nf R t k v = Inr t' \<and> wx t' = wx t)
     \<and> (\<forall>t k v. \<exists>t'. rb_insert_meta R t k v = Inr t' \<and> wx t' = wx t)
     \<and> (\<forall>t. \<exists>db. rb_commit R t = Inr db \<and> ex db = wx t)
     \<and> (\<forall>db. ex db = UNIV \<longrightarrow> readable R db \<and> (\<forall>s. rb_begin_read R db = Inr s \<longrightarrow> (\<exists>n. rb_len_nf R s = Inr n)))"

section \<open>Facts\<close>

lemma sbind_Inr_iff [simp]: "sbind r f = Inr y \<longleftrightarrow> (\<exists>x. r = Inr x \<and> f x = Inr y)"
  by (auto simp: sbind_def split: sum.splits)

lemma db_err_Inr_iff [simp]: "db_err r = Inr x \<longleftrightarrow> r = Inr x"
  by (auto simp: db_err_def split: sum.splits)

lemma sbind_Inr [simp]: "sbind (Inr x) f = f x" and db_err_Inr [simp]: "db_err (Inr x) = Inr x"
  by (simp_all add: sbind_def db_err_def)

lemma redb_okD:
  assumes "redb_ok R c wc sc"
  shows "rb_begin_read R db = Inr s \<Longrightarrow> sc s = c db"
    and "rb_get_meta R s key = Inr v \<Longrightarrow> v = tb_meta (sc s) key"
    and "rb_get_nf R s nfb = Inr v \<Longrightarrow> v = tb_nfs (sc s) nfb"
    and "rb_iter_leaves R s = Inr (map Inr lvs) \<Longrightarrow> sorted_wrt (<) (map fst lvs) \<and> map_of lvs = tb_leaves (sc s)"
    and "rb_iter_nf R s = Inr (map Inr nfs) \<Longrightarrow> sorted_wrt (<) (map fst nfs) \<and> map_of nfs = tb_nfs (sc s)"
    and "rb_len_nf R s = Inr n \<Longrightarrow> n = word_of_nat (card (dom (tb_nfs (sc s))))"
  using assms unfolding redb_ok_def by blast+

text \<open>The two insertion loops of a commit.\<close>

lemma sfold_insert_leaves:
  assumes "redb_ok R c wc sc"
    and "sfold (\<lambda>(pos, cm) w. db_err (rb_insert_leaf R w pos (cm_bytes cm))) xs w = Inr w'"
  shows "wc w' = (wc w)\<lparr>tb_leaves := tb_leaves (wc w) ++ map_of (map (\<lambda>(p, cm). (p, cm_bytes cm)) (rev xs))\<rparr>"
  using assms(2)
proof (induction xs arbitrary: w)
  case (Cons x xs)
  obtain p cm where x: "x = (p, cm)" by fastforce
  from Cons.prems obtain w1 where w1: "rb_insert_leaf R w p (cm_bytes cm) = Inr w1"
      "sfold (\<lambda>(pos, cm) w. db_err (rb_insert_leaf R w pos (cm_bytes cm))) xs w1 = Inr w'"
    by (auto simp: x)
  have "wc w1 = (wc w)\<lparr>tb_leaves := (tb_leaves (wc w))(p \<mapsto> cm_bytes cm)\<rparr>"
    using assms(1) w1(1) by (simp add: redb_ok_def)
  with Cons.IH [OF w1(2)] show ?case by (simp add: x map_add_def fun_eq_iff split: option.split)
qed simp

lemma sfold_insert_nfs:
  assumes "redb_ok R c wc sc"
    and "sfold (\<lambda>nf w. db_err (rb_insert_nf R w (nf_bytes nf) h)) xs w = Inr w'"
  shows "wc w' = (wc w)\<lparr>tb_nfs := (\<lambda>k. if k \<in> nf_bytes ` set xs then Some h else tb_nfs (wc w) k)\<rparr>"
  using assms(2)
proof (induction xs arbitrary: w)
  case (Cons nf xs)
  then obtain w1 where w1: "rb_insert_nf R w (nf_bytes nf) h = Inr w1"
      "sfold (\<lambda>nf w. db_err (rb_insert_nf R w (nf_bytes nf) h)) xs w1 = Inr w'" by auto
  have "wc w1 = (wc w)\<lparr>tb_nfs := (tb_nfs (wc w))(nf_bytes nf \<mapsto> h)\<rparr>"
    using assms(1) w1(1) by (simp add: redb_ok_def)
  moreover have "(\<lambda>k. if k \<in> nf_bytes ` set xs then Some h else ((tb_nfs (wc w))(nf_bytes nf \<mapsto> h)) k)
      = (\<lambda>k. if k \<in> nf_bytes ` set (nf # xs) then Some h else tb_nfs (wc w) k)"
    by (rule ext) simp
  ultimately show ?case using Cons.IH [OF w1(2)] by (simp cong: if_cong)
qed simp

lemma commit_checkpoint_tables:
  assumes "redb_ok R c wc sc" and "commit_checkpoint R db h sp lvs nfs = Inr db'"
  shows "c db' = \<lparr>tb_leaves = tb_leaves (c db) ++ map_of (map (\<lambda>(p, cm). (p, cm_bytes cm)) (rev lvs)),
    tb_nfs = (\<lambda>k. if k \<in> nf_bytes ` set nfs then Some h else tb_nfs (c db) k),
    tb_meta = (tb_meta (c db))(''height'' \<mapsto> h, ''supply'' \<mapsto> sp)\<rparr>"
proof -
  from assms(2) obtain w0 w1 w2 w3 w4 w5 w6 w7 where w: "rb_begin_write R db = Inr w0" "rb_open_table R w0 LEAVES = Inr w1"
      "sfold (\<lambda>(pos, cm) w. db_err (rb_insert_leaf R w pos (cm_bytes cm))) lvs w1 = Inr w2"
      "rb_open_table R w2 NULLIFIERS = Inr w3"
      "sfold (\<lambda>nf w. db_err (rb_insert_nf R w (nf_bytes nf) h)) nfs w3 = Inr w4"
      "rb_open_table R w4 META = Inr w5" "rb_insert_meta R w5 ''height'' h = Inr w6"
      "rb_insert_meta R w6 ''supply'' sp = Inr w7" "rb_commit R w7 = Inr db'"
    unfolding commit_checkpoint_def sbind_Inr_iff db_err_Inr_iff by blast
  have wc: "wc w0 = c db" "wc w1 = wc w0" "wc w3 = wc w2" "wc w5 = wc w4" "c db' = wc w7"
      "wc w6 = (wc w5)\<lparr>tb_meta := (tb_meta (wc w5))(''height'' \<mapsto> h)\<rparr>"
      "wc w7 = (wc w6)\<lparr>tb_meta := (tb_meta (wc w6))(''supply'' \<mapsto> sp)\<rparr>"
    using assms(1) w(1,2,4,6-9) by (simp_all add: redb_ok_def)
  show ?thesis
    unfolding wc sfold_insert_nfs [OF assms(1) w(5)] sfold_insert_leaves [OF assms(1) w(3)]
    by (rule tables.equality) (simp_all add: wc cong: if_cong)
qed

lemma set_meta_tables:
  assumes "redb_ok R c wc sc" and "set_meta R db key v = Inr db'"
  shows "c db' = (c db)\<lparr>tb_meta := (tb_meta (c db))(key \<mapsto> v)\<rparr>"
  using assms by (auto simp: redb_ok_def set_meta_def)

lemma store_open_tables:
  assumes "redb_ok R c wc sc" and "rb_create R path = Inr db" and "store_open R path = Inr db'"
  shows "c db' = c db"
proof -
  from assms(2,3) obtain w0 w1 w2 w3 where w: "rb_begin_write R db = Inr w0" "rb_open_table R w0 NULLIFIERS = Inr w1"
      "rb_open_table R w1 LEAVES = Inr w2" "rb_open_table R w2 META = Inr w3" "rb_commit R w3 = Inr db'"
    by (auto simp: store_open_def)
  have "wc w0 = c db" "wc w1 = wc w0" "wc w2 = wc w1" "wc w3 = wc w2" "c db' = wc w3"
    using assms(1) w by (simp_all add: redb_ok_def)
  then show ?thesis by simp
qed

section \<open>Writing\<close>

text \<open>When the library's calls succeed, so do the store's, and all three tables exist afterwards.\<close>

lemma tbl_UNIV: "{NULLIFIERS, LEAVES, META} \<subseteq> A \<Longrightarrow> A = UNIV"
proof -
  assume A: "{NULLIFIERS, LEAVES, META} \<subseteq> A"
  have "t \<in> A" for t using A by (cases t) simp_all
  then show "A = UNIV" by blast
qed

lemma sfold_keeps:
  assumes "\<And>x s. \<exists>s'. f x s = Inr s' \<and> g s' = g s"
  shows "\<exists>s'. sfold f xs s = Inr s' \<and> g s' = g s"
proof (induction xs arbitrary: s)
  case (Cons x xs)
  obtain s1 where s1: "f x s = Inr s1" "g s1 = g s" using assms by blast
  with Cons.IH [of s1] show ?case by simp
qed simp

lemma redb_worksE:
  assumes "redb_works R ex wx"
  shows "\<exists>t. rb_begin_write R db = Inr t" "\<exists>t'. rb_open_table R t tb = Inr t' \<and> wx t' = insert tb (wx t)"
    "\<exists>t'. rb_insert_meta R t key v = Inr t' \<and> wx t' = wx t" "\<exists>db. rb_commit R t = Inr db \<and> ex db = wx t"
    "\<exists>t'. sfold (\<lambda>(pos, cm) w. db_err (rb_insert_leaf R w pos (cm_bytes cm))) lvs t = Inr t' \<and> wx t' = wx t"
    "\<exists>t'. sfold (\<lambda>nf w. db_err (rb_insert_nf R w (nf_bytes nf) h)) nfs t = Inr t' \<and> wx t' = wx t"
    "ex db = UNIV \<Longrightarrow> readable R db \<and> (\<exists>n. nullifier_count R db = Inr n)"
proof -
  note W = assms [unfolded redb_works_def]
  show "\<exists>t. rb_begin_write R db = Inr t" "\<exists>t'. rb_open_table R t tb = Inr t' \<and> wx t' = insert tb (wx t)"
    "\<exists>t'. rb_insert_meta R t key v = Inr t' \<and> wx t' = wx t" "\<exists>db. rb_commit R t = Inr db \<and> ex db = wx t"
    using W by blast+
  show "\<exists>t'. sfold (\<lambda>(pos, cm) w. db_err (rb_insert_leaf R w pos (cm_bytes cm))) lvs t = Inr t' \<and> wx t' = wx t"
    using W by (intro sfold_keeps) (auto split: prod.split)
  show "\<exists>t'. sfold (\<lambda>nf w. db_err (rb_insert_nf R w (nf_bytes nf) h)) nfs t = Inr t' \<and> wx t' = wx t"
    using W by (intro sfold_keeps) simp
  show "readable R db \<and> (\<exists>n. nullifier_count R db = Inr n)" if "ex db = UNIV"
  proof -
    have r: "readable R db" and n: "\<forall>s. rb_begin_read R db = Inr s \<longrightarrow> (\<exists>n. rb_len_nf R s = Inr n)" using W that by blast+
    obtain s where "rb_begin_read R db = Inr s" "rb_open_read R s NULLIFIERS = Inr ()" using r unfolding readable_def by blast
    with r n show ?thesis by (simp add: nullifier_count_def)
  qed
qed

lemma store_open_works:
  assumes "redb_works R ex wx" and "rb_create R path = Inr db"
  shows "\<exists>db'. store_open R path = Inr db' \<and> ex db' = UNIV"
proof -
  note W = redb_worksE [OF assms(1)]
  obtain w0 where "rb_begin_write R db = Inr w0" using W(1) by blast
  moreover obtain w1 where "rb_open_table R w0 NULLIFIERS = Inr w1" "wx w1 = insert NULLIFIERS (wx w0)" using W(2) by blast
  moreover obtain w2 where "rb_open_table R w1 LEAVES = Inr w2" "wx w2 = insert LEAVES (wx w1)" using W(2) by blast
  moreover obtain w3 where "rb_open_table R w2 META = Inr w3" "wx w3 = insert META (wx w2)" using W(2) by blast
  moreover obtain db' where "rb_commit R w3 = Inr db'" "ex db' = wx w3" using W(4) by blast
  ultimately show ?thesis using tbl_UNIV [of "ex db'"] by (simp add: store_open_def assms(2))
qed

lemma commit_checkpoint_works:
  assumes "redb_works R ex wx"
  shows "\<exists>db'. commit_checkpoint R db h sp lvs nfs = Inr db' \<and> ex db' = UNIV"
proof -
  note W = redb_worksE [OF assms]
  obtain w0 where "rb_begin_write R db = Inr w0" using W(1) by blast
  moreover obtain w1 where "rb_open_table R w0 LEAVES = Inr w1" "wx w1 = insert LEAVES (wx w0)" using W(2) by blast
  moreover obtain w2 where "sfold (\<lambda>(pos, cm) w. db_err (rb_insert_leaf R w pos (cm_bytes cm))) lvs w1 = Inr w2" "wx w2 = wx w1" using W(5) by blast
  moreover obtain w3 where "rb_open_table R w2 NULLIFIERS = Inr w3" "wx w3 = insert NULLIFIERS (wx w2)" using W(2) by blast
  moreover obtain w4 where "sfold (\<lambda>nf w. db_err (rb_insert_nf R w (nf_bytes nf) h)) nfs w3 = Inr w4" "wx w4 = wx w3" using W(6) by blast
  moreover obtain w5 where "rb_open_table R w4 META = Inr w5" "wx w5 = insert META (wx w4)" using W(2) by blast
  moreover obtain w6 where "rb_insert_meta R w5 ''height'' h = Inr w6" "wx w6 = wx w5" using W(3) by blast
  moreover obtain w7 where "rb_insert_meta R w6 ''supply'' sp = Inr w7" "wx w7 = wx w6" using W(3) by blast
  moreover obtain db' where "rb_commit R w7 = Inr db'" "ex db' = wx w7" using W(4) by blast
  ultimately show ?thesis using tbl_UNIV [of "ex db'"] by (simp add: commit_checkpoint_def)
qed

section \<open>Reading\<close>

lemma sfold_collect:
  "sfold (\<lambda>item out. sbind (db_err item) (\<lambda>x. if ok x then Inr (out @ [g x]) else Inl e)) (map Inr xs) acc
   = (if \<forall>x \<in> set xs. ok x then Inr (acc @ map g xs) else Inl e)"
  by (induction xs arbitrary: acc) (auto simp: sbind_def)

lemma load_leaves_readable:
  assumes "redb_ok R c wc sc" and "readable R db"
  shows "\<exists>xs. sorted_wrt (<) (map fst xs) \<and> map_of xs = tb_leaves (c db)
    \<and> load_leaves R db = (if \<forall>x \<in> set xs. length (snd x) = 32 then Inr (map snd xs) else Inl (Db ''bad leaf length''))"
proof -
  from assms(2) obtain s xs where s: "rb_begin_read R db = Inr s" "rb_open_read R s LEAVES = Inr ()"
      "rb_iter_leaves R s = Inr (map Inr xs)" unfolding readable_def by blast
  have "sc s = c db" "sorted_wrt (<) (map fst xs)" "map_of xs = tb_leaves (sc s)"
    using redb_okD(1,4) [OF assms(1)] s by blast+
  then show ?thesis
    using sfold_collect [of "\<lambda>x. length (snd x) = 32" snd "Db ''bad leaf length''" xs "[]"]
    by (intro exI [of _ xs]) (simp add: load_leaves_def s case_prod_unfold)
qed

lemma load_nullifiers_readable:
  assumes "redb_ok R c wc sc" and "readable R db"
  shows "\<exists>xs. sorted_wrt (<) (map fst xs) \<and> map_of xs = tb_nfs (c db)
    \<and> load_nullifiers R db = (if \<forall>x \<in> set xs. length (fst x) = 32 then Inr (map (\<lambda>x. Nullifier (fst x)) xs)
         else Inl (Db ''bad nullifier length''))"
proof -
  from assms(2) obtain s xs where s: "rb_begin_read R db = Inr s" "rb_open_read R s NULLIFIERS = Inr ()"
      "rb_iter_nf R s = Inr (map Inr xs)" unfolding readable_def by blast
  have "sc s = c db" "sorted_wrt (<) (map fst xs)" "map_of xs = tb_nfs (sc s)"
    using redb_okD(1,5) [OF assms(1)] s by blast+
  then show ?thesis
    using sfold_collect [of "\<lambda>x. length (fst x) = 32" "\<lambda>x. Nullifier (fst x)" "Db ''bad nullifier length''" xs "[]"]
    by (intro exI [of _ xs]) (simp add: load_nullifiers_def s case_prod_unfold)
qed

lemma meta_readable:
  assumes "redb_ok R c wc sc" and "readable R db"
  shows "meta R db key = Inr (tb_meta (c db) key)"
proof -
  from assms(2) obtain s v where s: "rb_begin_read R db = Inr s" "rb_open_read R s META = Inr ()"
      "rb_get_meta R s key = Inr v" unfolding readable_def by blast
  have "sc s = c db" "v = tb_meta (sc s) key" using redb_okD(1,2) [OF assms(1)] s by blast+
  then show ?thesis by (simp add: meta_def s)
qed

lemma contains_nullifier_readable:
  assumes "redb_ok R c wc sc" and "readable R db"
  shows "contains_nullifier R db nf = Inr (nf_bytes nf \<in> dom (tb_nfs (c db)))"
proof -
  from assms(2) obtain s v where s: "rb_begin_read R db = Inr s" "rb_open_read R s NULLIFIERS = Inr ()"
      "rb_get_nf R s (nf_bytes nf) = Inr v" unfolding readable_def by blast
  have "sc s = c db" "v = tb_nfs (sc s) (nf_bytes nf)" using redb_okD(1,3) [OF assms(1)] s by blast+
  then show ?thesis by (simp add: contains_nullifier_def s domIff)
qed

lemma nullifier_count_tables:
  assumes "redb_ok R c wc sc" and "nullifier_count R db = Inr n"
  shows "n = word_of_nat (card (dom (tb_nfs (c db))))"
proof -
  from assms(2) obtain s where s: "rb_begin_read R db = Inr s" "rb_len_nf R s = Inr n" by (auto simp: nullifier_count_def)
  then show ?thesis using redb_okD(1,6) [OF assms(1)] by metis
qed

section \<open>The store as an interface\<close>

text \<open>
  What the ledger's snapshot code relies on: \<open>commit\<close> writes a checkpoint's rows in one step, and
  the readers return the tables.  \<open>ok\<close> is the condition on the parameters of the provider, and
  \<open>rdb\<close> says that the reads of a database do not fail.
\<close>

definition snapshot_rows :: "bytes list \<Rightarrow> (u64 \<times> Commitment) list" where
  "snapshot_rows leaves = map (\<lambda>(i, l). (word_of_nat i, Commitment l)) (enumerate 0 leaves)"

lemma snapshot_rows_alist:
  "map (\<lambda>(p, cm). (p, cm_bytes cm)) (snapshot_rows leaves) = zip (map word_of_nat [0 ..< length leaves]) leaves"
  by (auto simp: snapshot_rows_def enumerate_eq_zip zip_map1 intro!: map_cong)

lemma sorted_positions: "n \<le> 2 ^ 64 \<Longrightarrow> sorted_wrt (<) (map (word_of_nat :: nat \<Rightarrow> u64) [0 ..< n])"
  by (auto simp: sorted_wrt_iff_nth_less word_less_nat_alt take_bit_nat_eq_self unsigned_of_nat)

lemma set_positions: "n \<le> 2 ^ 64 \<Longrightarrow> set (map (word_of_nat :: nat \<Rightarrow> u64) [0 ..< n]) = {p. unat p < n}"
proof (intro equalityI subsetI)
  fix p :: u64
  assume "p \<in> {p. unat p < n}"
  then have "p = word_of_nat (unat p)" "unat p \<in> {0 ..< n}" by simp_all
  then show "p \<in> set (map word_of_nat [0 ..< n])" unfolding set_map set_upt by (rule image_eqI)
qed (auto simp: unsigned_of_nat take_bit_nat_eq_self)

lemma map_add_covered: "dom m \<subseteq> dom n \<Longrightarrow> m ++ n = n"
  by (rule ext) (auto simp: map_add_def dom_def split: option.split)

locale snapshot_store =
  fixes ok :: bool
    and rdb :: "'db \<Rightarrow> bool"
    and tabs :: "'db \<Rightarrow> tables"
    and commit :: "'db \<Rightarrow> u64 \<Rightarrow> u64 \<Rightarrow> (u64 \<times> Commitment) list \<Rightarrow> Nullifier list \<Rightarrow> 'e + 'db"
    and get :: "'db \<Rightarrow> string \<Rightarrow> 'e + u64 option"
    and get_leaves :: "'db \<Rightarrow> 'e + bytes list"
    and get_nullifiers :: "'db \<Rightarrow> 'e + Nullifier list"
  assumes tabs_commit: "ok \<Longrightarrow> commit db h sp lvs nfs = Inr db'
      \<Longrightarrow> tabs db' = \<lparr>tb_leaves = tb_leaves (tabs db) ++ map_of (map (\<lambda>(p, cm). (p, cm_bytes cm)) (rev lvs)),
            tb_nfs = (\<lambda>k. if k \<in> nf_bytes ` set nfs then Some h else tb_nfs (tabs db) k),
            tb_meta = (tb_meta (tabs db))(''height'' \<mapsto> h, ''supply'' \<mapsto> sp)\<rparr>"
    and get_tabs: "ok \<Longrightarrow> rdb db \<Longrightarrow> get db k = Inr (tb_meta (tabs db) k)"
    and leaves_tabs: "ok \<Longrightarrow> rdb db \<Longrightarrow> sorted_wrt (<) (map fst xs) \<Longrightarrow> map_of xs = tb_leaves (tabs db)
      \<Longrightarrow> (\<forall>x \<in> set xs. length (snd x) = 32) \<Longrightarrow> get_leaves db = Inr (map snd xs)"
    and nullifiers_tabs: "ok \<Longrightarrow> rdb db \<Longrightarrow> (\<forall>k \<in> dom (tb_nfs (tabs db)). length k = 32)
      \<Longrightarrow> \<exists>ns. get_nullifiers db = Inr ns \<and> set ns = Nullifier ` dom (tb_nfs (tabs db))"
begin

lemma snapshot_roundtrip:
  assumes "ok" "commit db h sp (snapshot_rows lvs) nfs = Inr db'" "rdb db'" "length lvs \<le> 2 ^ 64"
    and "\<forall>l \<in> set lvs. length l = 32" "\<forall>nf \<in> set nfs. length (nf_bytes nf) = 32"
    and "dom (tb_leaves (tabs db)) \<subseteq> {p. unat p < length lvs}" "dom (tb_nfs (tabs db)) \<subseteq> nf_bytes ` set nfs"
  shows "get_leaves db' = Inr lvs" and "\<exists>ns. get_nullifiers db' = Inr ns \<and> set ns = set nfs"
    and "get db' ''height'' = Inr (Some h)" and "get db' ''supply'' = Inr (Some sp)"
proof -
  let ?E = "zip (map (word_of_nat :: nat \<Rightarrow> u64) [0 ..< length lvs]) lvs"
  note T = tabs_commit [OF assms(1,2)]
  have srt: "sorted_wrt (<) (map fst ?E)" using sorted_positions [OF assms(4)] by simp
  then have "distinct (map fst ?E)" by (simp only: strict_sorted_iff)
  then have rev: "map_of (rev ?E) = map_of ?E" by (subst map_of_inject_set) (simp_all add: rev_map [symmetric] del: map_fst_zip)
  have "set (map fst ?E) = {p. unat p < length lvs}" using set_positions [OF assms(4)] by simp
  then have dom: "dom (tb_leaves (tabs db)) \<subseteq> dom (map_of ?E)"
    using assms(7) by (simp only: dom_map_of_conv_image_fst set_map)
  have "tb_leaves (tabs db') = tb_leaves (tabs db) ++ map_of ?E"
    unfolding T rev_map [symmetric] snapshot_rows_alist rev by simp
  then have "map_of ?E = tb_leaves (tabs db')" by (simp only: map_add_covered [OF dom])
  moreover have "\<forall>x \<in> set ?E. length (snd x) = 32" using assms(5) by (auto dest: set_zip_rightD)
  ultimately show "get_leaves db' = Inr lvs"
    using leaves_tabs [OF assms(1,3) srt] by simp
  have dn: "dom (tb_nfs (tabs db')) = nf_bytes ` set nfs" using assms(8) by (fastforce simp: T split: if_splits)
  then show "\<exists>ns. get_nullifiers db' = Inr ns \<and> set ns = set nfs"
    using nullifiers_tabs [OF assms(1,3)] assms(6) by (simp add: image_image)
  show "get db' ''height'' = Inr (Some h)" "get db' ''supply'' = Inr (Some sp)"
    by (simp_all add: get_tabs [OF assms(1,3)] T)
qed

end

interpretation redb_store: snapshot_store "redb_ok R c wc sc" "readable R" c "commit_checkpoint R" "meta R"
    "load_leaves R" "load_nullifiers R" for R c wc sc
proof
  fix db :: 'a and xs
  assume ok: "redb_ok R c wc sc" and r: "readable R db"
  show "load_leaves R db = Inr (map snd xs)"
    if "sorted_wrt (<) (map fst xs)" "map_of xs = tb_leaves (c db)" "\<forall>x \<in> set xs. length (snd x) = 32"
    using load_leaves_readable [OF ok r] that sorted_alist_ext by fastforce
  show "\<exists>ns. load_nullifiers R db = Inr ns \<and> set ns = Nullifier ` dom (tb_nfs (c db))"
    if "\<forall>k \<in> dom (tb_nfs (c db)). length k = 32"
  proof -
    obtain ys where ys: "map_of ys = tb_nfs (c db)"
      "load_nullifiers R db = (if \<forall>x \<in> set ys. length (fst x) = 32 then Inr (map (\<lambda>x. Nullifier (fst x)) ys)
         else Inl (Db ''bad nullifier length''))" using load_nullifiers_readable [OF ok r] by blast
    then have "dom (tb_nfs (c db)) = fst ` set ys" by (metis dom_map_of_conv_image_fst)
    with ys(2) that show ?thesis by (simp add: image_image)
  qed
qed (simp_all add: commit_checkpoint_tables meta_readable)

section \<open>Files\<close>

text \<open>
  Files on which no input or output fails: \<open>after file\<close> is the library once the file holds the database \<open>file\<close>.  At
  first the files at \<open>paths\<close> are absent, so that \<^verbatim>\<open>create\<close> gives a database without rows, and later it gives what was written.
\<close>

definition files_ok ::
  "('db, 'txn, 'snap) redb \<Rightarrow> ('db \<Rightarrow> ('db, 'txn, 'snap) redb) \<Rightarrow> ('db \<Rightarrow> tables) \<Rightarrow> ('db \<Rightarrow> tbl set) \<Rightarrow> ('txn \<Rightarrow> tbl set)
   \<Rightarrow> string set \<Rightarrow> bool" where
  "files_ok R after c ex wx paths \<longleftrightarrow> redb_works R ex wx \<and> (\<forall>file. redb_works (after file) ex wx)
     \<and> (\<forall>path \<in> paths. (\<exists>db. rb_create R path = Inr db \<and> c db = no_tables)
          \<and> (\<forall>file. \<exists>db. rb_create (after file) path = Inr db \<and> c db = c file))"

lemma files_open:
  assumes "files_ok R after c ex wx paths" and "path \<in> paths" and "redb_ok R c wc sc" and "\<forall>file. redb_ok (after file) c wc sc"
  shows "\<exists>db. store_open R path = Inr db \<and> c db = no_tables \<and> ex db = UNIV"
    and "\<exists>db. store_open (after file) path = Inr db \<and> c db = c file \<and> ex db = UNIV"
proof -
  note F = assms(1) [unfolded files_ok_def]
  obtain db where "rb_create R path = Inr db" "c db = no_tables" using F assms(2) by blast
  then show "\<exists>db. store_open R path = Inr db \<and> c db = no_tables \<and> ex db = UNIV"
    using store_open_works [of R ex wx path db] store_open_tables [OF assms(3)] F by metis
  obtain db2 where "rb_create (after file) path = Inr db2" "c db2 = c file" using F assms(2) by blast
  then show "\<exists>db. store_open (after file) path = Inr db \<and> c db = c file \<and> ex db = UNIV"
    using store_open_works [of "after file" ex wx path db2] store_open_tables [OF assms(4) [rule_format]] F by metis
qed

section \<open>An in-memory database\<close>

text \<open>Association lists, with the newest row first; iteration is in key order.  It never fails.\<close>

record mem_db =
  mem_leaves :: "(u64 \<times> bytes) list"
  mem_nfs :: "(bytes \<times> u64) list"
  mem_meta :: "(string \<times> u64) list"

definition rows_in_order :: "('k::linorder \<times> 'v) list \<Rightarrow> ('k \<times> 'v) list" where
  "rows_in_order l = map (\<lambda>k. (k, the (map_of l k))) (sort (remdups (map fst l)))"

definition mem_redb :: "(mem_db, mem_db, mem_db) redb" where
  "mem_redb = \<lparr>rb_create = (\<lambda>_. Inr \<lparr>mem_leaves = [], mem_nfs = [], mem_meta = []\<rparr>), rb_begin_write = Inr,
     rb_open_table = (\<lambda>t _. Inr t), rb_insert_leaf = (\<lambda>t k v. Inr (t\<lparr>mem_leaves := (k, v) # mem_leaves t\<rparr>)),
     rb_insert_nf = (\<lambda>t k v. Inr (t\<lparr>mem_nfs := (k, v) # mem_nfs t\<rparr>)),
     rb_insert_meta = (\<lambda>t k v. Inr (t\<lparr>mem_meta := (k, v) # mem_meta t\<rparr>)), rb_commit = Inr, rb_begin_read = Inr,
     rb_open_read = (\<lambda>_ _. Inr ()), rb_get_meta = (\<lambda>s k. Inr (map_of (mem_meta s) k)),
     rb_get_nf = (\<lambda>s k. Inr (map_of (mem_nfs s) k)),
     rb_len_nf = (\<lambda>s. Inr (word_of_nat (length (rows_in_order (mem_nfs s))))),
     rb_iter_leaves = (\<lambda>s. Inr (map Inr (rows_in_order (mem_leaves s)))),
     rb_iter_nf = (\<lambda>s. Inr (map Inr (rows_in_order (mem_nfs s))))\<rparr>"

definition mem_tables :: "mem_db \<Rightarrow> tables" where
  "mem_tables s = \<lparr>tb_leaves = map_of (mem_leaves s), tb_nfs = map_of (mem_nfs s), tb_meta = map_of (mem_meta s)\<rparr>"

lemma rows_in_order_correct:
  "sorted_wrt (<) (map fst (rows_in_order l)) \<and> map_of (rows_in_order l) = map_of l"
proof
  show "sorted_wrt (<) (map fst (rows_in_order l))" by (simp add: rows_in_order_def o_def strict_sorted_iff)
  have "map_of (rows_in_order l) k = map_of l k" for k
    using map_of_eq_None_iff [of l k]
    by (cases "map_of l k") (auto simp: rows_in_order_def map_of_map_restrict restrict_map_def)
  then show "map_of (rows_in_order l) = map_of l" ..
qed

lemma length_rows_in_order: "length (rows_in_order l) = card (dom (map_of l))"
  by (simp add: rows_in_order_def dom_map_of_conv_image_fst length_remdups_card_conv)

lemma mem_redb_ok: "redb_ok mem_redb mem_tables mem_tables mem_tables"
  by (auto simp: redb_ok_def mem_redb_def mem_tables_def rows_in_order_correct length_rows_in_order inj_map_eq_map inj_def)

lemma mem_redb_readable: "readable mem_redb db"
  by (auto simp: readable_def mem_redb_def)

text \<open>An in-memory file: what is written is there when the file is opened again.\<close>

definition mem_after :: "mem_db \<Rightarrow> (mem_db, mem_db, mem_db) redb" where
  "mem_after file = mem_redb\<lparr>rb_create := \<lambda>_. Inr file\<rparr>"

lemma mem_after_ok: "redb_ok (mem_after file) mem_tables mem_tables mem_tables"
  using mem_redb_ok by (simp add: redb_ok_def mem_after_def)

lemma mem_files_ok: "files_ok mem_redb mem_after mem_tables (\<lambda>_. UNIV) (\<lambda>_. UNIV) paths"
proof -
  have "readable mem_redb db" "readable (mem_after fl) db" for db fl
    using mem_redb_readable [of db] by (simp_all add: readable_def mem_after_def)
  then have "redb_works mem_redb (\<lambda>_. UNIV) (\<lambda>_. UNIV)" "redb_works (mem_after fl) (\<lambda>_. UNIV) (\<lambda>_. UNIV)" for fl
    by (simp_all add: redb_works_def) (simp_all add: mem_redb_def mem_after_def)
  then show ?thesis by (simp add: files_ok_def) (simp add: mem_redb_def mem_after_def mem_tables_def no_tables_def)
qed

end
