(* ===== verification/Persistence.thy ===== *)
theory Persistence
  imports Ledger Storage
begin

text \<open>
  \<^verbatim>\<open>crates/state\<close>, \<^verbatim>\<open>persist\<close> and \<^verbatim>\<open>restore\<close>: the snapshot of a ledger in the store and the
  restart from it.  The iteration order of the \<^verbatim>\<open>HashSet\<close> of nullifiers is unspecified, so it
  is the parameter \<open>iter\<close>, of which the theorems assume that it lists the elements of the set.
\<close>

section \<open>Snapshot and restart\<close>

definition persist ::
  "('db, 'txn, 'snap) redb \<Rightarrow> (Nullifier set \<Rightarrow> Nullifier list) \<Rightarrow> Ledger \<Rightarrow> 'db \<Rightarrow> StoreError + 'db" where
  "persist R iter L store =
     (let leaves = map (\<lambda>(i, l). (word_of_nat i, Commitment l)) (enumerate 0 (ct_leaves (lg_tree L)));
          nullifiers = iter (lg_nullifiers L)
      in commit_checkpoint R store (lg_height L) (lg_supply L) leaves nullifiers)"

definition unwrap_or :: "'a \<Rightarrow> 'a option \<Rightarrow> 'a" where
  "unwrap_or d v = (case v of None \<Rightarrow> d | Some x \<Rightarrow> x)"

definition restore ::
  "blake3 \<Rightarrow> ('db, 'txn, 'snap) redb \<Rightarrow> 'db \<Rightarrow> EmissionParams \<Rightarrow> ValidatorInfo list \<Rightarrow> u32 \<Rightarrow> StoreError + Ledger" where
  "restore B R store emission validators difficulty_bits =
     sbind (load_tree B R store) (\<lambda>tree.
     sbind (meta R store ''height'') (\<lambda>h.
     let height = unwrap_or 0 h in
     sbind (meta R store ''supply'') (\<lambda>s.
     let supply = unwrap_or 0 s;
         tree = fst (ct_seal B tree height) in
     sbind (load_nullifiers R store) (\<lambda>nfs.
     Inr \<lparr>lg_tree = tree, lg_nullifiers = set nfs, lg_quota = qr_new, lg_height = height,
          lg_supply = supply, lg_emission = emission, lg_validators = validators,
          lg_difficulty_bits = difficulty_bits\<rparr>))))"

section \<open>What a restart keeps\<close>

text \<open>The restarted ledger: everything but the older anchors and the quota registry.\<close>

definition restarted :: "blake3 \<Rightarrow> Ledger \<Rightarrow> Ledger" where
  "restarted B L = L\<lparr>lg_tree := (lg_tree L)\<lparr>ct_anchors := [current_anchor B L]\<rparr>, lg_quota := qr_new\<rparr>"

definition storable :: "Ledger \<Rightarrow> bool" where
  "storable L \<longleftrightarrow> length (ct_leaves (lg_tree L)) \<le> 2 ^ 64 \<and> (\<forall>l \<in> set (ct_leaves (lg_tree L)). length l = 32)
     \<and> (\<forall>nf \<in> lg_nullifiers L. length (nf_bytes nf) = 32)"

text \<open>A store whose rows a snapshot of the ledger overwrites: empty, or of an earlier ledger of the chain.\<close>

definition superseded :: "tables \<Rightarrow> Ledger \<Rightarrow> bool" where
  "superseded T L \<longleftrightarrow> dom (tb_leaves T) \<subseteq> {p. unat p < length (ct_leaves (lg_tree L))}
     \<and> dom (tb_nfs T) \<subseteq> nf_bytes ` lg_nullifiers L"

lemma sealed_once:
  assumes "wf_tree B (lg_tree L)"
  shows "fst (ct_seal B (from_raw_leaves B (ct_leaves (lg_tree L))) (lg_height L))
    = (lg_tree L)\<lparr>ct_anchors := [current_anchor B L]\<rparr>"
proof -
  let ?t = "from_raw_leaves B (ct_leaves (lg_tree L))"
  have root: "ct_root B ?t = ct_root B (lg_tree L)" by (rule note_tree.root_cong) (simp_all add: assms)
  have "sealed_below ?t (lg_height L)" by (simp add: sealed_below_def from_raw_leaves_def ct_new_def)
  note seal = ct_seal_anchors [OF this surjective_pairing, of B]
  have "ct_empty ?t = ct_empty (lg_tree L)" using assms by (simp add: from_raw_leaves_def ct_new_def wf_tree_def)
  then show ?thesis
    using seal root by (intro CommitmentTree.equality) (simp_all add: current_anchor_def from_raw_leaves_def ct_new_def)
qed

lemma restore_after_persist:
  assumes "redb_ok R c wc sc" "wf_tree B (lg_tree L)" "storable L" "superseded (c db) L"
    and iter: "set (iter (lg_nullifiers L)) = lg_nullifiers L"
    and "persist R iter L db = Inr db'" "readable R db'"
  shows "restore B R db' (lg_emission L) (lg_validators L) (lg_difficulty_bits L) = Inr (restarted B L)"
proof -
  have commit: "commit_checkpoint R db (lg_height L) (lg_supply L) (snapshot_rows (ct_leaves (lg_tree L)))
      (iter (lg_nullifiers L)) = Inr db'" using assms(6) by (simp add: persist_def snapshot_rows_def)
  note rt = redb_store.snapshot_roundtrip [OF assms(1) commit assms(7)]
  have "load_leaves R db' = Inr (ct_leaves (lg_tree L))"
      "\<exists>ns. load_nullifiers R db' = Inr ns \<and> set ns = lg_nullifiers L"
      "meta R db' ''height'' = Inr (Some (lg_height L))" "meta R db' ''supply'' = Inr (Some (lg_supply L))"
    using rt assms(3,4) by (simp_all add: storable_def superseded_def iter)
  then obtain ns where *: "load_leaves R db' = Inr (ct_leaves (lg_tree L))" "load_nullifiers R db' = Inr ns"
      "set ns = lg_nullifiers L" "meta R db' ''height'' = Inr (Some (lg_height L))"
      "meta R db' ''supply'' = Inr (Some (lg_supply L))" by blast
  have tree: "fst (ct_seal B (from_raw_leaves B (ct_leaves (lg_tree L))) (lg_height L))
      = (lg_tree L)\<lparr>ct_anchors := [current_anchor B L]\<rparr>"
    by (rule sealed_once [OF assms(2)])
  show ?thesis
    unfolding restore_def load_tree_def by (simp add: * unwrap_or_def tree restarted_def)
qed

section \<open>Shapes of reachable states\<close>

lemma chain_shapes:
  assumes "chain B V gs L hist" and "digest32 B" and "\<forall>g \<in> set gs. wf_cm (fst g)"
  shows "(\<forall>l \<in> set (ct_leaves (lg_tree L)). length l = 32) \<and> (\<forall>nf \<in> lg_nullifiers L. length (nf_bytes nf) = 32)"
  using assms(1)
proof (induction rule: chain.induct)
  case (chain_genesis emission validators difficulty_bits L)
  then show ?case using genesis_view(1) [OF chain_genesis] assms(3) by (auto simp: view_def wf_defs)
next
  case (chain_step L hist ordered L' S)
  note acc = checkpoint_accepts [OF chain_step(3) chain_inv [OF chain_step(1)] chain_step(2)]
  have wf: "wf_tx_body tx" if "tx \<in> set (accepted_by ordered S)" for tx
    using that chain_step(2) by (auto simp: accepted_by_def enumerate_eq_zip dest: set_zip_rightD)
  obtain ns where leaves: "ct_leaves (lg_tree L') = ct_leaves (lg_tree L)
      @ map cm_bytes (concat (map tx_commitments (accepted_by ordered S))) @ map (\<lambda>n. cm_bytes (commitment B n)) ns"
    using acc(5) by blast
  have "length (cm_bytes cm) = 32" if "cm \<in> set (tx_commitments tx)" "tx \<in> set (accepted_by ordered S)" for cm tx
    using wf [OF that(2)] that(1) by (auto simp: wf_defs list_all_iff)
  moreover have "length (nf_bytes nf) = 32" if "nf \<in> set (tx_nullifiers tx)" "tx \<in> set (accepted_by ordered S)" for nf tx
    using wf [OF that(2)] that(1) by (auto simp: wf_defs list_all_iff)
  moreover have "length (cm_bytes (commitment B n)) = 32" for n using assms(2) by (simp add: commitment_def)
  ultimately show ?case using chain_step.IH by (auto simp: leaves acc(1))
qed

lemma chain_storable:
  assumes "chain B V gs L hist" and "digest32 B" and "\<forall>g \<in> set gs. wf_cm (fst g)"
    and "length (ct_leaves (lg_tree L)) \<le> 2 ^ 64"
  shows "storable L" and "wf_tree B (lg_tree L)"
  using chain_shapes [OF assms(1-3)] assms(4) chain_inv [OF assms(1)] by (simp_all add: storable_def ledger_inv_def)

lemma sample_chain_shapes:
  "\<forall>g \<in> set sample_notes. wf_cm (fst g)" "digest32 zero_hash"
  by (simp_all add: sample_notes_def wf_defs)

text \<open>C12. Restarting from a snapshot.  A ledger reached from a genesis is persisted into a store that
  is empty or holds an earlier snapshot; if the write succeeds and the reads do not fail, the restart
  succeeds and has the same leaves, nullifiers, height, supply, current anchor and membership
  witnesses.  Of the window only the current anchor is left, and the quota registry is new.\<close>

theorem restore_persist_roundtrip:
  assumes "chain B V gs L hist" and "digest32 B" and "\<forall>g \<in> set gs. wf_cm (fst g)"
    and "length (ct_leaves (lg_tree L)) \<le> 2 ^ 64"
    and "redb_ok R c wc sc" and "set (iter (lg_nullifiers L)) = lg_nullifiers L"
    and "superseded (c db) L" and "persist R iter L db = Inr db'" and "readable R db'"
  shows "\<exists>L'. restore B R db' (lg_emission L) (lg_validators L) (lg_difficulty_bits L) = Inr L'
    \<and> ct_leaves (lg_tree L') = ct_leaves (lg_tree L) \<and> lg_nullifiers L' = lg_nullifiers L
    \<and> lg_height L' = lg_height L \<and> total_supply L' = total_supply L \<and> current_anchor B L' = current_anchor B L
    \<and> (\<forall>p. tree_witness B L' p = tree_witness B L p)
    \<and> (\<forall>a. lg_anchor_valid L' a \<longleftrightarrow> a = current_anchor B L) \<and> lg_quota L' = qr_new"
proof -
  note st = chain_storable [OF assms(1-4)]
  let ?L = "restarted B L"
  have "ct_root B (lg_tree ?L) = ct_root B (lg_tree L)"
    by (rule note_tree.root_cong) (use st(2) in \<open>simp_all add: restarted_def wf_tree_def\<close>)
  moreover have "ct_witness B (lg_tree ?L) p = ct_witness B (lg_tree L) p" for p
    by (simp add: restarted_def ct_witness_def Let_def)
  ultimately show ?thesis
    using restore_after_persist [OF assms(5) st(2,1) assms(7,6,8,9)]
    by (intro exI [of _ ?L]) (auto simp: restarted_def total_supply_def current_anchor_def tree_witness_def
        lg_anchor_valid_def ct_anchor_valid_def)
qed

text \<open>A ledger after one checkpoint, and its snapshot in an empty in-memory store.\<close>

definition mem_empty :: mem_db where
  "mem_empty = \<lparr>mem_leaves = [], mem_nfs = [], mem_meta = []\<rparr>"

lemma mem_empty_superseded: "superseded (mem_tables mem_empty) L"
  by (simp add: superseded_def mem_tables_def mem_empty_def)

lemma mem_commit_checkpoint: "\<exists>db'. commit_checkpoint mem_redb db h sp lvs nfs = Inr db'"
proof -
  have "\<exists>w'. sfold (\<lambda>(pos, cm) w. Inr (w\<lparr>mem_leaves := (pos, cm_bytes cm) # mem_leaves w\<rparr>)) lvs w = (Inr w' :: StoreError + mem_db)" for w
    by (induction lvs arbitrary: w) auto
  moreover have "\<exists>w'. sfold (\<lambda>nf w. Inr (w\<lparr>mem_nfs := (nf_bytes nf, h) # mem_nfs w\<rparr>)) nfs w = (Inr w' :: StoreError + mem_db)" for w
    by (induction nfs arbitrary: w) auto
  ultimately show ?thesis by (simp add: commit_checkpoint_def mem_redb_def) blast
qed

lemma mem_persist: "\<exists>db'. persist mem_redb iter L db = Inr db'"
  unfolding persist_def Let_def by (rule mem_commit_checkpoint)

text \<open>The growth of a checkpoint: two leaves for each accepted transaction, one for each validator.\<close>

lemma distribute_length:
  assumes "length ws < 2 ^ 64" and "distribute tot ws = Some shares"
  shows "length shares \<le> length ws"
proof (cases "sum_list (map unat ws) = 0")
  case True
  then show ?thesis using distribute_zero_weight [OF assms(1)] assms(2) by simp
next
  case False
  then have "0 < sum_list (map unat ws)" by (rule neq0_conv [THEN iffD1])
  from distribute_eq [OF assms(1) this, of tot] assms(2)
  have "map rs_validator_index shares = map word_of_nat [0 ..< length ws]" by auto
  then have "length (map rs_validator_index shares) = length (map word_of_nat [0 ..< length ws] :: u32 list)" by simp
  then show ?thesis by simp
qed

lemma reward_descriptor_shares:
  "reward_descriptor em nh ws = Some rd \<Longrightarrow> \<exists>e. distribute e ws = Some (rd_shares rd)"
  by (auto simp: reward_descriptor_def bind_eq_Some_conv)

lemma checkpoint_growth:
  assumes "apply_checkpoint B L ordered V = Some (L', S)" and "ledger_inv B L" and "\<forall>tx \<in> set ordered. wf_tx_body tx"
    and "length (lg_validators L) < 2 ^ 64"
  shows "length (ct_leaves (lg_tree L')) \<le> length (ct_leaves (lg_tree L)) + 2 * length ordered + length (lg_validators L)"
proof -
  obtain vs ns where spec: "checkpoint_spec B (stateless_ok B V L) (view L) ordered vs ns (view L')"
    and ns: "length (rd_shares (cs_rewards S)) = length ns"
    using checkpoint_refines [OF assms(1,2)] list_all2_lengthD by blast
  obtain nh where "reward_descriptor (lg_emission L) nh (map vi_weight (lg_validators L)) = Some (cs_rewards S)"
    by (rule checkpoint_steps [OF assms(1)]) simp
  then obtain e where "distribute e (map vi_weight (lg_validators L)) = Some (rd_shares (cs_rewards S))"
    using reward_descriptor_shares by blast
  then have "length ns \<le> length (lg_validators L)"
    using distribute_length [of "map vi_weight (lg_validators L)" e] assms(4) ns by simp
  moreover have "length (accepted_txs us txs) \<le> length txs" for us txs by (induction us txs rule: accepted_txs.induct) auto
  then have "length (accepted_txs vs ordered) \<le> length ordered" .
  moreover have "length (concat (map tx_commitments (accepted_txs vs ordered))) = 2 * length (accepted_txs vs ordered)"
  proof -
    have "set (accepted_txs us txs) \<subseteq> set txs" for us txs by (induction us txs rule: accepted_txs.induct) auto
    then have "length (tx_commitments tx) = 2" if "tx \<in> set (accepted_txs vs ordered)" for tx
      using that assms(3) by (auto simp: wf_defs interface_consts)
    then show ?thesis using length_concat_const [of "map tx_commitments (accepted_txs vs ordered)" 2] by auto
  qed
  moreover have "length (ct_leaves (lg_tree L')) = length (ct_leaves (lg_tree L))
      + length (concat (map tx_commitments (accepted_txs vs ordered))) + length ns"
    using spec by (simp add: checkpoint_spec_def view_def)
  ultimately show ?thesis by linarith
qed

lemma sample_few_leaves:
  assumes "apply_checkpoint zero_hash sample_ledger ordered V = Some (L, S)" and "\<forall>tx \<in> set ordered. wf_tx_body tx"
    and "length ordered \<le> 1"
  shows "length (ct_leaves (lg_tree L)) \<le> 2 ^ 64"
proof -
  have "length (ct_leaves (lg_tree sample_ledger)) = 1"
    using genesis_view(1) [OF sample_genesis] by (simp add: view_def sample_notes_def)
  then show ?thesis
    using checkpoint_growth [OF assms(1) sample_ledger_inv assms(2)] assms(3) by (simp add: sample_ledger_simps)
qed

lemma restore_persist_roundtrip_witness:
  "\<exists>L db' L'. persist mem_redb (\<lambda>_. tx_nullifiers sample_ledger_tx) L mem_empty = Inr db'
     \<and> restore zero_hash mem_redb db' (lg_emission L) (lg_validators L) (lg_difficulty_bits L) = Inr L'
     \<and> lg_nullifiers L' = set (tx_nullifiers sample_ledger_tx) \<and> current_anchor zero_hash L' = current_anchor zero_hash L"
proof -
  obtain L S where step: "apply_checkpoint zero_hash sample_ledger [sample_ledger_tx] (dev_verify zero_hash) = Some (L, S)"
      "accepted_by [sample_ledger_tx] S = [sample_ledger_tx]"
      "chain zero_hash (dev_verify zero_hash) sample_notes L [sample_ledger_tx]"
    by (rule sample_step)
  have nfs: "lg_nullifiers L = set (tx_nullifiers sample_ledger_tx)"
    using checkpoint_accepts(1) [OF step(1) sample_ledger_inv] sample_ledger_tx_ok(2) step(2)
    by (simp add: sample_ledger_simps)
  obtain db' where db': "persist mem_redb (\<lambda>_. tx_nullifiers sample_ledger_tx) L mem_empty = Inr db'"
    using mem_persist by blast
  from restore_persist_roundtrip [OF step(3) sample_chain_shapes(2,1) _ mem_redb_ok _ mem_empty_superseded db' mem_redb_readable]
    sample_few_leaves [OF step(1)] sample_ledger_tx_ok(2) nfs db'
  show ?thesis by simp blast
qed

section \<open>A restarted replica\<close>

lemma single_pow_tx:
  assumes "apply_checkpoint B L [tx] V = Some (L', S)" and "tx_antispam tx = LanePow sol"
    and "stateless_ok B V L tx" and "set (tx_nullifiers tx) \<inter> lg_nullifiers L = {}"
  shows "if lg_anchor_valid L (tx_anchor tx)
    then cs_rejected S = [] \<and> lg_nullifiers L' = lg_nullifiers L \<union> set (tx_nullifiers tx)
    else cs_rejected S = [(0, StaleOrUnknownAnchor)] \<and> lg_nullifiers L' = lg_nullifiers L"
proof -
  obtain nh st where st: "process_txs B V L nh 0 [tx] (staging_init L) = Some st"
      "lg_nullifiers L' = lg_nullifiers L \<union> set (st_staged_nf st)" "cs_rejected S = st_rejected st"
    by (rule checkpoint_steps [OF assms(1)])
  have nf: "\<not> list_ex (\<lambda>nf. nf \<in> lg_nullifiers L \<or> nf \<in> st_seen (staging_init L)) (tx_nullifiers tx)"
    using assms(4) by (auto simp: list_ex_iff staging_init_def)
  have "process_tx B V L nh 0 tx (staging_init L)
    = Some (if lg_anchor_valid L (tx_anchor tx) then accept tx (staging_init L) else reject 0 StaleOrUnknownAnchor (staging_init L))"
    by (simp add: process_tx_def lg_anchor_valid_def assms(2,3) nf quota_check_def)
  then have "st = (if lg_anchor_valid L (tx_anchor tx) then accept tx (staging_init L) else reject 0 StaleOrUnknownAnchor (staging_init L))"
    using st(1) by simp
  then show ?thesis by (simp add: st(2,3) accept_def reject_def staging_init_def)
qed

text \<open>C36. A restart is not transparent.  Take a reachable ledger, snapshot and restart it, and give
  both replicas the next checkpoint with one valid proof-of-work transaction whose anchor is in the
  window but not the newest: the running replica accepts it and records its nullifiers, the restarted one
  rejects it as stale, and after that checkpoint their nullifier sets differ.\<close>

theorem restart_diverges:
  assumes "chain B V gs L hist" and "digest32 B" and "\<forall>g \<in> set gs. wf_cm (fst g)"
    and "length (ct_leaves (lg_tree L)) \<le> 2 ^ 64"
    and "redb_ok R c wc sc" and "set (iter (lg_nullifiers L)) = lg_nullifiers L"
    and "superseded (c db) L" and "persist R iter L db = Inr db'" and "readable R db'"
    and "restore B R db' (lg_emission L) (lg_validators L) (lg_difficulty_bits L) = Inr L2"
    and "validate_stateless B tx V (lg_difficulty_bits L) = Inr ()" and "tx_antispam tx = LanePow sol"
    and "tx_nullifiers tx \<noteq> []" and "\<forall>nf \<in> set (tx_nullifiers tx). \<not> nullifier_seen L nf"
    and "lg_anchor_valid L (tx_anchor tx)" and "tx_anchor tx \<noteq> current_anchor B L"
    and "apply_checkpoint B L [tx] V = Some (L', S)" and "apply_checkpoint B L2 [tx] V = Some (L2', S2)"
  shows "cs_rejected S = [] \<and> cs_rejected S2 = [(0, StaleOrUnknownAnchor)] \<and> lg_nullifiers L' \<noteq> lg_nullifiers L2'"
proof -
  note st = chain_storable [OF assms(1-4)]
  have L2: "L2 = restarted B L"
    using restore_after_persist [OF assms(5) st(2,1) assms(7,6,8,9)] assms(10) by simp
  have fresh: "set (tx_nullifiers tx) \<inter> lg_nullifiers L = {}" using assms(14) by (auto simp: nullifier_seen_def)
  have "\<not> lg_anchor_valid L2 (tx_anchor tx)"
    using assms(16) by (simp add: L2 restarted_def lg_anchor_valid_def ct_anchor_valid_def)
  moreover have "stateless_ok B V L2 tx" "lg_nullifiers L2 = lg_nullifiers L"
    using assms(11) by (simp_all add: L2 restarted_def)
  moreover have "\<not> set (tx_nullifiers tx) \<subseteq> lg_nullifiers L" using assms(13) fresh by (cases "tx_nullifiers tx") auto
  ultimately show ?thesis
    using single_pow_tx [OF assms(17,12,11) fresh] single_pow_tx [OF assms(18,12)] assms(15) fresh by auto
qed

lemma restart_diverges_witness:
  "\<exists>L L2 L' S L2' S2. apply_checkpoint zero_hash L [sample_ledger_tx] (dev_verify zero_hash) = Some (L', S)
     \<and> apply_checkpoint zero_hash L2 [sample_ledger_tx] (dev_verify zero_hash) = Some (L2', S2)
     \<and> (\<exists>db. persist mem_redb (\<lambda>_. []) L mem_empty = Inr db
          \<and> restore zero_hash mem_redb db (lg_emission L) (lg_validators L) (lg_difficulty_bits L) = Inr L2)
     \<and> lg_nullifiers L' \<noteq> lg_nullifiers L2'"
proof -
  let ?V = "dev_verify zero_hash" and ?em = sample_emission
  have em: "em_half_life ?em \<noteq> 0" "em_e_tail ?em \<le> em_e0 ?em" "em_e0 ?em = 1000" "em_e_tail ?em = 100" by (simp_all add: sample_emission_def)
  obtain L S0 where step: "apply_checkpoint zero_hash sample_ledger [] ?V = Some (L, S0)"
    using checkpoint_total [of sample_ledger "[]" zero_hash ?V] em by (auto simp: sample_ledger_simps quota_reduced_def qr_new_def)
  have chain: "chain zero_hash ?V sample_notes L ([] @ accepted_by [] S0)"
    by (rule chain_step [OF chain_genesis [OF sample_genesis] _ step]) simp
  have nfs: "lg_nullifiers L = {}"
    using checkpoint_accepts(1) [OF step sample_ledger_inv] by (simp add: sample_ledger_simps accepted_by_def)
  have few: "length (ct_leaves (lg_tree L)) \<le> 2 ^ 64" using sample_few_leaves [OF step] by simp
  have e1: "emission_at ?em 1 = Some 991"
    by (simp add: emission_at_def sample_emission_def sub_or_panic_def decay_factor_def SCALE_def add_or_panic_def)
  have fields: "lg_emission L = ?em" "lg_validators L = lg_validators sample_ledger" "unat (lg_height L) = 1"
      "unat (lg_supply L) = 5991"
    using checkpoint_supply [OF step] by (simp_all add: sample_ledger_simps emission_or_0_def e1 validator_weight_def)
  obtain nh st where "process_txs zero_hash ?V sample_ledger nh 0 [] (staging_init sample_ledger) = Some st"
      "lg_quota L = st_quota st" "lg_difficulty_bits L = lg_difficulty_bits sample_ledger"
    by (rule checkpoint_steps [OF step])
  then have bits: "lg_difficulty_bits L = 0" "lg_quota L = qr_new" by (auto simp: sample_ledger_simps staging_init_def)
  obtain db where db: "persist mem_redb (\<lambda>_. []) L mem_empty = Inr db" using mem_persist by blast
  note st = chain_storable [OF chain sample_chain_shapes(2,1) few]
  have res: "restore zero_hash mem_redb db (lg_emission L) (lg_validators L) (lg_difficulty_bits L) = Inr (restarted zero_hash L)"
    using restore_after_persist [OF mem_redb_ok st(2,1) mem_empty_superseded _ db mem_redb_readable] nfs by simp
  have total: "\<exists>r. apply_checkpoint zero_hash M [sample_ledger_tx] ?V = Some r" if "M \<in> {L, restarted zero_hash L}" for M
    using that by (intro checkpoint_total)
      (auto simp: fields em sample_ledger_simps bits quota_reduced_def qr_new_def restarted_def sample_ledger_tx_def sample_tx_def)
  obtain L' S L2' S2 where run: "apply_checkpoint zero_hash L [sample_ledger_tx] ?V = Some (L', S)"
      "apply_checkpoint zero_hash (restarted zero_hash L) [sample_ledger_tx] ?V = Some (L2', S2)"
    using total by fastforce
  obtain vs ns where "checkpoint_spec zero_hash (stateless_ok zero_hash ?V sample_ledger) (view sample_ledger) [] vs ns (view L)"
    using checkpoint_refines [OF step sample_ledger_inv] by blast
  then have "current_anchor zero_hash sample_ledger \<in> set (ct_anchors (lg_tree L))"
    using genesis_view(1) [OF sample_genesis] sample_ledger_tx_ok(3)
    by (auto simp: checkpoint_spec_def view_def fields ct_anchor_valid_def list_ex_iff sample_ledger_tx_def current_anchor_def)
  then have anchor: "lg_anchor_valid L (tx_anchor sample_ledger_tx)"
    by (simp add: lg_anchor_valid_def ct_anchor_valid_def list_ex_iff sample_ledger_tx_def)
  have "lg_height L \<noteq> 0" using fields(3) by auto
  then have older: "tx_anchor sample_ledger_tx \<noteq> current_anchor zero_hash L"
    by (simp add: sample_ledger_tx_def current_anchor_def sample_ledger_simps)
  have "lg_nullifiers L' \<noteq> lg_nullifiers L2'"
    by (rule restart_diverges [OF chain sample_chain_shapes(2,1) few mem_redb_ok _ mem_empty_superseded db mem_redb_readable
          res _ _ _ _ anchor older run, THEN conjunct2, THEN conjunct2])
      (use sample_ledger_tx_ok(1) in \<open>simp_all add: nfs nullifier_seen_def bits sample_ledger_simps sample_ledger_tx_def sample_tx_def\<close>)
  then show ?thesis using run db res by blast
qed

end
