(* ===== verification/Wallet.thy ===== *)
theory Wallet
  imports Prover_Dev
begin

text \<open>
  \<^verbatim>\<open>crates/wallet\<close>: the notes a wallet owns, scanning, input selection and the building of a
  transfer.  A panic (the overflow of a sum, the underflow of the change, a failed encryption) is
  \<open>None\<close>; a \<^verbatim>\<open>WalletError\<close> is \<open>Some (Inl e)\<close>, and \<open>rbind\<close> is the \<^verbatim>\<open>?\<close> of such a
  computation.  The callback \<^verbatim>\<open>witness_for\<close> is an argument.  \<^verbatim>\<open>std::cmp::Reverse\<close> is a type
  with the reversed order, so that the stable sort by descending value is \<open>sort_key\<close>.
\<close>

section \<open>Reversed order\<close>

datatype 'a Reverse = Reverse 'a

instantiation Reverse :: (linorder) linorder
begin

fun less_eq_Reverse :: "'a Reverse \<Rightarrow> 'a Reverse \<Rightarrow> bool" where
  "less_eq_Reverse (Reverse a) (Reverse b) \<longleftrightarrow> b \<le> a"

fun less_Reverse :: "'a Reverse \<Rightarrow> 'a Reverse \<Rightarrow> bool" where
  "less_Reverse (Reverse a) (Reverse b) \<longleftrightarrow> b < a"

instance
proof
  fix x y z :: "'a Reverse"
  show "x < y \<longleftrightarrow> x \<le> y \<and> \<not> y \<le> x" by (cases x; cases y) auto
  show "x \<le> x" by (cases x) simp
  show "x \<le> y \<Longrightarrow> y \<le> z \<Longrightarrow> x \<le> z" by (cases x; cases y; cases z) auto
  show "x \<le> y \<Longrightarrow> y \<le> x \<Longrightarrow> x = y" by (cases x; cases y) auto
  show "x \<le> y \<or> y \<le> x" by (cases x; cases y) auto
qed

end

section \<open>State\<close>

record NoteRecord =
  nr_note :: Note
  nr_position :: u64

datatype WalletError = InsufficientFunds (have_funds: u64) (need_funds: u64) | TooManyInputsNeeded | MissingWitness u64 | Prove string

record Wallet =
  w_sk :: SpendingKey
  w_unspent :: "NoteRecord list"
  w_seen_nullifiers :: "Nullifier set"

definition w_from_seed :: "blake3 \<Rightarrow> bytes \<Rightarrow> Wallet" where
  "w_from_seed B seed = \<lparr>w_sk = sk_from_seed B seed, w_unspent = [], w_seen_nullifiers = {}\<rparr>"

definition w_address :: "blake3 \<Rightarrow> crypto_lib \<Rightarrow> Wallet \<Rightarrow> Address" where
  "w_address B C W = sk_address B C (w_sk W)"

abbreviation nr_value :: "NoteRecord \<Rightarrow> u64" where
  "nr_value r \<equiv> note_value (nr_note r)"

definition balance :: "Wallet \<Rightarrow> u64 option" where
  "balance W = sum_or_panic (map nr_value (w_unspent W))"

definition note_count :: "Wallet \<Rightarrow> nat" where
  "note_count W = length (w_unspent W)"

section \<open>Scanning\<close>

definition try_receive :: "blake3 \<Rightarrow> crypto_lib \<Rightarrow> Wallet \<Rightarrow> EncryptedOutput \<Rightarrow> u64 \<Rightarrow> Wallet \<times> bool" where
  "try_receive B C W enc position =
     (case try_decrypt B C enc (incoming_viewing_key B C (w_sk W)) of
        Some note \<Rightarrow>
          ((if note_value note > 0
            then W\<lparr>w_unspent := w_unspent W @ [\<lparr>nr_note = note, nr_position = position\<rparr>]\<rparr>
            else W), True)
      | None \<Rightarrow> (W, False))"

definition observe_nullifiers :: "blake3 \<Rightarrow> Wallet \<Rightarrow> Nullifier list \<Rightarrow> Wallet" where
  "observe_nullifiers B W nullifiers =
     (let key = nk B (w_sk W); seen = w_seen_nullifiers W \<union> set nullifiers
      in W\<lparr>w_seen_nullifiers := seen,
            w_unspent := filter (\<lambda>r. nullifier B (nr_note r) key \<notin> seen) (w_unspent W)\<rparr>)"

section \<open>Input selection\<close>

text \<open>\<^verbatim>\<open>Iterator::min_by_key\<close>: the first of the least elements.\<close>

fun min_by_key :: "('a \<Rightarrow> 'k::linorder) \<Rightarrow> 'a list \<Rightarrow> 'a option" where
  "min_by_key f [] = None"
| "min_by_key f (x # xs) = Some (fold (\<lambda>y best. if f y < f best then y else best) xs x)"

definition select_inputs :: "Wallet \<Rightarrow> u64 \<Rightarrow> (WalletError + NoteRecord list) option" where
  "select_inputs W amount =
     do { funds \<leftarrow> balance W;
          if funds < amount then Some (Inl (InsufficientFunds funds amount))
          else case min_by_key nr_value (filter (\<lambda>r. nr_value r \<ge> amount) (w_unspent W)) of
            Some r \<Rightarrow> Some (Inr [r])
          | None \<Rightarrow>
              let sorted = sort_key (\<lambda>r. Reverse (nr_value r)) (w_unspent W);
                  pair = take TX_INPUTS sorted
              in do { s \<leftarrow> sum_or_panic (map nr_value pair);
                      if s < amount then Some (Inl TooManyInputsNeeded) else Some (Inr pair) } }"

section \<open>Building a transfer\<close>

definition rbind :: "('e + 'a) option \<Rightarrow> ('a \<Rightarrow> ('e + 'b) option) \<Rightarrow> ('e + 'b) option" where
  "rbind r f = (case r of None \<Rightarrow> None | Some (Inl e) \<Rightarrow> Some (Inl e) | Some (Inr x) \<Rightarrow> f x)"

definition empty_path :: MerklePath where
  "empty_path = \<lparr>mp_position = 0, mp_siblings = replicate TREE_DEPTH (replicate 32 0)\<rparr>"

definition derive_rseed :: "blake3 \<Rightarrow> bytes \<Rightarrow> u8 \<Rightarrow> bytes" where
  "derive_rseed B seed idx = hash_parts B ''unknown.v0.wallet.rseed'' [seed, [idx]]"

text \<open>The loop over the selected notes.\<close>

fun real_inputs :: "(u64 \<Rightarrow> MerklePath option) \<Rightarrow> NoteRecord list \<Rightarrow> WalletError + InputWitness list" where
  "real_inputs witness_for [] = Inr []"
| "real_inputs witness_for (r # rs) =
     (case witness_for (nr_position r) of
        None \<Rightarrow> Inl (MissingWitness (nr_position r))
      | Some path \<Rightarrow> (case real_inputs witness_for rs of
            Inl e \<Rightarrow> Inl e
          | Inr inputs \<Rightarrow> Inr (\<lparr>iw_note = nr_note r, iw_path = path, iw_is_dummy = False\<rparr> # inputs)))"

text \<open>The padding loop.\<close>

definition wallet_dummy :: "blake3 \<Rightarrow> u8 \<Rightarrow> InputWitness" where
  "wallet_dummy B ctr =
     \<lparr>iw_note = dummy B (replicate 32 (0xD0 XOR ctr)), iw_path = empty_path, iw_is_dummy = True\<rparr>"

function pad_dummies :: "blake3 \<Rightarrow> InputWitness list \<Rightarrow> u8 \<Rightarrow> InputWitness list option" where
  "pad_dummies B inputs ctr =
     (if length inputs < TX_INPUTS
      then do { ctr' \<leftarrow> add_or_panic ctr 1; pad_dummies B (inputs @ [wallet_dummy B ctr]) ctr' }
      else Some inputs)"
  by auto
termination
  by (relation "measure (\<lambda>(B, inputs, ctr). TX_INPUTS - length inputs)") auto

declare pad_dummies.simps [simp del]

text \<open>
  The second half of \<^verbatim>\<open>build_transfer\<close>, from the sorted nullifiers on: the output notes, their
  encryption, the binding digest, the proof and the proof of work.
\<close>

definition assemble_transfer ::
  "blake3 \<Rightarrow> crypto_lib \<Rightarrow> Wallet \<Rightarrow> Address \<Rightarrow> u64 \<Rightarrow> u64 \<Rightarrow> Anchor \<Rightarrow> InputWitness list \<Rightarrow> Nullifier list \<Rightarrow> bytes
   \<Rightarrow> (WalletError + TxV1) option" where
  "assemble_transfer B C W recipient amount change anchor inputs nfs rng_seed =
     do { let key = nk B (w_sk W);
          let tag = addr_tag B (w_sk W);
          first_nf \<leftarrow> index_or_panic nfs 0;
          let memo = replicate MEMO_LEN 0;
          let out_recipient = \<lparr>note_value = amount, note_addr_tag = ad_addr_tag recipient,
                note_rho = rho_transfer B first_nf 0, note_rseed = derive_rseed B rng_seed 0\<rparr>;
          let out_change = \<lparr>note_value = change, note_addr_tag = tag,
                note_rho = rho_transfer B first_nf 1, note_rseed = derive_rseed B rng_seed 1\<rparr>;
          enc0 \<leftarrow> encrypt_note B C out_recipient recipient memo (derive_rseed B rng_seed 10);
          enc1 \<leftarrow> encrypt_note B C out_change (sk_address B C (w_sk W)) memo (derive_rseed B rng_seed 11);
          let commitments = [commitment B out_recipient, commitment B out_change];
          second_nf \<leftarrow> index_or_panic nfs 1;
          let partial = \<lparr>tx_anchor = anchor, tx_nullifiers = [first_nf, second_nf],
                tx_commitments = commitments, tx_enc_outputs = [enc0, enc1],
                tx_antispam = LanePow \<lparr>pow_nonce = 0\<rparr>, tx_proof = replicate PROOF_BUCKET 0\<rparr>;
          let binding = binding_digest B partial;
          case prove B \<lparr>sw_spender_nk = key, sw_spender_addr_tag = tag, sw_inputs = inputs,
                sw_outputs = [out_recipient, out_change], sw_mint_value = 0,
                sw_binding_digest = binding\<rparr> anchor of
            Inl (Unsatisfied s) \<Rightarrow> Some (Inl (Prove s))
          | Inr (pi, proof) \<Rightarrow>
              do { pow \<leftarrow> solve B binding 0;
                   Some (Inr (partial\<lparr>tx_antispam := LanePow pow, tx_proof := proof\<rparr>)) } }"

definition build_transfer ::
  "blake3 \<Rightarrow> crypto_lib \<Rightarrow> Wallet \<Rightarrow> Address \<Rightarrow> u64 \<Rightarrow> Anchor \<Rightarrow> (u64 \<Rightarrow> MerklePath option) \<Rightarrow> bytes
   \<Rightarrow> (WalletError + TxV1) option" where
  "build_transfer B C W recipient amount anchor witness_for rng_seed =
     rbind (select_inputs W amount) (\<lambda>selected.
     do { input_value \<leftarrow> sum_or_panic (map nr_value selected);
          change \<leftarrow> sub_or_panic input_value amount;
          rbind (Some (real_inputs witness_for selected)) (\<lambda>reals.
          do { inputs \<leftarrow> pad_dummies B reals 0;
               let nfs = sort_key nf_bytes (map (\<lambda>i. nullifier B (iw_note i) (nk B (w_sk W))) inputs);
               assemble_transfer B C W recipient amount change anchor inputs nfs rng_seed }) })"

section \<open>Facts on selection\<close>

lemma min_by_key_Some:
  assumes "min_by_key f xs = Some m"
  shows "m \<in> set xs \<and> (\<forall>x \<in> set xs. f m \<le> f x)"
proof -
  have "fold (\<lambda>y best. if f y < f best then y else best) ys b \<in> insert b (set ys)
      \<and> (\<forall>x \<in> insert b (set ys). f (fold (\<lambda>y best. if f y < f best then y else best) ys b) \<le> f x)" for ys b
    by (induction ys arbitrary: b) (simp, fastforce)
  then show ?thesis using assms by (cases xs) auto
qed

lemma min_by_key_None [simp]: "min_by_key f xs = None \<longleftrightarrow> xs = []"
  by (cases xs) simp_all

text \<open>The first two of a list that descends by value are worth most.\<close>

lemma two_largest:
  fixes v :: "'a \<Rightarrow> nat"
  assumes "sorted_wrt (\<lambda>x y. v y \<le> v x) ys" and "M \<subseteq># mset ys" and "size M \<le> 2"
  shows "(\<Sum>x \<in># M. v x) \<le> sum_list (map v (take 2 ys))"
proof (cases ys)
  case (Cons a zs)
  have le_a: "v x \<le> v a" if "x \<in># mset ys" for x using that assms(1) Cons by auto
  have le_b: "zs \<noteq> [] \<and> v x \<le> v (hd zs)" if "x \<in># mset zs" for x using that assms(1) Cons by (cases zs) auto
  consider "M = {#}" | x where "M = {#x#}" | x y where "M = {#x, y#}"
  proof (cases M)
    case (add x N)
    then show ?thesis using that assms(3) by (cases N) auto
  qed
  then show ?thesis
  proof cases
    case 2
    then show ?thesis using le_a [of x] assms(2) Cons by (simp add: trans_le_add1)
  next
    case (3 x y)
    have "v x + v y \<le> v a + v (hd zs) \<and> zs \<noteq> []"
    proof (cases "x = a \<or> y = a")
      case True
      then obtain z where z: "M = {#a, z#}" "v x + v y = v a + v z" using 3 by (auto simp: add_mset_commute)
      then have "z \<in># mset zs" using assms(2) Cons by simp
      then show ?thesis using z le_b by auto
    next
      case False
      then have "x \<in># mset zs" "y \<in># mset zs"
        using assms(2) Cons mset_subset_eqD [OF assms(2), of x] mset_subset_eqD [OF assms(2), of y] 3 by auto
      then show ?thesis using le_b [of x] le_b [of y] le_a [of "hd zs"] Cons by fastforce
    qed
    then show ?thesis using 3 Cons by (cases zs) simp_all
  qed simp
qed (use assms in auto)

lemma sorted_by_value:
  "sorted_wrt (\<lambda>x y. unat (nr_value y) \<le> unat (nr_value x)) (sort_key (\<lambda>r. Reverse (nr_value r)) rs)"
proof -
  have "sorted (map (\<lambda>r. Reverse (nr_value r)) (sort_key (\<lambda>r. Reverse (nr_value r)) rs))" by (rule sorted_sort_key)
  then show ?thesis by (auto simp: sorted_map word_le_nat_alt elim!: sorted_wrt_mono_rel [rotated])
qed

lemma sum_list_mset: "sum_list (map f xs) = (\<Sum>x \<in># mset xs. f x)" for f :: "'a \<Rightarrow> nat"
  by (induction xs) simp_all

lemma select_inputs_cases:
  assumes "balance W = Some funds"
  shows "case select_inputs W amount of
      Some (Inr sel) \<Rightarrow> mset sel \<subseteq># mset (w_unspent W) \<and> length sel \<le> TX_INPUTS
        \<and> unat amount \<le> sum_list (map (\<lambda>r. unat (nr_value r)) sel)
        \<and> (\<forall>r \<in> set (w_unspent W). amount \<le> nr_value r \<longrightarrow> length sel = 1 \<and> nr_value (hd sel) \<le> nr_value r)
    | Some (Inl e) \<Rightarrow> e = (if funds < amount then InsufficientFunds funds amount else TooManyInputsNeeded)
        \<and> (\<forall>M. M \<subseteq># mset (w_unspent W) \<longrightarrow> size M \<le> TX_INPUTS \<longrightarrow> (\<Sum>r \<in># M. unat (nr_value r)) < unat amount)
    | None \<Rightarrow> False"
proof -
  let ?U = "w_unspent W" and ?v = "\<lambda>r. unat (nr_value r)"
  let ?sorted = "sort_key (\<lambda>r. Reverse (nr_value r)) ?U"
  have funds: "unat funds = sum_list (map ?v ?U)" using assms by (simp add: balance_def sum_or_panic_Some_iff comp_def)
  have total: "(\<Sum>r \<in># M. ?v r) \<le> unat funds" if M: "M \<subseteq># mset ?U" for M
  proof -
    obtain N where "mset ?U = M + N" using M by (auto simp: mset_subset_eq_exists_conv)
    then have "(\<Sum>r \<in># mset ?U. ?v r) = (\<Sum>r \<in># M. ?v r) + (\<Sum>r \<in># N. ?v r)" by simp
    moreover have "(\<Sum>r \<in># mset ?U. ?v r) = unat funds" unfolding funds by (rule sum_list_mset [symmetric])
    ultimately show ?thesis by simp
  qed
  show ?thesis
  proof (cases "funds < amount")
    case True
    then have "\<forall>M. M \<subseteq># mset ?U \<longrightarrow> (\<Sum>r \<in># M. ?v r) < unat amount" using total by (fastforce simp: word_less_nat_alt)
    then show ?thesis using True by (simp add: select_inputs_def assms)
  next
    case enough: False
    show ?thesis
    proof (cases "min_by_key nr_value (filter (\<lambda>r. nr_value r \<ge> amount) ?U)")
      case (Some r)
      from min_by_key_Some [OF Some] show ?thesis
        using enough Some by (auto simp: select_inputs_def assms word_le_nat_alt interface_consts)
    next
      case None
      then have small: "\<forall>r \<in> set ?U. \<not> amount \<le> nr_value r" by (auto simp: filter_empty_conv)
      have sub: "mset (take 2 ?sorted) \<subseteq># mset ?U" using mset_subset_eq_add_left [of "mset (take 2 ?sorted)" "mset (drop 2 ?sorted)"]
        by (simp flip: mset_append)
      have "sum_list (map ?v (take 2 ?sorted)) = (\<Sum>r \<in># mset (take 2 ?sorted). ?v r)"
        by (rule sum_list_mset)
      then have "sum_list (map unat (map nr_value (take 2 ?sorted))) \<le> unat funds"
        using total [OF sub] by (simp only: map_map comp_def)
      from order.strict_trans1 [OF this unsigned_less] obtain s where s: "sum_or_panic (map nr_value (take 2 ?sorted)) = Some s"
        using sum_or_panic_exists by blast
      then have us: "unat s = sum_list (map ?v (take 2 ?sorted))" by (simp only: sum_or_panic_Some_iff map_map comp_def)
      have "(\<Sum>r \<in># M. ?v r) \<le> unat s" if "M \<subseteq># mset ?U" "size M \<le> 2" for M
        unfolding us by (rule two_largest [OF sorted_by_value]) (use that in simp_all)
      then have top: "\<forall>M. M \<subseteq># mset ?U \<longrightarrow> size M \<le> 2 \<longrightarrow> (\<Sum>r \<in># M. ?v r) \<le> unat s" by blast
      have sel: "select_inputs W amount = Some (if s < amount then Inl TooManyInputsNeeded else Inr (take 2 ?sorted))"
        using enough None s by (simp add: select_inputs_def assms Let_def TX_INPUTS_def)
      show ?thesis
      proof (cases "s < amount")
        case True
        then show ?thesis using sel enough top by (auto simp: word_less_nat_alt TX_INPUTS_def intro: order.strict_trans1)
      next
        case False
        then have "unat amount \<le> unat s" by (simp add: word_le_nat_alt not_less)
        then show ?thesis using sel False sub small us by (auto simp: TX_INPUTS_def)
      qed
    qed
  qed
qed

section \<open>Facts on building\<close>

lemma rbind_simps [simp]: "rbind (Some (Inr x)) f = f x" "rbind (Some (Inl e)) f = Some (Inl e)" "rbind None f = None"
  by (simp_all add: rbind_def)

abbreviation real_input :: "(u64 \<Rightarrow> MerklePath option) \<Rightarrow> NoteRecord \<Rightarrow> InputWitness" where
  "real_input wit r \<equiv> \<lparr>iw_note = nr_note r, iw_path = the (wit (nr_position r)), iw_is_dummy = False\<rparr>"

lemma real_inputs_Inr: "real_inputs wit rs = Inr ins \<Longrightarrow> ins = map (real_input wit) rs"
  by (induction rs arbitrary: ins) (auto split: option.splits sum.splits)

lemma real_inputs_total: "\<forall>r \<in> set rs. wit (nr_position r) \<noteq> None \<Longrightarrow> real_inputs wit rs = Inr (map (real_input wit) rs)"
  by (induction rs) auto

lemma pad_dummies_eq:
  assumes "length ins \<le> TX_INPUTS"
  shows "pad_dummies B ins 0 = Some (ins @ map (\<lambda>i. wallet_dummy B (word_of_nat i)) [0 ..< TX_INPUTS - length ins])"
proof -
  consider "length ins = 0" | "length ins = 1" | "length ins = 2" using assms unfolding TX_INPUTS_def by linarith
  then show ?thesis
    by cases (simp_all add: pad_dummies.simps TX_INPUTS_def add_or_panic_def upt_rec)
qed

lemma map_sort_key_comp: "map f (sort_key (\<lambda>x. g (f x)) xs) = sort_key g (map f xs)"
proof -
  have "map f (insort_key (\<lambda>x. g (f x)) x ys) = insort_key g (f x) (map f ys)" for x ys by (induction ys) auto
  then show ?thesis by (induction xs) simp_all
qed

text \<open>The inputs of a transfer: the selected notes and the dummies that pad them.\<close>

definition transfer_notes :: "blake3 \<Rightarrow> NoteRecord list \<Rightarrow> Note list" where
  "transfer_notes B sel = map nr_note sel @ map (\<lambda>i. dummy B (replicate 32 (0xD0 XOR word_of_nat i))) [0 ..< TX_INPUTS - length sel]"

definition transfer_nullifiers :: "blake3 \<Rightarrow> Wallet \<Rightarrow> NoteRecord list \<Rightarrow> Nullifier list" where
  "transfer_nullifiers B W sel = sort_key nf_bytes (map (\<lambda>n. nullifier B n (nk B (w_sk W))) (transfer_notes B sel))"

text \<open>The change of a selection that covers the amount stays in range.\<close>

lemma change_in_range:
  assumes "balance W = Some funds" and "select_inputs W amount = Some (Inr sel)" and "\<forall>r \<in> set sel. nr_value r < MAX_MONEY"
  obtains s c where "sum_or_panic (map nr_value sel) = Some s" "sub_or_panic s amount = Some c" "c < MAX_MONEY"
    "unat c + unat amount = sum_list (map (\<lambda>r. unat (nr_value r)) sel)"
proof -
  note sel = select_inputs_cases [OF assms(1), of amount, unfolded assms(2), simplified]
  let ?S = "sum_list (map (\<lambda>r. unat (nr_value r)) sel)"
  have lt: "unat (nr_value r) < 2 ^ 62" if "r \<in> set sel" for r
    using assms(3) that by (simp add: MAX_MONEY_def word_less_nat_alt)
  have shape: "sel = [] \<or> (\<exists>r. sel = [r]) \<or> (\<exists>r q. sel = [r, q])"
    using sel two_elements [of sel] by (cases sel rule: list.exhaust) (auto simp: TX_INPUTS_def le_Suc_eq length_Suc_conv numeral_2_eq_2)
  have "?S \<le> length sel * 2 ^ 62"
    using sum_list_mono [of sel "\<lambda>r. unat (nr_value r)" "\<lambda>_. 2 ^ 62"] lt less_imp_le by (force simp: sum_list_triv)
  then have "?S < 2 ^ 64" using shape by auto
  then obtain s where s: "sum_or_panic (map nr_value sel) = Some s"
    using sum_or_panic_exists [of "map nr_value sel"] by (auto simp: comp_def)
  then have us: "unat s = ?S" by (simp add: sum_or_panic_Some_iff comp_def)
  then have le: "amount \<le> s" using sel by (simp add: word_le_nat_alt)
  then have uc: "unat (s - amount) + unat amount = ?S" using us by (simp add: unat_sub word_le_nat_alt)
  have "unat (s - amount) < 2 ^ 62"
  proof (cases "\<exists>r q. sel = [r, q]")
    case True
    then obtain r q where rq: "sel = [r, q]" by blast
    then have "r \<in> set (w_unspent W)" using sel by (auto dest: mset_subset_eqD)
    then have "unat (nr_value r) < unat amount" using sel rq by (force simp: word_le_nat_alt)
    then show ?thesis using uc lt [of q] rq by simp
  next
    case False
    then consider "sel = []" | r where "sel = [r]" using shape by blast
    then show ?thesis using uc lt by cases fastforce+
  qed
  then show ?thesis using that [OF s, of "s - amount"] le uc by (simp add: sub_or_panic_def MAX_MONEY_def word_less_nat_alt)
qed

text \<open>All inputs of a transfer, in the order in which the wallet builds them.\<close>

definition transfer_inputs :: "blake3 \<Rightarrow> (u64 \<Rightarrow> MerklePath option) \<Rightarrow> NoteRecord list \<Rightarrow> InputWitness list" where
  "transfer_inputs B wit sel = map (real_input wit) sel @ map (\<lambda>i. wallet_dummy B (word_of_nat i)) [0 ..< TX_INPUTS - length sel]"

lemma transfer_inputs_simps:
  assumes "length sel \<le> TX_INPUTS"
  shows "length (transfer_inputs B wit sel) = TX_INPUTS" "map iw_note (transfer_inputs B wit sel) = transfer_notes B sel"
    "pad_dummies B (map (real_input wit) sel) 0 = Some (transfer_inputs B wit sel)"
    "sort_key nf_bytes (map (\<lambda>i. nullifier B (iw_note i) (nk B (w_sk W))) (transfer_inputs B wit sel)) = transfer_nullifiers B W sel"
proof -
  show ns: "map iw_note (transfer_inputs B wit sel) = transfer_notes B sel"
    by (simp add: transfer_inputs_def transfer_notes_def wallet_dummy_def comp_def)
  show "sort_key nf_bytes (map (\<lambda>i. nullifier B (iw_note i) (nk B (w_sk W))) (transfer_inputs B wit sel)) = transfer_nullifiers B W sel"
    unfolding transfer_nullifiers_def ns [symmetric] by (simp add: comp_def)
qed (use assms in \<open>simp_all add: transfer_inputs_def pad_dummies_eq\<close>)

lemma length_transfer_nullifiers: "length sel \<le> TX_INPUTS \<Longrightarrow> length (transfer_nullifiers B W sel) = 2"
  by (simp add: transfer_nullifiers_def transfer_notes_def TX_INPUTS_def)

text \<open>What a transfer that was built looks like.\<close>

definition out_note :: "blake3 \<Rightarrow> u64 \<Rightarrow> bytes \<Rightarrow> Nullifier \<Rightarrow> bytes \<Rightarrow> u8 \<Rightarrow> Note" where
  "out_note B v tag nf rng j = \<lparr>note_value = v, note_addr_tag = tag, note_rho = rho_transfer B nf j, note_rseed = derive_rseed B rng j\<rparr>"

definition transfer_body :: "Anchor \<Rightarrow> Nullifier list \<Rightarrow> Commitment list \<Rightarrow> EncryptedOutput list \<Rightarrow> bytes \<Rightarrow> TxV1" where
  "transfer_body anchor nfs cms encs pf = \<lparr>tx_anchor = anchor, tx_nullifiers = nfs, tx_commitments = cms, tx_enc_outputs = encs,
     tx_antispam = LanePow \<lparr>pow_nonce = 0\<rparr>, tx_proof = pf\<rparr>"

lemma assemble_transfer_eq:
  "assemble_transfer B C W rcpt amount change anchor ins [n0, n1] rng =
     (let tag = addr_tag B (w_sk W); o0 = out_note B amount (ad_addr_tag rcpt) n0 rng 0; o1 = out_note B change tag n0 rng 1 in
      do { e0 \<leftarrow> encrypt_note B C o0 rcpt (replicate MEMO_LEN 0) (derive_rseed B rng 10);
           e1 \<leftarrow> encrypt_note B C o1 (sk_address B C (w_sk W)) (replicate MEMO_LEN 0) (derive_rseed B rng 11);
           let body = transfer_body anchor [n0, n1] [commitment B o0, commitment B o1] [e0, e1];
           case prove B \<lparr>sw_spender_nk = nk B (w_sk W), sw_spender_addr_tag = tag, sw_inputs = ins, sw_outputs = [o0, o1],
                 sw_mint_value = 0, sw_binding_digest = binding_digest B (body (replicate PROOF_BUCKET 0))\<rparr> anchor of
             Inl (Unsatisfied s) \<Rightarrow> Some (Inl (Prove s)) | Inr (pi, pf) \<Rightarrow> Some (Inr (body pf)) })"
  by (simp add: assemble_transfer_def index_or_panic_def out_note_def transfer_body_def Let_def cong: sum.case_cong prod.case_cong)

lemma prove_caseD:
  "(case r of Inl (Unsatisfied s) \<Rightarrow> Some (Inl (f s)) | Inr (pi, pf) \<Rightarrow> Some (Inr (g pf))) = Some (Inr tx)
   \<Longrightarrow> \<exists>pi pf. r = Inr (pi, pf) \<and> tx = g pf"
  by (auto split: sum.splits ProveError.splits prod.splits)

lemma build_transfer_Inr:
  assumes "build_transfer B C W rcpt amount anchor wit rng = Some (Inr tx)"
    and "select_inputs W amount = Some (Inr sel)" and "length sel \<le> TX_INPUTS"
  shows "tx_nullifiers tx = transfer_nullifiers B W sel" and "tx_anchor tx = anchor"
proof -
  obtain n0 n1 where nfs: "transfer_nullifiers B W sel = [n0, n1]"
    using two_elements [OF length_transfer_nullifiers [OF assms(3)]] by blast
  obtain ins where ins: "real_inputs wit sel = Inr ins"
    using assms(1,2) by (cases "real_inputs wit sel") (auto simp: build_transfer_def bind_eq_Some_conv)
  have "\<exists>c. assemble_transfer B C W rcpt amount c anchor (transfer_inputs B wit sel) [n0, n1] rng = Some (Inr tx)"
    using assms(1) ins unfolding real_inputs_Inr [OF ins]
    by (auto simp: build_transfer_def assms(2) bind_eq_Some_conv transfer_inputs_simps [OF assms(3)] nfs simp del: length_map)
  then have "\<exists>cms encs pf. tx = transfer_body anchor [n0, n1] cms encs pf"
    unfolding assemble_transfer_eq Let_def by (auto simp: bind_eq_Some_conv dest!: prove_caseD)
  then show "tx_nullifiers tx = transfer_nullifiers B W sel" "tx_anchor tx = anchor"
    by (auto simp: transfer_body_def nfs)
qed

lemma out_note_simps [simp]: "note_addr_tag (out_note B v tag nf rng j) = tag" "note_value (out_note B v tag nf rng j) = v"
  by (simp_all add: out_note_def)

lemma wf_out_note: "digest32 B \<Longrightarrow> length tag = 32 \<Longrightarrow> wf_note (out_note B v tag nf rng j)"
  by (simp add: out_note_def wf_defs derive_rseed_def)

text \<open>The prover accepts the inputs of a transfer.\<close>

lemma transfer_inputs_ok:
  assumes "\<forall>r \<in> set sel. note_addr_tag (nr_note r) = tag \<and> nr_value r < MAX_MONEY"
    and "\<forall>r \<in> set sel. \<exists>p. wit (nr_position r) = Some p \<and> verify_path B (commitment B (nr_note r)) p root"
  shows "\<forall>i \<in> set (transfer_inputs B wit sel). input_ok B tag root i"
    and "sum_list (map (\<lambda>i. unat (note_value (iw_note i))) (transfer_inputs B wit sel)) = sum_list (map (\<lambda>r. unat (nr_value r)) sel)"
proof -
  show "\<forall>i \<in> set (transfer_inputs B wit sel). input_ok B tag root i"
    using assms by (auto simp: transfer_inputs_def input_ok_def wallet_dummy_def MAX_MONEY_def)
  show "sum_list (map (\<lambda>i. unat (note_value (iw_note i))) (transfer_inputs B wit sel)) = sum_list (map (\<lambda>r. unat (nr_value r)) sel)"
    by (simp add: transfer_inputs_def wallet_dummy_def comp_def)
qed

lemma transfer_provable:
  fixes d rng rtag :: bytes
  assumes "length sel \<le> TX_INPUTS" and "transfer_nullifiers B W sel = [n0, n1]" and "amount < MAX_MONEY" and "change < MAX_MONEY"
    and "unat change + unat amount = sum_list (map (\<lambda>r. unat (nr_value r)) sel)"
    and "\<forall>i \<in> set (transfer_inputs B wit sel). input_ok B tag (anc_root anchor) i"
    and "sum_list (map (\<lambda>i. unat (note_value (iw_note i))) (transfer_inputs B wit sel)) = sum_list (map (\<lambda>r. unat (nr_value r)) sel)"
  defines "w \<equiv> \<lparr>sw_spender_nk = nk B (w_sk W), sw_spender_addr_tag = tag, sw_inputs = transfer_inputs B wit sel,
      sw_outputs = [out_note B amount rtag n0 rng 0, out_note B change tag n0 rng 1], sw_mint_value = 0, sw_binding_digest = d\<rparr>"
  shows "\<exists>pf. prove B w anchor = Inr (\<lparr>pi_anchor = anchor, pi_nullifiers = [n0, n1],
      pi_commitments = map (commitment B) (sw_outputs w), pi_binding_digest = d, pi_mint_value = 0\<rparr>, pf)"
proof -
  have srt: "map (\<lambda>i. nullifier B (iw_note i) (nk B (w_sk W))) (sw_inputs (canonicalize B w)) = [n0, n1]"
    using transfer_inputs_simps(4) [OF assms(1), of B W wit] assms(2)
    by (simp add: canonicalize_def w_def map_sort_key_comp [where f = "\<lambda>i. nullifier B (iw_note i) (nk B (w_sk W))" and g = nf_bytes])
  then have "nullifier B (iw_note (hd (sw_inputs (canonicalize B w)))) (nk B (w_sk W)) = n0"
    by (cases "sw_inputs (canonicalize B w)") auto
  then have "\<exists>pi pf. prove B w anchor = Inr (pi, pf)"
    unfolding prove_ok_iff using assms(3-7) transfer_inputs_simps(1) [OF assms(1), of B wit]
    by (simp add: w_def out_note_def upt_rec TX_OUTPUTS_def MAX_MONEY_def)
  then obtain pi pf where "prove B w anchor = Inr (pi, pf)" by blast
  moreover from this have "pi = \<lparr>pi_anchor = anchor, pi_nullifiers = [n0, n1],
      pi_commitments = map (commitment B) (sw_outputs w), pi_binding_digest = d, pi_mint_value = 0\<rparr>"
    using srt by (simp add: prove_Inr_iff public_inputs_def w_def)
  ultimately show ?thesis by blast
qed

text \<open>The body of a transfer is valid whatever the two ciphertexts are: the statement does not mention them.\<close>

lemma transfer_body_valid:
  fixes rng rtag :: bytes
  assumes "digest32 B" and "length sel \<le> TX_INPUTS" and "transfer_nullifiers B W sel = [n0, n1]" and "n0 \<noteq> n1"
    and "amount < MAX_MONEY" and "change < MAX_MONEY" and "unat change + unat amount = sum_list (map (\<lambda>r. unat (nr_value r)) sel)"
    and "\<forall>r \<in> set sel. note_addr_tag (nr_note r) = addr_tag B (w_sk W) \<and> nr_value r < MAX_MONEY"
    and "\<forall>r \<in> set sel. \<exists>p. wit (nr_position r) = Some p \<and> verify_path B (commitment B (nr_note r)) p (anc_root anchor)"
    and "length (eo_bytes e0) = 1273" and "length (eo_bytes e1) = 1273"
  defines "outs \<equiv> [out_note B amount rtag n0 rng 0, out_note B change (addr_tag B (w_sk W)) n0 rng 1]"
  defines "body \<equiv> transfer_body anchor [n0, n1] (map (commitment B) outs) [e0, e1]"
  obtains pf where "prove B \<lparr>sw_spender_nk = nk B (w_sk W), sw_spender_addr_tag = addr_tag B (w_sk W),
      sw_inputs = transfer_inputs B wit sel, sw_outputs = outs, sw_mint_value = 0,
      sw_binding_digest = binding_digest B (body (replicate PROOF_BUCKET 0))\<rparr> anchor = Inr (to_public_inputs B (body pf), pf)"
    "validate_stateless B (body pf) (dev_verify B) 0 = Inr ()" "wf_anchor anchor \<longrightarrow> wf_tx_body (body pf)"
proof -
  have "sorted (map nf_bytes (transfer_nullifiers B W sel))" by (simp add: transfer_nullifiers_def)
  then have order: "nf_bytes n0 < nf_bytes n1" using assms(3,4) by (cases n0; cases n1) auto
  let ?d = "binding_digest B (body (replicate PROOF_BUCKET 0))"
  have tpi: "to_public_inputs B (body pf) = \<lparr>pi_anchor = anchor, pi_nullifiers = [n0, n1],
      pi_commitments = map (commitment B) outs, pi_binding_digest = ?d, pi_mint_value = 0\<rparr>" for pf
    by (simp add: to_public_inputs_def body_def transfer_body_def binding_digest_def binding_parts_def)
  obtain pf where pf: "prove B \<lparr>sw_spender_nk = nk B (w_sk W), sw_spender_addr_tag = addr_tag B (w_sk W),
      sw_inputs = transfer_inputs B wit sel, sw_outputs = outs, sw_mint_value = 0, sw_binding_digest = ?d\<rparr> anchor
      = Inr (to_public_inputs B (body pf), pf)"
    using transfer_provable [where rtag = rtag and rng = rng and d = ?d, OF assms(2,3,5-7) transfer_inputs_ok [OF assms(8,9)]]
    unfolding tpi outs_def by auto
  have "validate_stateless B (body pf) (dev_verify B) 0 = Inr ()"
    by (rule dev.proved_tx_validates [OF assms(1)]) (use pf order in \<open>simp_all add: body_def transfer_body_def pow_verify_def\<close>)
  moreover have "wf_nf n" if "n \<in> set (transfer_nullifiers B W sel)" for n
    using that assms(1) by (auto simp: transfer_nullifiers_def)
  then have "wf_anchor anchor \<longrightarrow> wf_tx_body (body pf)"
    using assms(1,3,10,11)
    by (simp add: wf_tx_body_def body_def outs_def transfer_body_def interface_consts enc_consts key_consts wf_antispam_def)
  ultimately show ?thesis using that pf by blast
qed

lemma build_transfer_explicit:
  assumes "digest32 B" and "x25519_ok C" and "aead_ok C"
    and "mlkem_ok_at C (kem_seed B k) (hash_parts B KEM_SEED [derive_rseed B rng 10])"
    and "mlkem_ok_at C (kem_seed B (w_sk W)) (hash_parts B KEM_SEED [derive_rseed B rng 11])"
    and "balance W = Some funds" and "select_inputs W amount = Some (Inr sel)"
    and "\<forall>r \<in> set sel. note_addr_tag (nr_note r) = addr_tag B (w_sk W) \<and> nr_value r < MAX_MONEY"
    and "\<forall>r \<in> set sel. \<exists>p. wit (nr_position r) = Some p \<and> verify_path B (commitment B (nr_note r)) p (anc_root anchor)"
    and "amount < MAX_MONEY" and "distinct (transfer_nullifiers B W sel)"
  obtains tx change e0 e1 out bk where "build_transfer B C W (sk_address B C k) amount anchor wit rng = Some (Inr tx)"
    and "validate_stateless B tx (dev_verify B) 0 = Inr ()"
    and "wf_anchor anchor \<longrightarrow> wf_tx_body tx" and "tx_antispam tx = LanePow \<lparr>pow_nonce = 0\<rparr>"
    and "tx_anchor tx = anchor" and "tx_nullifiers tx = transfer_nullifiers B W sel"
    and "out = out_note B amount (addr_tag B k) (hd (transfer_nullifiers B W sel)) rng 0"
    and "bk = out_note B change (addr_tag B (w_sk W)) (hd (transfer_nullifiers B W sel)) rng 1"
    and "tx_commitments tx = [commitment B out, commitment B bk]" and "tx_enc_outputs tx = [e0, e1]"
    and "encrypt_note B C out (sk_address B C k) (replicate MEMO_LEN 0) (derive_rseed B rng 10) = Some e0"
    and "encrypt_note B C bk (sk_address B C (w_sk W)) (replicate MEMO_LEN 0) (derive_rseed B rng 11) = Some e1"
    and "try_decrypt B C e0 (incoming_viewing_key B C k) = Some out"
    and "try_decrypt B C e1 (incoming_viewing_key B C (w_sk W)) = Some bk"
    and "change < MAX_MONEY" and "unat change + unat amount = sum_list (map (\<lambda>r. unat (nr_value r)) sel)"
proof -
  have len: "length sel \<le> TX_INPUTS" using select_inputs_cases [OF assms(6), of amount] by (simp add: assms(7))
  obtain n0 n1 where nfs: "transfer_nullifiers B W sel = [n0, n1]"
    using two_elements [OF length_transfer_nullifiers [OF len]] by blast
  have ne: "n0 \<noteq> n1" using assms(11) by (simp add: nfs)
  obtain s change where ch: "sum_or_panic (map nr_value sel) = Some s" "sub_or_panic s amount = Some change" "change < MAX_MONEY"
      "unat change + unat amount = sum_list (map (\<lambda>r. unat (nr_value r)) sel)"
    using change_in_range [OF assms(6,7)] assms(8) by blast
  let ?o0 = "out_note B amount (addr_tag B k) n0 rng 0" and ?o1 = "out_note B change (addr_tag B (w_sk W)) n0 rng 1"
  note dec = encrypt_decrypts [OF assms(1-3)]
  obtain e0 where e0: "encrypt_note B C ?o0 (sk_address B C k) (replicate MEMO_LEN 0) (derive_rseed B rng 10) = Some e0"
      "try_decrypt B C e0 (incoming_viewing_key B C k) = Some ?o0" "length (eo_bytes e0) = 1273"
    using dec [OF assms(4), of ?o0 "replicate MEMO_LEN 0"] assms(1) by (auto simp: wf_out_note)
  obtain e1 where e1: "encrypt_note B C ?o1 (sk_address B C (w_sk W)) (replicate MEMO_LEN 0) (derive_rseed B rng 11) = Some e1"
      "try_decrypt B C e1 (incoming_viewing_key B C (w_sk W)) = Some ?o1" "length (eo_bytes e1) = 1273"
    using dec [OF assms(5), of ?o1 "replicate MEMO_LEN 0"] assms(1) by (auto simp: wf_out_note)
  let ?body = "transfer_body anchor [n0, n1] (map (commitment B) [?o0, ?o1]) [e0, e1]"
  obtain pf where pf: "prove B \<lparr>sw_spender_nk = nk B (w_sk W), sw_spender_addr_tag = addr_tag B (w_sk W),
      sw_inputs = transfer_inputs B wit sel, sw_outputs = [?o0, ?o1], sw_mint_value = 0,
      sw_binding_digest = binding_digest B (?body (replicate PROOF_BUCKET 0))\<rparr> anchor = Inr (to_public_inputs B (?body pf), pf)"
    "validate_stateless B (?body pf) (dev_verify B) 0 = Inr ()" "wf_anchor anchor \<longrightarrow> wf_tx_body (?body pf)"
    by (rule transfer_body_valid [OF assms(1) len nfs ne assms(10) ch(3,4) assms(8,9) e0(3) e1(3)])
  have "real_inputs wit sel = Inr (map (real_input wit) sel)" using assms(9) by (intro real_inputs_total) auto
  then have "build_transfer B C W (sk_address B C k) amount anchor wit rng = Some (Inr (?body pf))"
    using pf(1) by (simp add: build_transfer_def assms(7) ch(1,2) transfer_inputs_simps [OF len] nfs assemble_transfer_eq e0(1) e1(1) Let_def)
  then show ?thesis
    using pf(2,3) e0(1,2) e1(1,2) ch(3,4) nfs by (intro that [of "?body pf" ?o0 ?o1 change e0 e1]) (simp_all add: transfer_body_def)
qed

lemma build_transfer_ok:
  assumes "digest32 B" and "x25519_ok C" and "aead_ok C"
    and "mlkem_ok_at C (kem_seed B k) (hash_parts B KEM_SEED [derive_rseed B rng 10])"
    and "mlkem_ok_at C (kem_seed B (w_sk W)) (hash_parts B KEM_SEED [derive_rseed B rng 11])"
    and "balance W = Some funds" and "select_inputs W amount = Some (Inr sel)"
    and "\<forall>r \<in> set sel. note_addr_tag (nr_note r) = addr_tag B (w_sk W) \<and> nr_value r < MAX_MONEY"
    and "\<forall>r \<in> set sel. \<exists>p. wit (nr_position r) = Some p \<and> verify_path B (commitment B (nr_note r)) p (anc_root anchor)"
    and "amount < MAX_MONEY" and "distinct (transfer_nullifiers B W sel)"
  shows "\<exists>tx out back. build_transfer B C W (sk_address B C k) amount anchor wit rng = Some (Inr tx)
    \<and> validate_stateless B tx (dev_verify B) 0 = Inr ()
    \<and> (wf_anchor anchor \<longrightarrow> wf_tx_body tx) \<and> tx_antispam tx = LanePow \<lparr>pow_nonce = 0\<rparr>
    \<and> tx_anchor tx = anchor \<and> tx_nullifiers tx = transfer_nullifiers B W sel
    \<and> tx_commitments tx = [commitment B out, commitment B back]
    \<and> map (\<lambda>e. try_decrypt B C e (incoming_viewing_key B C k)) (take 1 (tx_enc_outputs tx)) = [Some out]
    \<and> map (\<lambda>e. try_decrypt B C e (incoming_viewing_key B C (w_sk W))) (drop 1 (tx_enc_outputs tx)) = [Some back]
    \<and> note_value out = amount
    \<and> unat (note_value back) + unat amount = sum_list (map (\<lambda>r. unat (nr_value r)) sel)"
proof -
  obtain tx out bk e0 e1 where "build_transfer B C W (sk_address B C k) amount anchor wit rng = Some (Inr tx)"
    "validate_stateless B tx (dev_verify B) 0 = Inr ()" "wf_anchor anchor \<longrightarrow> wf_tx_body tx"
    "tx_antispam tx = LanePow \<lparr>pow_nonce = 0\<rparr>" "tx_anchor tx = anchor" "tx_nullifiers tx = transfer_nullifiers B W sel"
    "tx_commitments tx = [commitment B out, commitment B bk]" "tx_enc_outputs tx = [e0, e1]"
    "try_decrypt B C e0 (incoming_viewing_key B C k) = Some out" "try_decrypt B C e1 (incoming_viewing_key B C (w_sk W)) = Some bk"
    "note_value out = amount" "unat (note_value bk) + unat amount = sum_list (map (\<lambda>r. unat (nr_value r)) sel)"
    using build_transfer_explicit [OF assms] out_note_simps(2) by metis
  then show ?thesis by (intro exI [of _ tx] exI [of _ out] exI [of _ bk]) simp
qed

section \<open>Properties\<close>

text \<open>C27. Input selection is exact: when the balance does not overflow, the wallet selects at most two
  of its notes that cover the amount, and a least covering note alone when one note covers it; it
  reports an error exactly when no two of its notes cover the amount, \<^verbatim>\<open>InsufficientFunds\<close> when
  not even all of them do, and it never panics.\<close>

theorem select_inputs_exact:
  assumes "balance W = Some funds"
  shows "case select_inputs W amount of
      Some (Inr sel) \<Rightarrow> mset sel \<subseteq># mset (w_unspent W) \<and> length sel \<le> TX_INPUTS
        \<and> unat amount \<le> sum_list (map (\<lambda>r. unat (nr_value r)) sel)
        \<and> (\<forall>r \<in> set (w_unspent W). amount \<le> nr_value r \<longrightarrow> length sel = 1 \<and> nr_value (hd sel) \<le> nr_value r)
    | Some (Inl e) \<Rightarrow> e = (if funds < amount then InsufficientFunds funds amount else TooManyInputsNeeded)
        \<and> (\<forall>M. M \<subseteq># mset (w_unspent W) \<longrightarrow> size M \<le> TX_INPUTS \<longrightarrow> (\<Sum>r \<in># M. unat (nr_value r)) < unat amount)
    | None \<Rightarrow> False"
  by (rule select_inputs_cases [OF assms])

definition sample_record :: "u64 \<Rightarrow> NoteRecord" where
  "sample_record v = \<lparr>nr_note = \<lparr>note_value = v, note_addr_tag = replicate 32 0, note_rho = replicate 32 9, note_rseed = replicate 32 8\<rparr>,
     nr_position = 0\<rparr>"

definition sample_wallet :: Wallet where
  "sample_wallet = (w_from_seed zero_hash [])\<lparr>w_unspent := map sample_record [5, 20, 7]\<rparr>"

lemma select_inputs_exact_witness:
  "select_inputs sample_wallet 25 = Some (Inr [sample_record 20, sample_record 7])
   \<and> mset [sample_record 20, sample_record 7] \<subseteq># mset (w_unspent sample_wallet)"
proof -
  have bal: "balance sample_wallet = Some 32"
    by (simp add: sample_wallet_def balance_def sample_record_def sum_or_panic_def add_or_panic_def)
  have "select_inputs sample_wallet 25 = Some (Inr [sample_record 20, sample_record 7])"
    unfolding select_inputs_def bal
    by (simp add: sample_wallet_def sample_record_def TX_INPUTS_def sum_or_panic_def add_or_panic_def)
  then show ?thesis using select_inputs_exact [OF bal, of 25] by simp
qed

text \<open>C15. A transfer is built, valid and delivered.  Let the selected notes be the wallet's own, in range
  and provable against the anchor, let the amount be in range and the two input nullifiers
  differ.  Then building succeeds; the transaction passes stateless validation with the dev verifier
  at difficulty 0; it spends the selected notes; the recipient decrypts a note of
  exactly the amount and the wallet decrypts the change; the published commitments are those of the two decrypted
  notes; and the values in and out are equal.\<close>

theorem build_transfer_delivers:
  assumes "digest32 B" and "x25519_ok C" and "aead_ok C"
    and "mlkem_ok_at C (kem_seed B k) (hash_parts B KEM_SEED [derive_rseed B rng 10])"
    and "mlkem_ok_at C (kem_seed B (w_sk W)) (hash_parts B KEM_SEED [derive_rseed B rng 11])"
    and "balance W = Some funds" and "select_inputs W amount = Some (Inr sel)"
    and "\<forall>r \<in> set sel. note_addr_tag (nr_note r) = addr_tag B (w_sk W) \<and> nr_value r < MAX_MONEY"
    and "\<forall>r \<in> set sel. \<exists>p. wit (nr_position r) = Some p \<and> verify_path B (commitment B (nr_note r)) p (anc_root anchor)"
    and "amount < MAX_MONEY" and "distinct (transfer_nullifiers B W sel)"
  shows "\<exists>tx out back. build_transfer B C W (sk_address B C k) amount anchor wit rng = Some (Inr tx)
    \<and> validate_stateless B tx (dev_verify B) 0 = Inr ()
    \<and> (wf_anchor anchor \<longrightarrow> wf_tx_body tx) \<and> tx_antispam tx = LanePow \<lparr>pow_nonce = 0\<rparr>
    \<and> tx_anchor tx = anchor \<and> tx_nullifiers tx = transfer_nullifiers B W sel
    \<and> tx_commitments tx = [commitment B out, commitment B back]
    \<and> map (\<lambda>e. try_decrypt B C e (incoming_viewing_key B C k)) (take 1 (tx_enc_outputs tx)) = [Some out]
    \<and> map (\<lambda>e. try_decrypt B C e (incoming_viewing_key B C (w_sk W))) (drop 1 (tx_enc_outputs tx)) = [Some back]
    \<and> note_value out = amount
    \<and> unat (note_value back) + unat amount = sum_list (map (\<lambda>r. unat (nr_value r)) sel)"
  by (rule build_transfer_ok [OF assms])

text \<open>
  A wallet for the witnesses.  \<open>last_hash\<close> repeats the last byte of its input, so that the
  note's and the dummy's nullifiers differ.
\<close>

definition last_hash :: blake3 where
  "last_hash c m = replicate 32 (last m)"

lemma digest32_last_hash [simp]: "digest32 last_hash"
  by (simp add: digest32_def last_hash_def)

lemma hash_parts_last_hash: "p \<noteq> [] \<Longrightarrow> hash_parts last_hash c (ps @ [p]) = replicate 32 (last p)"
  by (simp add: hash_parts_def absorb_parts_def last_hash_def)

definition sample_key :: SpendingKey where
  "sample_key = sk_from_seed last_hash (replicate 32 1)"

definition owned_note :: "u8 \<Rightarrow> Note" where
  "owned_note b = \<lparr>note_value = 100, note_addr_tag = addr_tag last_hash sample_key, note_rho = replicate 32 b, note_rseed = replicate 32 8\<rparr>"

definition owner_wallet :: "u8 \<Rightarrow> u64 \<Rightarrow> Wallet" where
  "owner_wallet b pos = \<lparr>w_sk = sample_key, w_unspent = [\<lparr>nr_note = owned_note b, nr_position = pos\<rparr>], w_seen_nullifiers = {}\<rparr>"

lemma owned_note_simps [simp]:
  "note_value (owned_note b) = 100" "note_addr_tag (owned_note b) = addr_tag last_hash sample_key"
  by (simp_all add: owned_note_def)

lemma commitment_owned_note: "commitment last_hash (owned_note b) = Commitment (replicate 32 8)"
  using hash_parts_last_hash [of "replicate 32 8" NOTE_COMMITMENT "[u64_to_le_bytes 100, addr_tag last_hash sample_key, replicate 32 b]"]
  by (simp add: commitment_def commitment_parts_def owned_note_def)

lemma nullifier_owned_note: "nullifier last_hash (owned_note b) k = Nullifier (replicate 32 b)"
  using hash_parts_last_hash [of "replicate 32 b" NULLIFIER "[k]"] by (simp add: nullifier_def owned_note_def)

lemma nullifier_dummy: "nullifier last_hash (dummy last_hash (replicate 32 b)) k = Nullifier (replicate 32 b)"
  using hash_parts_last_hash [of "replicate 32 b" NULLIFIER "[k]"] hash_parts_last_hash [of "replicate 32 b" _ "[]"]
  by (simp add: nullifier_def dummy_def)

lemma owner_wallet_simps:
  "balance (owner_wallet b pos) = Some 100"
  "select_inputs (owner_wallet b pos) 30 = Some (Inr [\<lparr>nr_note = owned_note b, nr_position = pos\<rparr>])"
  "w_sk (owner_wallet b pos) = sample_key"
proof -
  show bal: "balance (owner_wallet b pos) = Some 100"
    by (simp add: balance_def owner_wallet_def owned_note_def sum_or_panic_def add_or_panic_def)
  show "select_inputs (owner_wallet b pos) 30 = Some (Inr [\<lparr>nr_note = owned_note b, nr_position = pos\<rparr>])"
    unfolding select_inputs_def bal by (simp add: owner_wallet_def owned_note_def)
qed (simp add: owner_wallet_def)

lemma owner_wallet_nullifiers:
  "set (transfer_nullifiers last_hash (owner_wallet b pos) [\<lparr>nr_note = owned_note b, nr_position = pos\<rparr>])
     = {Nullifier (replicate 32 b), Nullifier (replicate 32 0xD0)}"
  "b \<noteq> 0xD0 \<Longrightarrow> distinct (transfer_nullifiers last_hash (owner_wallet b pos) [\<lparr>nr_note = owned_note b, nr_position = pos\<rparr>])"
  by (auto simp: transfer_nullifiers_def transfer_notes_def TX_INPUTS_def nullifier_owned_note nullifier_dummy)

text \<open>The owner's 30-coin payment out of a tree that holds the note.\<close>

lemma owner_transfer:
  assumes "b \<noteq> 0xD0" and "wf_tree last_hash t" and "length (ct_leaves t) \<le> 2 ^ TREE_DEPTH"
    and "unat pos < length (ct_leaves t)" and "ct_leaves t ! unat pos = cm_bytes (commitment last_hash (owned_note b))"
    and "anc_root a = ct_root last_hash t"
  shows "\<exists>tx. build_transfer last_hash null_crypto (owner_wallet b pos) (sk_address last_hash null_crypto sample_key) 30 a
        (ct_witness last_hash t) rng = Some (Inr tx)
    \<and> validate_stateless last_hash tx (dev_verify last_hash) 0 = Inr () \<and> (wf_anchor a \<longrightarrow> wf_tx_body tx)
    \<and> tx_antispam tx = LanePow \<lparr>pow_nonce = 0\<rparr> \<and> tx_anchor tx = a
    \<and> set (tx_nullifiers tx) = {Nullifier (replicate 32 b), Nullifier (replicate 32 0xD0)}"
proof -
  obtain p where p: "ct_witness last_hash t pos = Some p" "verify_path last_hash (commitment last_hash (owned_note b)) p (ct_root last_hash t)"
    using note_tree.witness_verifies [OF assms(2-4) assms(5) [symmetric]] by blast
  note sel = owner_wallet_simps [of b pos]
  show ?thesis
    using build_transfer_ok [where B = last_hash and C = null_crypto and k = sample_key and W = "owner_wallet b pos" and wit = "ct_witness last_hash t"
        and anchor = a and rng = rng, OF _ _ _ _ _ sel(1,2)] owner_wallet_nullifiers(2) [OF assms(1)] p assms(6)
    by (auto simp: sel(3) MAX_MONEY_def owner_wallet_nullifiers(1) [of b pos])
qed

lemma build_transfer_delivers_witness:
  "\<exists>tx out back. build_transfer last_hash null_crypto (owner_wallet 9 0) (sk_address last_hash null_crypto sample_key) 30
       \<lparr>anc_height = 0, anc_root = ct_root last_hash (from_raw_leaves last_hash [replicate 32 8])\<rparr>
       (ct_witness last_hash (from_raw_leaves last_hash [replicate 32 8])) (replicate 32 42) = Some (Inr tx)
     \<and> validate_stateless last_hash tx (dev_verify last_hash) 0 = Inr ()
     \<and> tx_commitments tx = [commitment last_hash out, commitment last_hash back]
     \<and> note_value out = 30 \<and> unat (note_value back) + 30 = 100"
proof -
  let ?t = "from_raw_leaves last_hash [replicate 32 8]" and ?r = "\<lparr>nr_note = owned_note 9, nr_position = 0\<rparr>"
  obtain p where p: "ct_witness last_hash ?t 0 = Some p" "verify_path last_hash (commitment last_hash (owned_note 9)) p (ct_root last_hash ?t)"
    using note_tree.witness_verifies [of last_hash ?t 0 "commitment last_hash (owned_note 9)"] by (auto simp: commitment_owned_note TREE_DEPTH_def)
  note sel = owner_wallet_simps [of 9 0]
  show ?thesis
    using build_transfer_delivers [where B = last_hash and C = null_crypto and k = sample_key and W = "owner_wallet 9 0"
        and wit = "ct_witness last_hash ?t" and anchor = "\<lparr>anc_height = 0, anc_root = ct_root last_hash ?t\<rparr>" and rng = "replicate 32 42",
        OF _ _ _ _ _ sel(1,2)] owner_wallet_nullifiers(2) [of 9 0] p
    by (auto simp: sel(3) MAX_MONEY_def)
qed

end
