(* ===== verification/Node.thy ===== *)
theory Node
  imports Persistence Wallet
begin

text \<open>
  \<^verbatim>\<open>crates/node\<close>: the single-sequencer devnet.  \<open>demo_checkpoint\<close> applies a checkpoint and feeds
  the wallets; \<open>run_demo\<close> is the scripted life cycle.  The lines that are printed are values of
  \<open>LogLine\<close> and \<open>DemoError\<close>: they keep what is printed and drop the wording.
\<close>

section \<open>The sequencer\<close>

definition GENESIS_FUND :: u64 where "GENESIS_FUND = 1000000"

record Demo =
  dm_ledger :: Ledger
  dm_genesis_supply :: u64

record CheckpointReport =
  cr_height :: u64
  cr_accepted :: nat
  cr_rejected :: nat
  cr_emission :: u64
  cr_supply :: u64
  cr_audit :: bool

text \<open>The delivery loop: each output takes the next position, and nothing once they run out.\<close>

fun deliver :: "blake3 \<Rightarrow> crypto_lib \<Rightarrow> EncryptedOutput list \<Rightarrow> u64 list \<Rightarrow> Wallet list \<Rightarrow> Wallet list" where
  "deliver B C (out # outs) (position # ps) ws =
     deliver B C outs ps (map (\<lambda>w. fst (try_receive B C w out position)) ws)"
| "deliver B C _ _ ws = ws"

definition demo_checkpoint ::
  "blake3 \<Rightarrow> crypto_lib \<Rightarrow> Demo \<Rightarrow> TxV1 list \<Rightarrow> Wallet list \<Rightarrow> (Demo \<times> Wallet list \<times> CheckpointReport) option" where
  "demo_checkpoint B C demo txs wallets =
     do { let enc_outputs = map tx_enc_outputs txs;
          (ledger, summary) \<leftarrow> apply_checkpoint B (dm_ledger demo) txs (dev_verify B);
          let all_nf = concat (map tx_nullifiers txs);
          let ws = map (\<lambda>w. observe_nullifiers B w all_nf) wallets;
          let accepted_indices = filter (\<lambda>i. \<not> list_ex (\<lambda>(ri, _). ri = i) (cs_rejected summary)) [0 ..< length txs];
          let ws = deliver B C (concat (map (\<lambda>i. enc_outputs ! i) accepted_indices)) (cs_output_positions summary) ws;
          audit \<leftarrow> audit_supply ledger (dm_genesis_supply demo);
          Some (demo\<lparr>dm_ledger := ledger\<rparr>, ws,
                \<lparr>cr_height = cs_height summary, cr_accepted = cs_accepted summary,
                 cr_rejected = length (cs_rejected summary), cr_emission = rd_total (cs_rewards summary),
                 cr_supply = cs_total_supply summary, cr_audit = audit\<rparr>) }"

definition demo_anchor :: "blake3 \<Rightarrow> Demo \<Rightarrow> Anchor" where
  "demo_anchor B demo = current_anchor B (dm_ledger demo)"

section \<open>The scripted life cycle\<close>

datatype LogLine =
    GenesisLine u64 u64 | TransferLine u64 | CheckpointLine CheckpointReport | BalanceLine u64 u64 u64 | FinalLine u64

datatype DemoError =
    GenesisNotReceived | BuildFailed WalletError | UnexpectedBalances u64 u64

definition map_err :: "('e \<Rightarrow> 'f) \<Rightarrow> 'e + 'a \<Rightarrow> 'f + 'a" where
  "map_err f r = (case r of Inl e \<Rightarrow> Inl (f e) | Inr x \<Rightarrow> Inr x)"

definition run_demo :: "blake3 \<Rightarrow> crypto_lib \<Rightarrow> (DemoError + LogLine list) option" where
  "run_demo B C =
     do { let alice = w_from_seed B (replicate 32 1);
          let bob = w_from_seed B (replicate 32 2);
          let carol = w_from_seed B (replicate 32 3);
          let alice_note = \<lparr>note_value = GENESIS_FUND, note_addr_tag = ad_addr_tag (w_address B C alice),
                note_rho = rho_mint B 0 0, note_rseed = rho_mint B 0 200\<rparr>;
          let validators = [\<lparr>vi_weight = 1, vi_addr_tag = replicate 32 0xAB\<rparr>];
          emission \<leftarrow> em_new 10000 100 1000;
          ledger \<leftarrow> genesis B emission validators 0 [(commitment B alice_note, GENESIS_FUND)];
          let demo = \<lparr>dm_ledger = ledger, dm_genesis_supply = GENESIS_FUND\<rparr>;
          genesis_enc \<leftarrow> encrypt_note B C alice_note (w_address B C alice) (replicate 64 0) (replicate 32 0xE1);
          let (alice, received) = try_receive B C alice genesis_enc 0;
          if \<not> received then Some (Inl GenesisNotReceived)
          else do { a0 \<leftarrow> balance alice;
          let log = [GenesisLine GENESIS_FUND a0];
          let anchor = demo_anchor B demo;
          rbind (map_option (map_err BuildFailed)
              (build_transfer B C alice (w_address B C bob) 250000 anchor (tree_witness B (dm_ledger demo)) (replicate 32 0x10)))
            (\<lambda>tx1. do {
          (demo, ws, r1) \<leftarrow> demo_checkpoint B C demo [tx1] [alice, bob, carol];
          a1 \<leftarrow> balance (ws ! 0); b1 \<leftarrow> balance (ws ! 1); c1 \<leftarrow> balance (ws ! 2);
          let log = log @ [TransferLine 250000, CheckpointLine r1, BalanceLine a1 b1 c1];
          if a1 \<noteq> 750000 \<or> b1 \<noteq> 250000 then Some (Inl (UnexpectedBalances a1 b1))
          else do { let anchor2 = demo_anchor B demo;
          rbind (map_option (map_err BuildFailed)
              (build_transfer B C (ws ! 1) (w_address B C (ws ! 2)) 100000 anchor2 (tree_witness B (dm_ledger demo)) (replicate 32 0x20)))
            (\<lambda>tx2. do {
          (demo, ws, r2) \<leftarrow> demo_checkpoint B C demo [tx2] ws;
          a2 \<leftarrow> balance (ws ! 0); b2 \<leftarrow> balance (ws ! 1); c2 \<leftarrow> balance (ws ! 2);
          let log = log @ [TransferLine 100000, CheckpointLine r2, BalanceLine a2 b2 c2];
          if b2 \<noteq> 150000 \<or> c2 \<noteq> 100000 then Some (Inl (UnexpectedBalances b2 c2))
          else Some (Inr (log @ [FinalLine (total_supply (dm_ledger demo))])) }) } }) } }"

text \<open>\<^verbatim>\<open>main\<close>: the lines on standard output, the error on standard error, the exit status.\<close>

definition node_main :: "blake3 \<Rightarrow> crypto_lib \<Rightarrow> (LogLine list \<times> DemoError option \<times> nat) option" where
  "node_main B C =
     do { r \<leftarrow> run_demo B C;
          Some (case r of Inr log \<Rightarrow> (log, None, 0) | Inl e \<Rightarrow> ([], Some e, 1)) }"

section \<open>What the delivery loop does\<close>

definition received :: "blake3 \<Rightarrow> crypto_lib \<Rightarrow> SpendingKey \<Rightarrow> (EncryptedOutput \<times> u64) list \<Rightarrow> NoteRecord list" where
  "received B C k outs = List.map_filter (\<lambda>(out, p).
     case try_decrypt B C out (incoming_viewing_key B C k) of
       Some n \<Rightarrow> if note_value n > 0 then Some \<lparr>nr_note = n, nr_position = p\<rparr> else None
     | None \<Rightarrow> None) outs"

lemma received_simps [simp]: "received B C k [] = []"
  by (simp add: received_def)

lemma try_receive_unspent:
  "fst (try_receive B C w out p) = w\<lparr>w_unspent := w_unspent w @ received B C (w_sk w) [(out, p)]\<rparr>"
  by (simp add: try_receive_def received_def split: option.split)

lemma received_Cons: "received B C k (x # xs) = received B C k [x] @ received B C k xs"
  by (simp add: received_def split: option.split prod.split)

lemma deliver_eq:
  "deliver B C outs ps ws = map (\<lambda>w. w\<lparr>w_unspent := w_unspent w @ received B C (w_sk w) (zip outs ps)\<rparr>) ws"
proof (induction B C outs ps ws rule: deliver.induct)
  case (1 B C out outs p ps ws)
  then show ?case
    using received_Cons [of B C _ "(out, p)" "zip outs ps"] by (simp add: try_receive_unspent)
qed simp_all

text \<open>The indices that were not rejected, and the transactions that were accepted.\<close>

lemma accepted_outputs:
  "map (\<lambda>i. f (txs ! i)) (filter (\<lambda>i. \<not> list_ex (\<lambda>(ri, _). ri = i) (cs_rejected S)) [0 ..< length txs])
   = map f (accepted_by txs S)"
proof -
  have "list_ex (\<lambda>(ri, _). ri = i) rs \<longleftrightarrow> i \<in> fst ` set rs" for i and rs :: "(nat \<times> RejectReason) list"
    by (force simp: list_ex_iff)
  moreover have "enumerate 0 txs = map (\<lambda>i. (i, txs ! i)) [0 ..< length txs]"
    by (rule nth_equalityI) (simp_all add: nth_enumerate_eq)
  ultimately show ?thesis by (simp add: accepted_by_def filter_map comp_def)
qed

text \<open>The positions of a checkpoint are those of the accepted outputs, in order.\<close>

lemma positions_of_accepted:
  assumes step: "apply_checkpoint B L txs V = Some (L', S)" and inv: "ledger_inv B L" and wf: "\<forall>tx \<in> set txs. wf_tx_body tx"
    and few: "length (ct_leaves (lg_tree L')) \<le> 2 ^ 64"
  defines "cms \<equiv> concat (map tx_commitments (accepted_by txs S))"
  shows "length (cs_output_positions S) = length cms"
    and "j < length cms \<Longrightarrow> ct_leaves (lg_tree L') ! unat (cs_output_positions S ! j) = cm_bytes (cms ! j)"
    and "j < length cms \<Longrightarrow> unat (cs_output_positions S ! j) < length (ct_leaves (lg_tree L'))"
proof -
  obtain ns where leaves: "ct_leaves (lg_tree L') = ct_leaves (lg_tree L) @ map cm_bytes cms @ map (\<lambda>n. cm_bytes (commitment B n)) ns"
    using checkpoint_accepts(5) [OF step inv wf] unfolding cms_def by blast
  obtain nh st rewards tree where st: "process_txs B V L nh 0 txs (staging_init L) = Some st"
      "cs_rejected S = st_rejected st"
      "cs_output_positions S = map word_of_nat [length (ct_leaves (lg_tree L)) ..< length (ct_leaves (lg_tree L)) + length (st_staged_cm st)]"
    by (rule checkpoint_steps [OF step])
  obtain vs where vs: "ledger_judge B V L nh (lg_nullifiers L) txs vs" "staged 0 txs vs (staging_init L) st"
    using process_txs_judge [OF st(1)] by (auto simp: staging_init_def)
  have "accepted_by txs S = accepted_txs vs txs"
    using accepted_txs_filter [OF judge_length [OF vs(1)], of 0] vs(2) st(2)
    by (simp add: accepted_by_def staged_def staging_init_def)
  then have cm: "st_staged_cm st = cms" using vs(2) by (simp add: staged_def staging_init_def cms_def)
  show len: "length (cs_output_positions S) = length cms" by (simp add: st(3) cm)
  let ?n = "length (ct_leaves (lg_tree L))"
  assume j: "j < length cms"
  have "?n + j < 2 ^ 64" using few j by (simp add: leaves)
  then have "unat (cs_output_positions S ! j) = ?n + j"
    using j by (simp add: st(3) cm unsigned_of_nat take_bit_nat_eq_self del: of_nat_add)
  then show "ct_leaves (lg_tree L') ! unat (cs_output_positions S ! j) = cm_bytes (cms ! j)"
    and "unat (cs_output_positions S ! j) < length (ct_leaves (lg_tree L'))"
    using j by (simp_all add: leaves nth_append)
qed

lemma demo_checkpoint_steps:
  assumes "demo_checkpoint B C demo txs ws = Some (demo', ws', r)"
  obtains S where "apply_checkpoint B (dm_ledger demo) txs (dev_verify B) = Some (dm_ledger demo', S)"
    "ws' = map (\<lambda>w. let w = observe_nullifiers B w (concat (map tx_nullifiers txs)) in
         w\<lparr>w_unspent := w_unspent w @ received B C (w_sk w)
            (zip (concat (map tx_enc_outputs (accepted_by txs S))) (cs_output_positions S))\<rparr>) ws"
proof -
  obtain L' S where step: "apply_checkpoint B (dm_ledger demo) txs (dev_verify B) = Some (L', S)"
      "demo' = demo\<lparr>dm_ledger := L'\<rparr>"
      "ws' = deliver B C (concat (map (\<lambda>i. map tx_enc_outputs txs ! i)
            (filter (\<lambda>i. \<not> list_ex (\<lambda>(ri, _). ri = i) (cs_rejected S)) [0 ..< length txs])))
         (cs_output_positions S) (map (\<lambda>w. observe_nullifiers B w (concat (map tx_nullifiers txs))) ws)"
    using assms by (auto simp: demo_checkpoint_def bind_eq_Some_conv Let_def split: prod.splits)
  have "map (\<lambda>i. map tx_enc_outputs txs ! i) (filter (\<lambda>i. \<not> list_ex (\<lambda>(ri, _). ri = i) (cs_rejected S)) [0 ..< length txs])
      = map (\<lambda>i. tx_enc_outputs (txs ! i)) (filter (\<lambda>i. \<not> list_ex (\<lambda>(ri, _). ri = i) (cs_rejected S)) [0 ..< length txs])"
    by (rule map_cong) auto
  then have "ws' = map (\<lambda>w. let w = observe_nullifiers B w (concat (map tx_nullifiers txs)) in
         w\<lparr>w_unspent := w_unspent w @ received B C (w_sk w)
            (zip (concat (map tx_enc_outputs (accepted_by txs S))) (cs_output_positions S))\<rparr>) ws"
    unfolding step(3) accepted_outputs deliver_eq by (simp add: accepted_outputs deliver_eq Let_def)
  then show ?thesis using that [of S] step(1,2) by simp
qed

section \<open>Properties\<close>

text \<open>C16. Delivery is exact and positions are right.  After a checkpoint of well-formed transactions on a
  ledger that satisfies the invariant, each wallet keeps, in order, exactly the notes whose nullifiers it had not seen before and
  no submitted transaction publishes (rejected ones included), followed by the notes that it decrypts from
  the outputs of accepted transactions, in order and none from a rejected one; it has seen exactly those nullifiers in addition, and
  keeps its key; and the leaf at the position recorded with the \<open>j\<close>-th of those outputs is the
  \<open>j\<close>-th commitment that the accepted transactions published.\<close>

theorem checkpoint_delivers_exactly:
  assumes "demo_checkpoint B C demo txs ws = Some (demo', ws', r)" and "ledger_inv B (dm_ledger demo)"
    and "\<forall>tx \<in> set txs. wf_tx_body tx" and "length (ct_leaves (lg_tree (dm_ledger demo'))) \<le> 2 ^ 64"
  shows "\<exists>S. apply_checkpoint B (dm_ledger demo) txs (dev_verify B) = Some (dm_ledger demo', S)
    \<and> map w_unspent ws' = map (\<lambda>w.
        filter (\<lambda>r. nullifier B (nr_note r) (nk B (w_sk w)) \<notin> w_seen_nullifiers w \<union> set (concat (map tx_nullifiers txs))) (w_unspent w)
        @ received B C (w_sk w) (zip (concat (map tx_enc_outputs (accepted_by txs S))) (cs_output_positions S))) ws
    \<and> map w_seen_nullifiers ws' = map (\<lambda>w. w_seen_nullifiers w \<union> set (concat (map tx_nullifiers txs))) ws
    \<and> map w_sk ws' = map w_sk ws
    \<and> map (\<lambda>p. ct_leaves (lg_tree (dm_ledger demo')) ! unat p) (cs_output_positions S)
      = map cm_bytes (concat (map tx_commitments (accepted_by txs S)))"
proof -
  obtain S where step: "apply_checkpoint B (dm_ledger demo) txs (dev_verify B) = Some (dm_ledger demo', S)"
    and ws': "ws' = map (\<lambda>w. let w = observe_nullifiers B w (concat (map tx_nullifiers txs)) in
         w\<lparr>w_unspent := w_unspent w @ received B C (w_sk w)
            (zip (concat (map tx_enc_outputs (accepted_by txs S))) (cs_output_positions S))\<rparr>) ws"
    by (rule demo_checkpoint_steps [OF assms(1)])
  note pos = positions_of_accepted [OF step assms(2-4)]
  have "map (\<lambda>p. ct_leaves (lg_tree (dm_ledger demo')) ! unat p) (cs_output_positions S)
      = map cm_bytes (concat (map tx_commitments (accepted_by txs S)))"
    by (rule nth_equalityI) (simp_all add: pos)
  then show ?thesis using step by (intro exI [of _ S]) (simp add: ws' Let_def comp_def observe_nullifiers_def)
qed

text \<open>One checkpoint of the sample ledger, seen by the node.\<close>

definition sample_demo :: Demo where
  "sample_demo = \<lparr>dm_ledger = sample_ledger, dm_genesis_supply = 5000\<rparr>"

lemma sample_audit:
  assumes "apply_checkpoint zero_hash sample_ledger txs V = Some (L, S)"
  shows "\<exists>b. audit_supply L 5000 = Some b"
proof -
  have L: "lg_emission L = sample_emission" "unat (lg_height L) = 1"
    using checkpoint_supply(1,3) [OF assms] by (simp_all add: sample_ledger_simps)
  have "emission_at sample_emission 1 = Some 991"
    by (simp add: emission_at_def sample_emission_def sub_or_panic_def decay_factor_def SCALE_def add_or_panic_def)
  then show ?thesis by (simp add: audit_supply_def L sum_or_panic_def add_or_panic_def upt_rec)
qed

lemma sample_demo_checkpoint:
  assumes "apply_checkpoint zero_hash sample_ledger txs (dev_verify zero_hash) = Some (L, S)"
  shows "\<exists>demo' ws' r. demo_checkpoint zero_hash C sample_demo txs ws = Some (demo', ws', r) \<and> dm_ledger demo' = L
    \<and> cr_accepted r = cs_accepted S \<and> length ws' = length ws"
proof -
  obtain b where "audit_supply L 5000 = Some b" using sample_audit [OF assms] by blast
  then show ?thesis by (simp add: demo_checkpoint_def sample_demo_def assms Let_def deliver_eq)
qed

lemma sample_demo_inv: "ledger_inv zero_hash (dm_ledger sample_demo)"
  by (simp add: sample_demo_def sample_ledger_inv)

lemma checkpoint_delivers_exactly_witness:
  "\<exists>demo' ws' r S. demo_checkpoint zero_hash null_crypto sample_demo [sample_ledger_tx] [sample_wallet] = Some (demo', ws', r)
     \<and> map (\<lambda>p. ct_leaves (lg_tree (dm_ledger demo')) ! unat p) (cs_output_positions S)
       = map cm_bytes (concat (map tx_commitments (accepted_by [sample_ledger_tx] S)))"
proof -
  obtain L S where step: "apply_checkpoint zero_hash sample_ledger [sample_ledger_tx] (dev_verify zero_hash) = Some (L, S)"
    using sample_step by blast
  obtain demo' ws' r where run: "demo_checkpoint zero_hash null_crypto sample_demo [sample_ledger_tx] [sample_wallet] = Some (demo', ws', r)"
      "dm_ledger demo' = L" using sample_demo_checkpoint [OF step] by blast
  have "length (ct_leaves (lg_tree (dm_ledger demo'))) \<le> 2 ^ 64"
    unfolding run(2) by (rule sample_few_leaves [OF step]) (simp_all add: sample_ledger_tx_ok)
  with checkpoint_delivers_exactly [OF run(1) sample_demo_inv] sample_ledger_tx_ok(2) run(1) show ?thesis by fastforce
qed

text \<open>C38. A rejected transaction still costs its sender: the node feeds the nullifiers of all submitted
  transactions to the wallets, so when a checkpoint rejects a transaction, a wallet loses every note that it would
  have spent, although the ledger records none of them as spent.\<close>

theorem rejected_tx_drops_notes:
  assumes "demo_checkpoint B C demo [tx] [w] = Some (demo', [w'], r)" and "ledger_inv B (dm_ledger demo)" and "wf_tx_body tx"
    and "cr_accepted r = 0" and "rec \<in> set (w_unspent w)"
    and "nullifier B (nr_note rec) (nk B (w_sk w)) \<in> set (tx_nullifiers tx)"
    and "\<not> nullifier_seen (dm_ledger demo) (nullifier B (nr_note rec) (nk B (w_sk w)))"
  shows "rec \<notin> set (w_unspent w') \<and> \<not> nullifier_seen (dm_ledger demo') (nullifier B (nr_note rec) (nk B (w_sk w)))"
proof -
  obtain S where step: "apply_checkpoint B (dm_ledger demo) [tx] (dev_verify B) = Some (dm_ledger demo', S)"
    and w': "[w'] = map (\<lambda>w. let w = observe_nullifiers B w (concat (map tx_nullifiers [tx])) in
         w\<lparr>w_unspent := w_unspent w @ received B C (w_sk w)
            (zip (concat (map tx_enc_outputs (accepted_by [tx] S))) (cs_output_positions S))\<rparr>) [w]"
    by (rule demo_checkpoint_steps [OF assms(1)])
  have "cr_accepted r = cs_accepted S"
    using assms(1) step by (auto simp: demo_checkpoint_def bind_eq_Some_conv Let_def)
  then have "accepted_by [tx] S = []" using accepted_count [OF step assms(2)] assms(4) by simp
  then show ?thesis
    using w' assms(6,7) checkpoint_accepts(1) [OF step assms(2)] assms(3)
    by (simp add: Let_def observe_nullifiers_def nullifier_seen_def)
qed

definition stale_tx :: TxV1 where
  "stale_tx = sample_ledger_tx\<lparr>tx_anchor := \<lparr>anc_height = 5, anc_root = replicate 32 0\<rparr>,
     tx_nullifiers := [Nullifier (replicate 32 0), Nullifier (replicate 32 1)]\<rparr>"

lemma rejected_tx_drops_notes_witness:
  "\<exists>demo' w' r. demo_checkpoint zero_hash null_crypto sample_demo [stale_tx] [sample_wallet] = Some (demo', [w'], r)
     \<and> sample_record 20 \<in> set (w_unspent sample_wallet) \<and> sample_record 20 \<notin> set (w_unspent w')"
proof -
  obtain L S where step: "apply_checkpoint zero_hash sample_ledger [stale_tx] (dev_verify zero_hash) = Some (L, S)"
    using checkpoint_total [of sample_ledger "[stale_tx]" zero_hash "dev_verify zero_hash"]
    by (auto simp: sample_ledger_simps sample_emission_def quota_reduced_def qr_new_def stale_tx_def sample_ledger_tx_def sample_tx_def)
  obtain nh st where st: "process_txs zero_hash (dev_verify zero_hash) sample_ledger nh 0 [stale_tx] (staging_init sample_ledger) = Some st"
      "cs_accepted S = st_accepted st" by (rule checkpoint_steps [OF step])
  have "map (\<lambda>a. unat (anc_height a)) (ct_anchors (lg_tree sample_ledger)) = [0]"
    using sample_ledger_inv by (simp add: ledger_inv_def sample_ledger_simps)
  then have "\<not> ct_anchor_valid (lg_tree sample_ledger) (tx_anchor stale_tx)"
    by (auto simp: ct_anchor_valid_def list_ex_iff stale_tx_def map_eq_Cons_conv)
  then have none: "cs_accepted S = 0" using st by (auto simp: process_tx_def reject_def staging_init_def)
  obtain demo' ws' r where run: "demo_checkpoint zero_hash null_crypto sample_demo [stale_tx] [sample_wallet] = Some (demo', ws', r)"
      "cr_accepted r = cs_accepted S" "length ws' = length [sample_wallet]" using sample_demo_checkpoint [OF step] by blast
  from run(3) obtain w' where w': "ws' = [w']" by (cases ws') auto
  have wf: "wf_tx_body stale_tx" using sample_ledger_tx_ok(2) by (simp add: stale_tx_def wf_defs interface_consts)
  have mem: "sample_record 20 \<in> set (w_unspent sample_wallet)" by (simp add: sample_wallet_def)
  have "sample_record 20 \<notin> set (w_unspent w')"
    by (rule rejected_tx_drops_notes [OF run(1) [unfolded w'] sample_demo_inv wf _ mem, THEN conjunct1])
      (simp_all add: run(2) none nullifier_def stale_tx_def nullifier_seen_def sample_demo_def sample_ledger_simps)
  then show ?thesis using run(1) mem w' by blast
qed

end
