(* ===== verification/Lifecycle.thy ===== *)
theory Lifecycle
  imports Node
begin

text \<open>
  The node's life cycle as a whole: one private transfer from the wallet's \<^verbatim>\<open>build_transfer\<close> through the
  checkpoint to the wallets that receive it, and the scripted run of \<^verbatim>\<open>run_demo\<close>, which chains two of
  them.  The run completes with the balances it announces, under hypotheses on the libraries only:
  decryption by the right key, no decryption by another key, no coincidence of five nullifiers.
\<close>

section \<open>Anchors and leaves of a reachable ledger\<close>

lemma anchor_of_inv:
  assumes "ledger_inv B L"
  shows "lg_anchor_valid L (current_anchor B L)" and "digest32 B \<Longrightarrow> wf_anchor (current_anchor B L)"
proof -
  have "ct_anchors (lg_tree L) \<noteq> []" "last (ct_anchors (lg_tree L)) = current_anchor B L" "wf_tree B (lg_tree L)"
    using assms by (auto simp: ledger_inv_def)
  then show "lg_anchor_valid L (current_anchor B L)" and "digest32 B \<Longrightarrow> wf_anchor (current_anchor B L)"
    using last_in_set [of "ct_anchors (lg_tree L)"]
    by (auto simp: lg_anchor_valid_def ct_anchor_valid_def list_ex_iff wf_defs current_anchor_def ct_root_eq_ref_root length_ref_root)
qed

text \<open>A leaf of a ledger has a path that verifies against its current anchor.\<close>

lemma ledger_leaf_provable:
  assumes "ledger_inv B L" and "length (ct_leaves (lg_tree L)) \<le> 2 ^ TREE_DEPTH"
    and "unat pos < length (ct_leaves (lg_tree L))" and "ct_leaves (lg_tree L) ! unat pos = cm_bytes cm"
  shows "\<exists>p. tree_witness B L pos = Some p \<and> verify_path B cm p (anc_root (current_anchor B L))"
  using note_tree.witness_verifies [OF _ assms(2,3) assms(4) [symmetric], of B] assms(1)
  by (simp add: tree_witness_def current_anchor_def ledger_inv_def)

section \<open>A transfer through the sequencer\<close>

text \<open>What the sequencer keeps between checkpoints.\<close>

definition genesis_total :: "(Commitment \<times> u64) list \<Rightarrow> nat" where
  "genesis_total gs = sum_list (map (\<lambda>g. unat (snd g)) gs)"

definition sequencer_ok :: "blake3 \<Rightarrow> (Commitment \<times> u64) list \<Rightarrow> Demo \<Rightarrow> TxV1 list \<Rightarrow> bool" where
  "sequencer_ok B gs demo hist \<longleftrightarrow>
     chain B (dev_verify B) gs (dm_ledger demo) hist \<and> dm_genesis_supply demo = word_of_nat (genesis_total gs)
     \<and> lg_difficulty_bits (dm_ledger demo) = 0 \<and> em_half_life (lg_emission (dm_ledger demo)) \<noteq> 0
     \<and> em_e_tail (lg_emission (dm_ledger demo)) \<le> em_e0 (lg_emission (dm_ledger demo))
     \<and> length (lg_validators (dm_ledger demo)) \<le> 128 \<and> 0 < validator_weight (dm_ledger demo)
     \<and> quota_reduced (lg_quota (dm_ledger demo))"

definition headroom :: "Ledger \<Rightarrow> bool" where
  "headroom L \<longleftrightarrow> unat (lg_height L) + 1 < 2 ^ 64 \<and> unat (lg_supply L) + unat (em_e0 (lg_emission L)) < 2 ^ 64
     \<and> length (ct_leaves (lg_tree L)) + 130 \<le> 2 ^ TREE_DEPTH"

text \<open>A single proof-of-work transaction leaves the quota registry alone.\<close>

lemma single_pow_quota:
  assumes "apply_checkpoint B L [tx] V = Some (L', S)" and "tx_antispam tx = LanePow sol"
  shows "lg_quota L' = lg_quota L"
proof -
  obtain nh st where st: "process_txs B V L nh 0 [tx] (staging_init L) = Some st" "lg_quota L' = st_quota st"
    by (rule checkpoint_steps [OF assms(1)])
  then show ?thesis using assms(2)
    by (auto simp: process_tx_def quota_check_def accept_def reject_def staging_init_def Let_def split: if_splits sum.splits)
qed

text \<open>The report of a checkpoint that accepted its one transaction, and how the ledger moved.\<close>

definition one_accepted :: "Ledger \<Rightarrow> Ledger \<Rightarrow> CheckpointReport \<Rightarrow> bool" where
  "one_accepted L L' r \<longleftrightarrow> lg_emission L' = lg_emission L \<and> lg_height L' = lg_height L + 1
     \<and> unat (lg_supply L') = unat (lg_supply L) + emission_or_0 (lg_emission L) (unat (lg_height L'))
     \<and> length (ct_leaves (lg_tree L')) \<le> length (ct_leaves (lg_tree L)) + 130
     \<and> (\<exists>e. emission_at (lg_emission L) (lg_height L') = Some e
          \<and> r = \<lparr>cr_height = lg_height L', cr_accepted = 1, cr_rejected = 0, cr_emission = e, cr_supply = lg_supply L', cr_audit = True\<rparr>)"

text \<open>A checkpoint of one valid transaction of the node: it is accepted and everything moves by one step.\<close>

lemma sequencer_step:
  assumes ok: "sequencer_ok B gs demo hist" and room: "headroom (dm_ledger demo)"
    and tx: "tx_antispam tx = LanePow sol" "validate_stateless B tx (dev_verify B) 0 = Inr ()" "wf_tx_body tx"
      "lg_anchor_valid (dm_ledger demo) (tx_anchor tx)" "set (tx_nullifiers tx) \<inter> lg_nullifiers (dm_ledger demo) = {}"
  obtains demo' ps r where
    "\<forall>ws. demo_checkpoint B C demo [tx] ws = Some (demo', map (\<lambda>w. let w = observe_nullifiers B w (tx_nullifiers tx) in
         w\<lparr>w_unspent := w_unspent w @ received B C (w_sk w) (zip (tx_enc_outputs tx) ps)\<rparr>) ws, r)"
    "sequencer_ok B gs demo' (hist @ [tx])" "lg_nullifiers (dm_ledger demo') = lg_nullifiers (dm_ledger demo) \<union> set (tx_nullifiers tx)"
    "map (\<lambda>p. ct_leaves (lg_tree (dm_ledger demo')) ! unat p) ps = map cm_bytes (tx_commitments tx)"
    "\<forall>p \<in> set ps. unat p < length (ct_leaves (lg_tree (dm_ledger demo')))"
    "one_accepted (dm_ledger demo) (dm_ledger demo') r"
proof -
  let ?L = "dm_ledger demo"
  have chain: "chain B (dev_verify B) gs ?L hist" using ok by (simp add: sequencer_ok_def)
  note inv = chain_inv [OF chain]
  have vs: "length (lg_validators ?L) < 2 ^ 64" using ok by (simp add: sequencer_ok_def)
  obtain L' S where step: "apply_checkpoint B ?L [tx] (dev_verify B) = Some (L', S)"
    using checkpoint_total [of ?L "[tx]" B "dev_verify B"] ok room tx(1) by (auto simp: sequencer_ok_def headroom_def)
  have rej: "cs_rejected S = []" and nfs: "lg_nullifiers L' = lg_nullifiers ?L \<union> set (tx_nullifiers tx)"
    using single_pow_tx [OF step tx(1) _ tx(5)] tx(2,4) ok by (simp_all add: sequencer_ok_def)
  then have acc: "accepted_by [tx] S = [tx]" by (simp add: accepted_by_def)
  then have one: "cs_accepted S = 1" using accepted_count [OF step inv] by simp
  note sup = checkpoint_supply [OF step vs]
  have "chain B (dev_verify B) gs L' (hist @ accepted_by [tx] S)" using tx(3) by (intro chain_step [OF chain _ step]) simp
  then have chain': "chain B (dev_verify B) gs L' (hist @ [tx])" by (simp add: acc)
  have weight: "validator_weight L' = validator_weight ?L" by (simp add: validator_weight_def sup(2))
  have diff: "lg_difficulty_bits L' = lg_difficulty_bits ?L" by (rule checkpoint_steps [OF step])
  have audit: "audit_supply L' (dm_genesis_supply demo) = Some True"
    using chain_audit [OF chain'] ok vs weight by (simp add: sequencer_ok_def genesis_total_def sup(2))
  have grow: "length (ct_leaves (lg_tree L')) \<le> length (ct_leaves (lg_tree ?L)) + 130"
    using checkpoint_growth [OF step inv _ vs] tx(3) ok by (simp add: sequencer_ok_def)
  then have few: "length (ct_leaves (lg_tree L')) \<le> 2 ^ 64" using room by (simp add: headroom_def TREE_DEPTH_def)
  note pos = positions_of_accepted [OF step inv _ few, unfolded acc, simplified, OF tx(3)]
  have leaves: "map (\<lambda>p. ct_leaves (lg_tree L') ! unat p) (cs_output_positions S) = map cm_bytes (tx_commitments tx)"
    by (rule nth_equalityI) (simp_all add: pos)
  have bound: "\<forall>p \<in> set (cs_output_positions S). unat p < length (ct_leaves (lg_tree L'))"
    using pos(1,3) by (auto simp: in_set_conv_nth)
  obtain nh st rewards where c: "add_or_panic (lg_height ?L) 1 = Some nh" "cs_rewards S = rewards"
      "reward_descriptor (lg_emission ?L) nh (map vi_weight (lg_validators ?L)) = Some rewards" "lg_height L' = nh" "cs_height S = nh"
      "cs_total_supply S = lg_supply L'" by (rule checkpoint_steps [OF step])
  have nh: "nh = lg_height ?L + 1" using c(1) by (simp add: add_or_panic_def split: if_splits)
  obtain e where e: "emission_at (lg_emission ?L) nh = Some e" "rd_total rewards = e"
    using c(3) by (auto simp: reward_descriptor_def bind_eq_Some_conv)
  let ?r = "\<lparr>cr_height = lg_height L', cr_accepted = 1, cr_rejected = 0, cr_emission = e, cr_supply = lg_supply L', cr_audit = True\<rparr>"
  have "demo_checkpoint B C demo [tx] ws = Some (demo\<lparr>dm_ledger := L'\<rparr>, map (\<lambda>w. let w = observe_nullifiers B w (tx_nullifiers tx) in
         w\<lparr>w_unspent := w_unspent w @ received B C (w_sk w) (zip (tx_enc_outputs tx) (cs_output_positions S))\<rparr>) ws, ?r)" for ws
    by (simp add: demo_checkpoint_def step rej one c(2,4-6) e(2) audit deliver_eq Let_def comp_def)
  moreover have "sequencer_ok B gs (demo\<lparr>dm_ledger := L'\<rparr>) (hist @ [tx])"
    using ok chain' single_pow_quota [OF step tx(1)] by (simp add: sequencer_ok_def sup(1,2) weight diff)
  ultimately show ?thesis
    using nfs leaves bound sup(1,5) e(1) c(4) nh grow ok
    by (intro that [of "demo\<lparr>dm_ledger := L'\<rparr>" "cs_output_positions S" ?r]) (simp_all add: sequencer_ok_def one_accepted_def)
qed

text \<open>What a checkpoint with one accepted transaction does to a wallet.\<close>

definition after_checkpoint ::
  "blake3 \<Rightarrow> crypto_lib \<Rightarrow> Nullifier list \<Rightarrow> (EncryptedOutput \<times> u64) list \<Rightarrow> Wallet \<Rightarrow> Wallet" where
  "after_checkpoint B C nfs outs w = (let w = observe_nullifiers B w nfs in w\<lparr>w_unspent := w_unspent w @ received B C (w_sk w) outs\<rparr>)"

lemma after_checkpoint_simps:
  "w_sk (after_checkpoint B C nfs outs w) = w_sk w"
  "w_seen_nullifiers (after_checkpoint B C nfs outs w) = w_seen_nullifiers w \<union> set nfs"
  "w_unspent (after_checkpoint B C nfs outs w)
     = filter (\<lambda>r. nullifier B (nr_note r) (nk B (w_sk w)) \<notin> w_seen_nullifiers w \<union> set nfs) (w_unspent w) @ received B C (w_sk w) outs"
  by (simp_all add: after_checkpoint_def observe_nullifiers_def Let_def)

text \<open>From the wallet to the wallets: the transfer is built, accepted and delivered.\<close>

lemma node_transfer:
  assumes ok: "sequencer_ok B gs demo hist" and room: "headroom (dm_ledger demo)"
    and lib: "digest32 B" "x25519_ok C" "aead_ok C"
      "mlkem_ok_at C (kem_seed B k) (hash_parts B KEM_SEED [derive_rseed B rng 10])"
      "mlkem_ok_at C (kem_seed B (w_sk W)) (hash_parts B KEM_SEED [derive_rseed B rng 11])"
    and sel: "balance W = Some funds" "select_inputs W amount = Some (Inr sel)"
      "\<forall>r \<in> set sel. note_addr_tag (nr_note r) = addr_tag B (w_sk W) \<and> nr_value r < MAX_MONEY"
      "\<forall>r \<in> set sel. unat (nr_position r) < length (ct_leaves (lg_tree (dm_ledger demo)))
        \<and> ct_leaves (lg_tree (dm_ledger demo)) ! unat (nr_position r) = cm_bytes (commitment B (nr_note r))"
      "amount < MAX_MONEY" "distinct (transfer_nullifiers B W sel)"
      "set (transfer_nullifiers B W sel) \<inter> lg_nullifiers (dm_ledger demo) = {}"
  obtains tx demo' r change out bk e0 e1 p0 p1 where
    "build_transfer B C W (sk_address B C k) amount (demo_anchor B demo) (tree_witness B (dm_ledger demo)) rng = Some (Inr tx)"
    "\<forall>ws. demo_checkpoint B C demo [tx] ws
       = Some (demo', map (after_checkpoint B C (transfer_nullifiers B W sel) [(e0, p0), (e1, p1)]) ws, r)"
    "out = out_note B amount (addr_tag B k) (hd (transfer_nullifiers B W sel)) rng 0"
    "bk = out_note B change (addr_tag B (w_sk W)) (hd (transfer_nullifiers B W sel)) rng 1"
    "unat change + unat amount = sum_list (map (\<lambda>r. unat (nr_value r)) sel)"
    "encrypt_note B C out (sk_address B C k) (replicate MEMO_LEN 0) (derive_rseed B rng 10) = Some e0"
    "encrypt_note B C bk (sk_address B C (w_sk W)) (replicate MEMO_LEN 0) (derive_rseed B rng 11) = Some e1"
    "try_decrypt B C e0 (incoming_viewing_key B C k) = Some out" "try_decrypt B C e1 (incoming_viewing_key B C (w_sk W)) = Some bk"
    "sequencer_ok B gs demo' (hist @ [tx])"
    "lg_nullifiers (dm_ledger demo') = lg_nullifiers (dm_ledger demo) \<union> set (transfer_nullifiers B W sel)"
    "unat p0 < length (ct_leaves (lg_tree (dm_ledger demo')))" "ct_leaves (lg_tree (dm_ledger demo')) ! unat p0 = cm_bytes (commitment B out)"
    "one_accepted (dm_ledger demo) (dm_ledger demo') r"
proof -
  let ?L = "dm_ledger demo"
  have "chain B (dev_verify B) gs ?L hist" using ok by (simp add: sequencer_ok_def)
  note inv = chain_inv [OF this]
  have "length (ct_leaves (lg_tree ?L)) \<le> 2 ^ TREE_DEPTH" using room unfolding headroom_def by linarith
  then have wit: "\<forall>r \<in> set sel. \<exists>p. tree_witness B ?L (nr_position r) = Some p
      \<and> verify_path B (commitment B (nr_note r)) p (anc_root (current_anchor B ?L))"
    using ledger_leaf_provable [OF inv] sel(4) by blast
  obtain tx change e0 e1 out bk where tx: "build_transfer B C W (sk_address B C k) amount (current_anchor B ?L) (tree_witness B ?L) rng = Some (Inr tx)"
      "validate_stateless B tx (dev_verify B) 0 = Inr ()" "wf_anchor (current_anchor B ?L) \<longrightarrow> wf_tx_body tx"
      "tx_antispam tx = LanePow \<lparr>pow_nonce = 0\<rparr>" "tx_anchor tx = current_anchor B ?L" "tx_nullifiers tx = transfer_nullifiers B W sel"
      "out = out_note B amount (addr_tag B k) (hd (transfer_nullifiers B W sel)) rng 0"
      "bk = out_note B change (addr_tag B (w_sk W)) (hd (transfer_nullifiers B W sel)) rng 1"
      "tx_commitments tx = [commitment B out, commitment B bk]" "tx_enc_outputs tx = [e0, e1]"
      "encrypt_note B C out (sk_address B C k) (replicate MEMO_LEN 0) (derive_rseed B rng 10) = Some e0"
      "encrypt_note B C bk (sk_address B C (w_sk W)) (replicate MEMO_LEN 0) (derive_rseed B rng 11) = Some e1"
      "try_decrypt B C e0 (incoming_viewing_key B C k) = Some out" "try_decrypt B C e1 (incoming_viewing_key B C (w_sk W)) = Some bk"
      "unat change + unat amount = sum_list (map (\<lambda>r. unat (nr_value r)) sel)"
    by (rule build_transfer_explicit [OF lib sel(1-3) wit sel(5,6)])
  have wf: "wf_tx_body tx" using tx(3) anchor_of_inv(2) [OF inv lib(1)] by blast
  have va: "lg_anchor_valid ?L (tx_anchor tx)" using anchor_of_inv(1) [OF inv] by (simp add: tx(5))
  have fresh: "set (tx_nullifiers tx) \<inter> lg_nullifiers ?L = {}" using sel(7) by (simp add: tx(6))
  obtain demo' r ps where run: "\<forall>ws. demo_checkpoint B C demo [tx] ws = Some (demo', map (\<lambda>w. let w = observe_nullifiers B w (tx_nullifiers tx) in
         w\<lparr>w_unspent := w_unspent w @ received B C (w_sk w) (zip (tx_enc_outputs tx) ps)\<rparr>) ws, r)"
    "sequencer_ok B gs demo' (hist @ [tx])" "lg_nullifiers (dm_ledger demo') = lg_nullifiers ?L \<union> set (tx_nullifiers tx)"
    "map (\<lambda>p. ct_leaves (lg_tree (dm_ledger demo')) ! unat p) ps = map cm_bytes (tx_commitments tx)"
    "\<forall>p \<in> set ps. unat p < length (ct_leaves (lg_tree (dm_ledger demo')))"
    "one_accepted ?L (dm_ledger demo') r"
    by (rule sequencer_step [where C = C, OF ok room tx(4,2) wf va fresh])
  obtain p0 p1 where ps: "ps = [p0, p1]" using run(4) tx(9) by (auto simp: map_eq_Cons_conv)
  have cp: "demo_checkpoint B C demo [tx] ws
       = Some (demo', map (after_checkpoint B C (transfer_nullifiers B W sel) [(e0, p0), (e1, p1)]) ws, r)" for ws
    using run(1) by (simp add: after_checkpoint_def [abs_def] tx(6,10) ps)
  show ?thesis
    by (rule that [OF _ allI [OF cp] tx(7,8) tx(15) tx(11-14) run(2)]) (use tx(1,6,9) run(3-6) ps in \<open>simp_all add: demo_anchor_def\<close>)
qed

section \<open>What the wallets receive\<close>

text \<open>The wallet's encryption of a note for key \<open>k\<close> opens under no other of the keys.\<close>

definition sealed_for :: "blake3 \<Rightarrow> crypto_lib \<Rightarrow> SpendingKey list \<Rightarrow> SpendingKey \<Rightarrow> Note \<Rightarrow> bytes \<Rightarrow> bool" where
  "sealed_for B C ks k n eph \<longleftrightarrow> (\<forall>ct. encrypt_note B C n (sk_address B C k) (replicate MEMO_LEN 0) eph = Some ct
     \<longrightarrow> (\<forall>k' \<in> set ks. k' \<noteq> k \<longrightarrow> try_decrypt B C ct (incoming_viewing_key B C k') = None))"

lemma received_two: "received B C k [(e0, p0), (e1, p1)] = received B C k [(e0, p0)] @ received B C k [(e1, p1)]"
  by (rule received_Cons)

lemma received_Some:
  "try_decrypt B C e (incoming_viewing_key B C k) = Some n \<Longrightarrow> 0 < note_value n \<Longrightarrow> received B C k [(e, p)] = [\<lparr>nr_note = n, nr_position = p\<rparr>]"
  by (simp add: received_def)

lemma received_None: "try_decrypt B C e (incoming_viewing_key B C k) = None \<Longrightarrow> received B C k [(e, p)] = []"
  by (simp add: received_def)

text \<open>A wallet that holds one note that covers the amount.\<close>

lemma single_note_wallet:
  assumes "w_unspent W = [r]" and "amount \<le> nr_value r"
  shows "balance W = Some (nr_value r)" "select_inputs W amount = Some (Inr [r])"
    "transfer_nullifiers B W [r] = sort_key nf_bytes
       [nullifier B (nr_note r) (nk B (w_sk W)), nullifier B (dummy B (replicate 32 0xD0)) (nk B (w_sk W))]"
proof -
  show bal: "balance W = Some (nr_value r)" 
    using unat_u64_less [of "nr_value r"] by (simp add: balance_def assms(1) sum_or_panic_def add_or_panic_def)
  show "select_inputs W amount = Some (Inr [r])" unfolding select_inputs_def bal using assms by (auto simp: not_less [symmetric])
  show "transfer_nullifiers B W [r] = sort_key nf_bytes
       [nullifier B (nr_note r) (nk B (w_sk W)), nullifier B (dummy B (replicate 32 0xD0)) (nk B (w_sk W))]"
    by (simp add: transfer_nullifiers_def transfer_notes_def TX_INPUTS_def)
qed

text \<open>A payment out of one note, and what it does to the wallets of a group of users.\<close>

definition paid_wallet ::
  "blake3 \<Rightarrow> Nullifier list \<Rightarrow> SpendingKey \<Rightarrow> NoteRecord \<Rightarrow> SpendingKey \<Rightarrow> NoteRecord \<Rightarrow> Wallet \<Rightarrow> Wallet" where
  "paid_wallet B nfs k out k' bk w =
     \<lparr>w_sk = w_sk w,
      w_unspent = filter (\<lambda>r. nullifier B (nr_note r) (nk B (w_sk w)) \<notin> w_seen_nullifiers w \<union> set nfs) (w_unspent w)
        @ (if w_sk w = k then [out] else []) @ (if w_sk w = k' then [bk] else []),
      w_seen_nullifiers = w_seen_nullifiers w \<union> set nfs\<rparr>"

lemma after_checkpoint_paid:
  assumes "sealed_for B C ks k out eph" and "sealed_for B C ks k' bk eph'" and "w_sk w \<in> set ks"
    and "encrypt_note B C out (sk_address B C k) (replicate MEMO_LEN 0) eph = Some e0" and "try_decrypt B C e0 (incoming_viewing_key B C k) = Some out"
    and "encrypt_note B C bk (sk_address B C k') (replicate MEMO_LEN 0) eph' = Some e1" and "try_decrypt B C e1 (incoming_viewing_key B C k') = Some bk"
    and "0 < note_value out" and "0 < note_value bk"
  shows "after_checkpoint B C nfs [(e0, p0), (e1, p1)] w
    = paid_wallet B nfs k \<lparr>nr_note = out, nr_position = p0\<rparr> k' \<lparr>nr_note = bk, nr_position = p1\<rparr> w"
proof -
  have "received B C (w_sk w) [(e0, p0)] = (if w_sk w = k then [\<lparr>nr_note = out, nr_position = p0\<rparr>] else [])"
    using assms(1,3,4,5,8) by (auto simp: sealed_for_def intro!: received_Some received_None)
  moreover have "received B C (w_sk w) [(e1, p1)] = (if w_sk w = k' then [\<lparr>nr_note = bk, nr_position = p1\<rparr>] else [])"
    using assms(2,3,6,7,9) by (auto simp: sealed_for_def intro!: received_Some received_None)
  ultimately show ?thesis
    by (intro Wallet.equality) (simp_all add: after_checkpoint_simps received_two paid_wallet_def)
qed

lemma single_note_transfer:
  assumes ok: "sequencer_ok B gs demo hist" and room: "headroom (dm_ledger demo)"
    and lib: "digest32 B" "x25519_ok C" "aead_ok C"
      "mlkem_ok_at C (kem_seed B k) (hash_parts B KEM_SEED [derive_rseed B rng 10])"
      "mlkem_ok_at C (kem_seed B (w_sk W)) (hash_parts B KEM_SEED [derive_rseed B rng 11])"
    and hold: "w_unspent W = [rc]" "0 < amount" "amount < nr_value rc" "nr_value rc < MAX_MONEY"
      "note_addr_tag (nr_note rc) = addr_tag B (w_sk W)"
      "unat (nr_position rc) < length (ct_leaves (lg_tree (dm_ledger demo)))"
      "ct_leaves (lg_tree (dm_ledger demo)) ! unat (nr_position rc) = cm_bytes (commitment B (nr_note rc))"
    and nfs: "nfs = transfer_nullifiers B W [rc]" "distinct nfs" "set nfs \<inter> lg_nullifiers (dm_ledger demo) = {}"
    and priv: "sealed_for B C ks k (out_note B amount (addr_tag B k) (hd nfs) rng 0) (derive_rseed B rng 10)"
      "sealed_for B C ks (w_sk W) (out_note B (nr_value rc - amount) (addr_tag B (w_sk W)) (hd nfs) rng 1) (derive_rseed B rng 11)"
  obtains tx demo' p0 p1 r where
    "build_transfer B C W (sk_address B C k) amount (demo_anchor B demo) (tree_witness B (dm_ledger demo)) rng = Some (Inr tx)"
    "\<forall>ws. w_sk ` set ws \<subseteq> set ks \<longrightarrow> demo_checkpoint B C demo [tx] ws = Some (demo', map (paid_wallet B nfs
         k \<lparr>nr_note = out_note B amount (addr_tag B k) (hd nfs) rng 0, nr_position = p0\<rparr>
         (w_sk W) \<lparr>nr_note = out_note B (nr_value rc - amount) (addr_tag B (w_sk W)) (hd nfs) rng 1, nr_position = p1\<rparr>) ws, r)"
    "sequencer_ok B gs demo' (hist @ [tx])" "lg_nullifiers (dm_ledger demo') = lg_nullifiers (dm_ledger demo) \<union> set nfs"
    "unat p0 < length (ct_leaves (lg_tree (dm_ledger demo')))"
    "ct_leaves (lg_tree (dm_ledger demo')) ! unat p0 = cm_bytes (commitment B (out_note B amount (addr_tag B k) (hd nfs) rng 0))"
    "one_accepted (dm_ledger demo) (dm_ledger demo') r"
proof -
  have le: "amount \<le> nr_value rc" using hold(3) by simp
  note sel = single_note_wallet [where W = W and r = rc and amount = amount, OF hold(1) le]
  have own: "\<forall>r \<in> set [rc]. note_addr_tag (nr_note r) = addr_tag B (w_sk W) \<and> nr_value r < MAX_MONEY"
    and leaf: "\<forall>r \<in> set [rc]. unat (nr_position r) < length (ct_leaves (lg_tree (dm_ledger demo)))
        \<and> ct_leaves (lg_tree (dm_ledger demo)) ! unat (nr_position r) = cm_bytes (commitment B (nr_note r))"
    and amt: "amount < MAX_MONEY" using hold by auto
  obtain tx demo' r change out bk e0 e1 p0 p1 where t:
    "build_transfer B C W (sk_address B C k) amount (demo_anchor B demo) (tree_witness B (dm_ledger demo)) rng = Some (Inr tx)"
    "\<forall>ws. demo_checkpoint B C demo [tx] ws
       = Some (demo', map (after_checkpoint B C (transfer_nullifiers B W [rc]) [(e0, p0), (e1, p1)]) ws, r)"
    "out = out_note B amount (addr_tag B k) (hd (transfer_nullifiers B W [rc])) rng 0"
    "bk = out_note B change (addr_tag B (w_sk W)) (hd (transfer_nullifiers B W [rc])) rng 1"
    "unat change + unat amount = sum_list (map (\<lambda>r. unat (nr_value r)) [rc])"
    "encrypt_note B C out (sk_address B C k) (replicate MEMO_LEN 0) (derive_rseed B rng 10) = Some e0"
    "encrypt_note B C bk (sk_address B C (w_sk W)) (replicate MEMO_LEN 0) (derive_rseed B rng 11) = Some e1"
    "try_decrypt B C e0 (incoming_viewing_key B C k) = Some out" "try_decrypt B C e1 (incoming_viewing_key B C (w_sk W)) = Some bk"
    "sequencer_ok B gs demo' (hist @ [tx])"
    "lg_nullifiers (dm_ledger demo') = lg_nullifiers (dm_ledger demo) \<union> set (transfer_nullifiers B W [rc])"
    "unat p0 < length (ct_leaves (lg_tree (dm_ledger demo')))" "ct_leaves (lg_tree (dm_ledger demo')) ! unat p0 = cm_bytes (commitment B out)"
    "one_accepted (dm_ledger demo) (dm_ledger demo') r"
    by (rule node_transfer [OF ok room lib sel(1,2) own leaf amt nfs(2,3) [unfolded nfs(1)]])
  have "unat change = unat (nr_value rc - amount)" using t(5) hold(3) by (simp add: unat_sub)
  then have ch: "change = nr_value rc - amount" by (simp add: word_unat_eq_iff)
  have "0 < change" using hold(3) t(5) by (simp add: word_less_nat_alt)
  then have "after_checkpoint B C nfs [(e0, p0), (e1, p1)] w
      = paid_wallet B nfs k \<lparr>nr_note = out, nr_position = p0\<rparr> (w_sk W) \<lparr>nr_note = bk, nr_position = p1\<rparr> w" if "w_sk w \<in> set ks" for w
    using hold(2) t(3,4) priv ch by (intro after_checkpoint_paid [OF _ _ that t(6,8,7,9)]) (simp_all add: nfs(1))
  then have cp: "\<forall>ws. w_sk ` set ws \<subseteq> set ks \<longrightarrow> demo_checkpoint B C demo [tx] ws
      = Some (demo', map (paid_wallet B nfs k \<lparr>nr_note = out, nr_position = p0\<rparr> (w_sk W) \<lparr>nr_note = bk, nr_position = p1\<rparr>) ws, r)"
    using t(2) by (auto simp: nfs(1))
  show ?thesis
    by (rule that [OF t(1) cp [unfolded t(3,4) ch nfs(1) [symmetric]] t(10)]) (use t(3,11-14) in \<open>simp_all add: nfs(1)\<close>)
qed

section \<open>The scripted run\<close>

definition demo_key :: "blake3 \<Rightarrow> u8 \<Rightarrow> SpendingKey" where
  "demo_key B i = sk_from_seed B (replicate 32 i)"

definition demo_note :: "blake3 \<Rightarrow> Note" where
  "demo_note B = \<lparr>note_value = GENESIS_FUND, note_addr_tag = addr_tag B (demo_key B 1), note_rho = rho_mint B 0 0, note_rseed = rho_mint B 0 200\<rparr>"

text \<open>The nullifiers that the run publishes or must keep apart: Alice's note and dummy, Bob's note and dummy, and
  Alice's change.\<close>

definition demo_spent :: "blake3 \<Rightarrow> Note \<Rightarrow> u8 \<Rightarrow> Nullifier list" where
  "demo_spent B n i = [nullifier B n (nk B (demo_key B i)), nullifier B (dummy B (replicate 32 0xD0)) (nk B (demo_key B i))]"

definition demo_output :: "blake3 \<Rightarrow> u64 \<Rightarrow> u8 \<Rightarrow> u8 \<Rightarrow> Note" where
  "demo_output B v i j = out_note B v (addr_tag B (demo_key B i)) (hd (sort_key nf_bytes (demo_spent B (demo_note B) 1))) (replicate 32 0x10) j"

definition demo_nullifiers :: "blake3 \<Rightarrow> Nullifier list" where
  "demo_nullifiers B = demo_spent B (demo_note B) 1 @ demo_spent B (demo_output B 250000 2 0) 2
     @ [nullifier B (demo_output B 750000 1 1) (nk B (demo_key B 1))]"

text \<open>The outputs of the two transfers: recipient, note, ephemeral seed.\<close>

definition demo_output2 :: "blake3 \<Rightarrow> u64 \<Rightarrow> u8 \<Rightarrow> u8 \<Rightarrow> Note" where
  "demo_output2 B v i j = out_note B v (addr_tag B (demo_key B i)) (hd (sort_key nf_bytes (demo_spent B (demo_output B 250000 2 0) 2))) (replicate 32 0x20) j"

definition demo_outputs :: "blake3 \<Rightarrow> (u8 \<times> Note \<times> bytes) list" where
  "demo_outputs B =
     [(2, demo_output B 250000 2 0, derive_rseed B (replicate 32 0x10) 10), (1, demo_output B 750000 1 1, derive_rseed B (replicate 32 0x10) 11),
      (3, demo_output2 B 100000 3 0, derive_rseed B (replicate 32 0x20) 10), (2, demo_output2 B 150000 2 1, derive_rseed B (replicate 32 0x20) 11)]"

text \<open>The encapsulations of the run: recipient and ephemeral seed.\<close>

definition demo_encryptions :: "blake3 \<Rightarrow> (u8 \<times> bytes) list" where
  "demo_encryptions B = [(1, replicate 32 0xE1), (2, derive_rseed B (replicate 32 0x10) 10), (1, derive_rseed B (replicate 32 0x10) 11),
     (3, derive_rseed B (replicate 32 0x20) 10), (2, derive_rseed B (replicate 32 0x20) 11)]"

definition demo_log :: "LogLine list" where
  "demo_log =
     [GenesisLine 1000000 1000000, TransferLine 250000,
      CheckpointLine \<lparr>cr_height = 1, cr_accepted = 1, cr_rejected = 0, cr_emission = 9995, cr_supply = 1009995, cr_audit = True\<rparr>,
      BalanceLine 750000 250000 0, TransferLine 100000,
      CheckpointLine \<lparr>cr_height = 2, cr_accepted = 1, cr_rejected = 0, cr_emission = 9990, cr_supply = 1019985, cr_audit = True\<rparr>,
      BalanceLine 750000 150000 100000, FinalLine 1019985]"

abbreviation demo_emission :: EmissionParams where
  "demo_emission \<equiv> \<lparr>em_e0 = 10000, em_e_tail = 100, em_half_life = 1000\<rparr>"

abbreviation demo_validators :: "ValidatorInfo list" where
  "demo_validators \<equiv> [\<lparr>vi_weight = 1, vi_addr_tag = replicate 32 0xAB\<rparr>]"

lemma demo_emission_at: "emission_at demo_emission 1 = Some 9995" "emission_at demo_emission 2 = Some 9990"
  by (simp_all add: emission_at_def sub_or_panic_def decay_factor_def SCALE_def add_or_panic_def)

lemma demo_genesis:
  obtains L where "genesis B demo_emission demo_validators 0 [(commitment B (demo_note B), GENESIS_FUND)] = Some L"
    "sequencer_ok B [(commitment B (demo_note B), GENESIS_FUND)] \<lparr>dm_ledger = L, dm_genesis_supply = GENESIS_FUND\<rparr> []"
    "lg_height L = 0" "lg_supply L = 1000000" "lg_nullifiers L = {}" "lg_emission L = demo_emission"
    "ct_leaves (lg_tree L) = [cm_bytes (commitment B (demo_note B))]"
proof -
  let ?gs = "[(commitment B (demo_note B), GENESIS_FUND)]"
  obtain L where L: "genesis B demo_emission demo_validators 0 ?gs = Some L"
    by (simp add: genesis_def add_or_panic_def GENESIS_FUND_def)
  then have f: "lg_height L = 0" "lg_supply L = 1000000" "lg_nullifiers L = {}" "lg_emission L = demo_emission"
      "lg_validators L = demo_validators" "lg_quota L = qr_new" "lg_difficulty_bits L = 0"
    by (auto simp: genesis_def add_or_panic_def GENESIS_FUND_def)
  have "ct_leaves (lg_tree L) = [cm_bytes (commitment B (demo_note B))]"
    using genesis_view(1) [OF L] by (simp add: view_def)
  moreover have "sequencer_ok B ?gs \<lparr>dm_ledger = L, dm_genesis_supply = GENESIS_FUND\<rparr> []"
    using chain_genesis [OF L] f
    by (simp add: sequencer_ok_def genesis_total_def GENESIS_FUND_def quota_reduced_def qr_new_def validator_weight_def word_le_nat_alt)
  ultimately show ?thesis using that L f(1-4) by simp
qed

abbreviation demo_wallet :: "blake3 \<Rightarrow> u8 \<Rightarrow> Nullifier set \<Rightarrow> NoteRecord list \<Rightarrow> Wallet" where
  "demo_wallet B i seen rs \<equiv> \<lparr>w_sk = demo_key B i, w_unspent = rs, w_seen_nullifiers = seen\<rparr>"

lemma w_from_seed_eq: "w_from_seed B (replicate 32 i) = demo_wallet B i {} []"
  by (simp add: w_from_seed_def demo_key_def)

lemma demo_transfer_nullifiers:
  "transfer_nullifiers B (demo_wallet B i seen rs) [\<lparr>nr_note = n, nr_position = p\<rparr>] = sort_key nf_bytes (demo_spent B n i)"
  by (simp add: transfer_nullifiers_def transfer_notes_def TX_INPUTS_def demo_spent_def del: sort_key_simps)

text \<open>The genesis note reaches Alice.\<close>

lemma demo_receive:
  assumes "digest32 B" and "x25519_ok C" and "aead_ok C"
    and "mlkem_ok_at C (kem_seed B (demo_key B 1)) (hash_parts B KEM_SEED [replicate 32 0xE1])"
  obtains enc where "encrypt_note B C (demo_note B) (sk_address B C (demo_key B 1)) (replicate 64 0) (replicate 32 0xE1) = Some enc"
    "try_receive B C (demo_wallet B 1 {} []) enc 0 = (demo_wallet B 1 {} [\<lparr>nr_note = demo_note B, nr_position = 0\<rparr>], True)"
proof -
  have "wf_note (demo_note B)" "note_addr_tag (demo_note B) = addr_tag B (demo_key B 1)" "note_value (demo_note B) = 1000000"
    using assms(1) by (simp_all add: demo_note_def wf_defs rho_mint_def GENESIS_FUND_def)
  then show ?thesis
    using encrypt_decrypts [OF assms, of "demo_note B" "replicate 64 0"] that by (auto simp: try_receive_def MEMO_LEN_def)
qed

text \<open>The height, supply and report after each of the two checkpoints.\<close>

lemma report_of:
  assumes "one_accepted L L' r" and "emission_at (lg_emission L) (lg_height L + 1) = Some e" and "unat (lg_supply L) + unat e < 2 ^ 64"
  shows "lg_height L' = lg_height L + 1" "lg_supply L' = lg_supply L + e" "lg_emission L' = lg_emission L"
    "r = \<lparr>cr_height = lg_height L + 1, cr_accepted = 1, cr_rejected = 0, cr_emission = e, cr_supply = lg_supply L + e, cr_audit = True\<rparr>"
proof -
  show h: "lg_height L' = lg_height L + 1" and "lg_emission L' = lg_emission L" using assms(1) by (simp_all add: one_accepted_def)
  have "unat (lg_supply L') = unat (lg_supply L) + unat e" using assms(1,2) by (simp add: one_accepted_def emission_or_0_def)
  also have "\<dots> = unat (lg_supply L + e)" using assms(3) by (simp add: unat_word_ariths)
  finally show s: "lg_supply L' = lg_supply L + e" by (simp add: word_unat_eq_iff)
  show "r = \<lparr>cr_height = lg_height L + 1, cr_accepted = 1, cr_rejected = 0, cr_emission = e, cr_supply = lg_supply L + e, cr_audit = True\<rparr>"
    using assms(1,2) by (auto simp: one_accepted_def h s)
qed

text \<open>Alice pays Bob out of the genesis note.\<close>

abbreviation demo_rec0 :: "blake3 \<Rightarrow> NoteRecord" where
  "demo_rec0 B \<equiv> \<lparr>nr_note = demo_note B, nr_position = 0\<rparr>"

abbreviation demo_seen1 :: "blake3 \<Rightarrow> Nullifier set" where
  "demo_seen1 B \<equiv> set (demo_spent B (demo_note B) 1)"

lemma demo_step_1:
  assumes ok: "sequencer_ok B gs demo []" and L: "lg_height (dm_ledger demo) = 0" "lg_supply (dm_ledger demo) = 1000000"
      "lg_nullifiers (dm_ledger demo) = {}" "lg_emission (dm_ledger demo) = demo_emission"
      "ct_leaves (lg_tree (dm_ledger demo)) = [cm_bytes (commitment B (demo_note B))]"
    and lib: "digest32 B" "x25519_ok C" "aead_ok C"
      "mlkem_ok_at C (kem_seed B (demo_key B 2)) (hash_parts B KEM_SEED [derive_rseed B (replicate 32 0x10) 10])"
      "mlkem_ok_at C (kem_seed B (demo_key B 1)) (hash_parts B KEM_SEED [derive_rseed B (replicate 32 0x10) 11])"
    and priv: "sealed_for B C (map (demo_key B) [1, 2, 3]) (demo_key B 2) (demo_output B 250000 2 0) (derive_rseed B (replicate 32 0x10) 10)"
      "sealed_for B C (map (demo_key B) [1, 2, 3]) (demo_key B 1) (demo_output B 750000 1 1) (derive_rseed B (replicate 32 0x10) 11)"
    and keys: "distinct (map (demo_key B) [1, 2, 3])" and nfs: "distinct (demo_spent B (demo_note B) 1)"
  obtains tx demo' p0 p1 r where
    "build_transfer B C (demo_wallet B 1 {} [demo_rec0 B]) (sk_address B C (demo_key B 2)) 250000 (demo_anchor B demo)
       (tree_witness B (dm_ledger demo)) (replicate 32 0x10) = Some (Inr tx)"
    "demo_checkpoint B C demo [tx] [demo_wallet B 1 {} [demo_rec0 B], demo_wallet B 2 {} [], demo_wallet B 3 {} []]
       = Some (demo', [demo_wallet B 1 (demo_seen1 B) [\<lparr>nr_note = demo_output B 750000 1 1, nr_position = p1\<rparr>],
           demo_wallet B 2 (demo_seen1 B) [\<lparr>nr_note = demo_output B 250000 2 0, nr_position = p0\<rparr>], demo_wallet B 3 (demo_seen1 B) []], r)"
    "sequencer_ok B gs demo' [tx]" "lg_nullifiers (dm_ledger demo') = demo_seen1 B"
    "unat p0 < length (ct_leaves (lg_tree (dm_ledger demo')))"
    "ct_leaves (lg_tree (dm_ledger demo')) ! unat p0 = cm_bytes (commitment B (demo_output B 250000 2 0))"
    "one_accepted (dm_ledger demo) (dm_ledger demo') r"
proof -
  let ?nfs = "sort_key nf_bytes (demo_spent B (demo_note B) 1)" and ?ks = "map (demo_key B) [1, 2, 3]"
  have room: "headroom (dm_ledger demo)" using L by (simp add: headroom_def TREE_DEPTH_def)
  have w: "w_unspent (demo_wallet B 1 {} [demo_rec0 B]) = [demo_rec0 B]" "(0 :: u64) < 250000" "250000 < nr_value (demo_rec0 B)"
      "nr_value (demo_rec0 B) < MAX_MONEY" "note_addr_tag (nr_note (demo_rec0 B)) = addr_tag B (w_sk (demo_wallet B 1 {} [demo_rec0 B]))"
      "unat (nr_position (demo_rec0 B)) < length (ct_leaves (lg_tree (dm_ledger demo)))"
      "ct_leaves (lg_tree (dm_ledger demo)) ! unat (nr_position (demo_rec0 B)) = cm_bytes (commitment B (nr_note (demo_rec0 B)))"
    by (simp_all add: demo_note_def GENESIS_FUND_def MAX_MONEY_def word_less_nat_alt L)
  have outs: "out_note B 250000 (addr_tag B (demo_key B 2)) (hd ?nfs) (replicate 32 0x10) 0 = demo_output B 250000 2 0"
    "out_note B (note_value (demo_note B) - 250000) (addr_tag B (demo_key B 1)) (hd ?nfs) (replicate 32 0x10) 1 = demo_output B 750000 1 1"
    by (simp_all add: demo_output_def demo_note_def GENESIS_FUND_def)
  have mine: "mlkem_ok_at C (kem_seed B (w_sk (demo_wallet B 1 {} [demo_rec0 B]))) (hash_parts B KEM_SEED [derive_rseed B (replicate 32 0x10) 11])"
      "sealed_for B C ?ks (demo_key B 2) (out_note B 250000 (addr_tag B (demo_key B 2)) (hd ?nfs) (replicate 32 0x10) 0) (derive_rseed B (replicate 32 0x10) 10)"
      "sealed_for B C ?ks (w_sk (demo_wallet B 1 {} [demo_rec0 B])) (out_note B (nr_value (demo_rec0 B) - 250000)
         (addr_tag B (w_sk (demo_wallet B 1 {} [demo_rec0 B]))) (hd ?nfs) (replicate 32 0x10) 1) (derive_rseed B (replicate 32 0x10) 11)"
    using lib(5) priv by (simp_all add: outs del: sort_key_simps list.map)
  have dist: "distinct ?nfs" "set ?nfs \<inter> lg_nullifiers (dm_ledger demo) = {}" using nfs L by (simp_all del: sort_key_simps)
  obtain tx demo' r p0 p1 where t:
    "build_transfer B C (demo_wallet B 1 {} [demo_rec0 B]) (sk_address B C (demo_key B 2)) 250000 (demo_anchor B demo)
       (tree_witness B (dm_ledger demo)) (replicate 32 0x10) = Some (Inr tx)"
    "\<forall>ws. w_sk ` set ws \<subseteq> set ?ks \<longrightarrow> demo_checkpoint B C demo [tx] ws = Some (demo', map (paid_wallet B ?nfs
         (demo_key B 2) \<lparr>nr_note = out_note B 250000 (addr_tag B (demo_key B 2)) (hd ?nfs) (replicate 32 0x10) 0, nr_position = p0\<rparr>
         (w_sk (demo_wallet B 1 {} [demo_rec0 B])) \<lparr>nr_note = out_note B (nr_value (demo_rec0 B) - 250000)
            (addr_tag B (w_sk (demo_wallet B 1 {} [demo_rec0 B]))) (hd ?nfs) (replicate 32 0x10) 1, nr_position = p1\<rparr>) ws, r)"
    "sequencer_ok B gs demo' ([] @ [tx])" "lg_nullifiers (dm_ledger demo') = lg_nullifiers (dm_ledger demo) \<union> set ?nfs"
    "unat p0 < length (ct_leaves (lg_tree (dm_ledger demo')))"
    "ct_leaves (lg_tree (dm_ledger demo')) ! unat p0
       = cm_bytes (commitment B (out_note B 250000 (addr_tag B (demo_key B 2)) (hd ?nfs) (replicate 32 0x10) 0))"
    "one_accepted (dm_ledger demo) (dm_ledger demo') r"
    by (rule single_note_transfer [where W = "demo_wallet B 1 {} [demo_rec0 B]" and k = "demo_key B 2" and ks = ?ks,
        OF ok room lib(1-4) mine(1) w demo_transfer_nullifiers [symmetric] dist mine(2,3)])
  have ne: "demo_key B 2 \<noteq> demo_key B 1" "demo_key B 3 \<noteq> demo_key B 1" "demo_key B 3 \<noteq> demo_key B 2" using keys by auto
  have "nullifier B (demo_note B) (nk B (demo_key B 1)) \<in> demo_seen1 B" by (simp add: demo_spent_def)
  then show ?thesis
    using that [OF t(1) _ _ _ t(5) _ t(7), of p1] t(2) [rule_format, of "[demo_wallet B 1 {} [demo_rec0 B], demo_wallet B 2 {} [], demo_wallet B 3 {} []]"]
      t(3,4,6) ne L(3) by (simp add: outs paid_wallet_def not_sym [OF ne(1)] del: sort_key_simps)
qed

text \<open>Bob pays Carol out of the note he just received.\<close>

abbreviation demo_rec1 :: "blake3 \<Rightarrow> u64 \<Rightarrow> NoteRecord" where
  "demo_rec1 B p \<equiv> \<lparr>nr_note = demo_output B 250000 2 0, nr_position = p\<rparr>"

lemma demo_output_simps:
  "note_value (demo_output B v i j) = v" "note_addr_tag (demo_output B v i j) = addr_tag B (demo_key B i)"
  by (simp_all add: demo_output_def)

lemma demo_step_2:
  assumes ok: "sequencer_ok B gs demo hist" and room: "headroom (dm_ledger demo)" and L: "lg_nullifiers (dm_ledger demo) = demo_seen1 B"
      "unat p0 < length (ct_leaves (lg_tree (dm_ledger demo)))"
      "ct_leaves (lg_tree (dm_ledger demo)) ! unat p0 = cm_bytes (commitment B (demo_output B 250000 2 0))"
    and lib: "digest32 B" "x25519_ok C" "aead_ok C"
      "mlkem_ok_at C (kem_seed B (demo_key B 3)) (hash_parts B KEM_SEED [derive_rseed B (replicate 32 0x20) 10])"
      "mlkem_ok_at C (kem_seed B (demo_key B 2)) (hash_parts B KEM_SEED [derive_rseed B (replicate 32 0x20) 11])"
    and priv: "sealed_for B C (map (demo_key B) [1, 2, 3]) (demo_key B 3) (demo_output2 B 100000 3 0) (derive_rseed B (replicate 32 0x20) 10)"
      "sealed_for B C (map (demo_key B) [1, 2, 3]) (demo_key B 2) (demo_output2 B 150000 2 1) (derive_rseed B (replicate 32 0x20) 11)"
    and keys: "distinct (map (demo_key B) [1, 2, 3])" and nfs: "distinct (demo_nullifiers B)"
  obtains tx demo' a b c r where
    "build_transfer B C (demo_wallet B 2 (demo_seen1 B) [demo_rec1 B p0]) (sk_address B C (demo_key B 3)) 100000 (demo_anchor B demo)
       (tree_witness B (dm_ledger demo)) (replicate 32 0x20) = Some (Inr tx)"
    "demo_checkpoint B C demo [tx] [demo_wallet B 1 (demo_seen1 B) [\<lparr>nr_note = demo_output B 750000 1 1, nr_position = p1\<rparr>],
        demo_wallet B 2 (demo_seen1 B) [demo_rec1 B p0], demo_wallet B 3 (demo_seen1 B) []] = Some (demo', [a, b, c], r)"
    "balance a = Some 750000" "balance b = Some 150000" "balance c = Some 100000" "one_accepted (dm_ledger demo) (dm_ledger demo') r"
proof -
  let ?nfs = "sort_key nf_bytes (demo_spent B (demo_output B 250000 2 0) 2)" and ?ks = "map (demo_key B) [1, 2, 3]"
  let ?W = "demo_wallet B 2 (demo_seen1 B) [demo_rec1 B p0]"
  have w: "w_unspent ?W = [demo_rec1 B p0]" "(0 :: u64) < 100000" "100000 < nr_value (demo_rec1 B p0)"
      "nr_value (demo_rec1 B p0) < MAX_MONEY" "note_addr_tag (nr_note (demo_rec1 B p0)) = addr_tag B (w_sk ?W)"
      "unat (nr_position (demo_rec1 B p0)) < length (ct_leaves (lg_tree (dm_ledger demo)))"
      "ct_leaves (lg_tree (dm_ledger demo)) ! unat (nr_position (demo_rec1 B p0)) = cm_bytes (commitment B (nr_note (demo_rec1 B p0)))"
    by (simp_all add: demo_output_simps MAX_MONEY_def word_less_nat_alt L)
  have mine: "mlkem_ok_at C (kem_seed B (w_sk ?W)) (hash_parts B KEM_SEED [derive_rseed B (replicate 32 0x20) 11])"
      "sealed_for B C ?ks (demo_key B 3) (out_note B 100000 (addr_tag B (demo_key B 3)) (hd ?nfs) (replicate 32 0x20) 0) (derive_rseed B (replicate 32 0x20) 10)"
      "sealed_for B C ?ks (w_sk ?W) (out_note B (nr_value (demo_rec1 B p0) - 100000) (addr_tag B (w_sk ?W)) (hd ?nfs) (replicate 32 0x20) 1)
         (derive_rseed B (replicate 32 0x20) 11)"
    using lib(5) priv by (simp_all add: demo_output2_def demo_output_simps del: sort_key_simps list.map)
  have dist: "distinct ?nfs" "set ?nfs \<inter> lg_nullifiers (dm_ledger demo) = {}"
    using nfs L(1) by (auto simp: demo_nullifiers_def simp del: sort_key_simps)
  obtain tx demo' q0 q1 r where t:
    "build_transfer B C ?W (sk_address B C (demo_key B 3)) 100000 (demo_anchor B demo) (tree_witness B (dm_ledger demo)) (replicate 32 0x20) = Some (Inr tx)"
    "\<forall>ws. w_sk ` set ws \<subseteq> set ?ks \<longrightarrow> demo_checkpoint B C demo [tx] ws = Some (demo', map (paid_wallet B ?nfs
         (demo_key B 3) \<lparr>nr_note = out_note B 100000 (addr_tag B (demo_key B 3)) (hd ?nfs) (replicate 32 0x20) 0, nr_position = q0\<rparr>
         (w_sk ?W) \<lparr>nr_note = out_note B (nr_value (demo_rec1 B p0) - 100000) (addr_tag B (w_sk ?W)) (hd ?nfs) (replicate 32 0x20) 1,
            nr_position = q1\<rparr>) ws, r)"
    "sequencer_ok B gs demo' (hist @ [tx])" "lg_nullifiers (dm_ledger demo') = lg_nullifiers (dm_ledger demo) \<union> set ?nfs"
    "unat q0 < length (ct_leaves (lg_tree (dm_ledger demo')))"
    "ct_leaves (lg_tree (dm_ledger demo')) ! unat q0
       = cm_bytes (commitment B (out_note B 100000 (addr_tag B (demo_key B 3)) (hd ?nfs) (replicate 32 0x20) 0))"
    "one_accepted (dm_ledger demo) (dm_ledger demo') r"
    by (rule single_note_transfer [where W = ?W and k = "demo_key B 3" and ks = ?ks,
        OF ok room lib(1-4) mine(1) w demo_transfer_nullifiers [symmetric] dist mine(2,3)])
  have ne: "demo_key B 2 \<noteq> demo_key B 1" "demo_key B 3 \<noteq> demo_key B 1" "demo_key B 3 \<noteq> demo_key B 2" using keys by auto
  have kept: "nullifier B (demo_output B 750000 1 1) (nk B (demo_key B 1)) \<notin> demo_seen1 B \<union> set ?nfs"
    and gone: "nullifier B (demo_output B 250000 2 0) (nk B (demo_key B 2)) \<in> set ?nfs"
    using nfs by (auto simp: demo_nullifiers_def demo_spent_def simp del: sort_key_simps)
  show ?thesis
    using that [OF t(1) _ _ _ _ t(7)] t(2) [rule_format, of "[demo_wallet B 1 (demo_seen1 B) [\<lparr>nr_note = demo_output B 750000 1 1, nr_position = p1\<rparr>],
        demo_wallet B 2 (demo_seen1 B) [demo_rec1 B p0], demo_wallet B 3 (demo_seen1 B) []]"] ne kept gone
    by (simp add: paid_wallet_def demo_output_simps balance_def sum_or_panic_def add_or_panic_def not_sym [OF ne(2)] not_sym [OF ne(3)] del: sort_key_simps)
qed

text \<open>The run as a whole.\<close>

lemma demo_completes:
  assumes "digest32 B" and "x25519_ok C" and "aead_ok C"
    and "\<forall>(i, eph) \<in> set (demo_encryptions B). mlkem_ok_at C (kem_seed B (demo_key B i)) (hash_parts B KEM_SEED [eph])"
    and "\<forall>(i, n, eph) \<in> set (demo_outputs B). sealed_for B C (map (demo_key B) [1, 2, 3]) (demo_key B i) n eph"
    and "distinct (map (demo_key B) [1, 2, 3])" and "distinct (demo_nullifiers B)"
  shows "run_demo B C = Some (Inr demo_log) \<and> node_main B C = Some (demo_log, None, 0)"
proof -
  let ?gs = "[(commitment B (demo_note B), GENESIS_FUND)]" and ?ks = "map (demo_key B) [1, 2, 3]"
  note lib = assms(1-3) and kem = assms(4) [unfolded demo_encryptions_def, simplified]
  have priv: "sealed_for B C ?ks (demo_key B 2) (demo_output B 250000 2 0) (derive_rseed B (replicate 32 0x10) 10)"
      "sealed_for B C ?ks (demo_key B 1) (demo_output B 750000 1 1) (derive_rseed B (replicate 32 0x10) 11)"
      "sealed_for B C ?ks (demo_key B 3) (demo_output2 B 100000 3 0) (derive_rseed B (replicate 32 0x20) 10)"
      "sealed_for B C ?ks (demo_key B 2) (demo_output2 B 150000 2 1) (derive_rseed B (replicate 32 0x20) 11)"
    using assms(5) by (simp_all add: demo_outputs_def)
  obtain enc where enc: "encrypt_note B C (demo_note B) (sk_address B C (demo_key B 1)) (replicate 64 0) (replicate 32 0xE1) = Some enc"
      "try_receive B C (demo_wallet B 1 {} []) enc 0 = (demo_wallet B 1 {} [demo_rec0 B], True)"
    using demo_receive [OF lib] kem by blast
  obtain L where L: "genesis B demo_emission demo_validators 0 ?gs = Some L"
      "sequencer_ok B ?gs \<lparr>dm_ledger = L, dm_genesis_supply = GENESIS_FUND\<rparr> []"
      "lg_height L = 0" "lg_supply L = 1000000" "lg_nullifiers L = {}" "lg_emission L = demo_emission"
      "ct_leaves (lg_tree L) = [cm_bytes (commitment B (demo_note B))]" by (rule demo_genesis)
  let ?demo = "\<lparr>dm_ledger = L, dm_genesis_supply = GENESIS_FUND\<rparr>"
  have spent: "distinct (demo_spent B (demo_note B) 1)" using assms(7) by (simp add: demo_nullifiers_def)
  obtain tx1 demo1 p0 p1 r1 where s1:
    "build_transfer B C (demo_wallet B 1 {} [demo_rec0 B]) (sk_address B C (demo_key B 2)) 250000 (demo_anchor B ?demo)
       (tree_witness B L) (replicate 32 0x10) = Some (Inr tx1)"
    "demo_checkpoint B C ?demo [tx1] [demo_wallet B 1 {} [demo_rec0 B], demo_wallet B 2 {} [], demo_wallet B 3 {} []]
       = Some (demo1, [demo_wallet B 1 (demo_seen1 B) [\<lparr>nr_note = demo_output B 750000 1 1, nr_position = p1\<rparr>],
           demo_wallet B 2 (demo_seen1 B) [demo_rec1 B p0], demo_wallet B 3 (demo_seen1 B) []], r1)"
    "sequencer_ok B ?gs demo1 [tx1]" "lg_nullifiers (dm_ledger demo1) = demo_seen1 B"
    "unat p0 < length (ct_leaves (lg_tree (dm_ledger demo1)))"
    "ct_leaves (lg_tree (dm_ledger demo1)) ! unat p0 = cm_bytes (commitment B (demo_output B 250000 2 0))"
    "one_accepted L (dm_ledger demo1) r1"
    using demo_step_1 [OF L(2) _ _ _ _ _ lib _ _ priv(1,2) assms(6) spent] L(3-7) kem by (metis Demo.select_convs(1))
  note r1 = report_of [OF s1(7), of 9995, unfolded L(3,4,6), simplified, OF demo_emission_at(1)]
  have room: "headroom (dm_ledger demo1)"
    using s1(7) r1(1-3) by (simp add: headroom_def one_accepted_def L(6,7) TREE_DEPTH_def)
  have pay2: "mlkem_ok_at C (kem_seed B (demo_key B 3)) (hash_parts B KEM_SEED [derive_rseed B (replicate 32 0x20) 10])"
      "mlkem_ok_at C (kem_seed B (demo_key B 2)) (hash_parts B KEM_SEED [derive_rseed B (replicate 32 0x20) 11])" using kem by simp_all
  obtain tx2 demo2 a b c r2 where s2:
    "build_transfer B C (demo_wallet B 2 (demo_seen1 B) [demo_rec1 B p0]) (sk_address B C (demo_key B 3)) 100000 (demo_anchor B demo1)
       (tree_witness B (dm_ledger demo1)) (replicate 32 0x20) = Some (Inr tx2)"
    "demo_checkpoint B C demo1 [tx2] [demo_wallet B 1 (demo_seen1 B) [\<lparr>nr_note = demo_output B 750000 1 1, nr_position = p1\<rparr>],
        demo_wallet B 2 (demo_seen1 B) [demo_rec1 B p0], demo_wallet B 3 (demo_seen1 B) []] = Some (demo2, [a, b, c], r2)"
    "balance a = Some 750000" "balance b = Some 150000" "balance c = Some 100000" "one_accepted (dm_ledger demo1) (dm_ledger demo2) r2"
    by (rule demo_step_2 [OF s1(3) room s1(4-6) lib pay2 priv(3,4) assms(6,7)])
  note r2 = report_of [OF s2(6), of 9990, unfolded r1(1-3), simplified, OF demo_emission_at(2)]
  have bal: "balance (demo_wallet B 1 {} [demo_rec0 B]) = Some 1000000"
      "balance (demo_wallet B i seen [\<lparr>nr_note = demo_output B v i' j, nr_position = p\<rparr>]) = Some v" "balance (demo_wallet B i seen []) = Some 0"
    for i i' j v p seen
    using single_note_wallet(1) [of "demo_wallet B 1 {} [demo_rec0 B]" "demo_rec0 B" 0]
      single_note_wallet(1) [of "demo_wallet B i seen [\<lparr>nr_note = demo_output B v i' j, nr_position = p\<rparr>]" _ 0]
    by (simp_all add: demo_note_def GENESIS_FUND_def demo_output_simps balance_def sum_or_panic_def)
  have fund: "GenesisLine GENESIS_FUND v = GenesisLine 1000000 v" for v by (simp add: GENESIS_FUND_def)
  have "run_demo B C = Some (Inr demo_log)"
    unfolding run_demo_def w_from_seed_eq
    by (simp add: Let_def w_address_def em_new_def demo_note_def [symmetric] L(1) enc bal map_err_def s1(1,2) s2 r1 r2 demo_log_def total_supply_def fund)
  then show ?thesis by (simp add: node_main_def)
qed

section \<open>Properties\<close>

text \<open>C7. The scripted life cycle completes.  For every hash with 32-byte digests and every instance of the
  cryptographic libraries that handles the run's own encryptions (the five encapsulations decapsulate, no output opens
  under another party's key), and if the three keys and the five nullifiers of the run differ, \<^verbatim>\<open>run_demo\<close> neither panics nor fails
  and \<^verbatim>\<open>main\<close> exits with status 0: Alice receives the genesis note,
  both transfers are built, accepted and delivered, the second spends the note that the first one created, the audits
  succeed, and the log ends with balances 750000, 150000, 100000 and a supply of 1019985.\<close>

theorem run_demo_completes:
  assumes "digest32 B" and "x25519_ok C" and "aead_ok C"
    and "\<forall>(i, eph) \<in> set (demo_encryptions B). mlkem_ok_at C (kem_seed B (demo_key B i)) (hash_parts B KEM_SEED [eph])"
    and "\<forall>(i, n, eph) \<in> set (demo_outputs B). sealed_for B C (map (demo_key B) [1, 2, 3]) (demo_key B i) n eph"
    and "distinct (map (demo_key B) [1, 2, 3])" and "distinct (demo_nullifiers B)"
  shows "run_demo B C = Some (Inr demo_log) \<and> node_main B C = Some (demo_log, None, 0)"
  using assms by (rule demo_completes)

text \<open>
  An instance for the witness: a hash that adds the ninth and the last byte of its input (the first byte of the first
  part and the last of the last), and an AEAD that carries its key in the tag.
\<close>

definition mix_hash :: blake3 where
  "mix_hash c m = replicate 32 (m ! 8 + last m)"

definition tagged_crypto :: crypto_lib where
  "tagged_crypto = null_crypto\<lparr>
     aead_encrypt := \<lambda>k n pt. Some (take 16 (k @ replicate 16 0) @ pt),
     aead_decrypt := \<lambda>k n ct. if take 16 ct = take 16 (k @ replicate 16 0) then Some (drop 16 ct) else None\<rparr>"

lemma mix_hash_parts:
  assumes "p \<noteq> []"
  shows "hash_parts mix_hash c [p] = replicate 32 (hd p + last p)"
    and "q \<noteq> [] \<Longrightarrow> hash_parts mix_hash c (p # ps @ [q]) = replicate 32 (hd p + last q)"
  using assms by (simp_all add: hash_parts_def absorb_parts_def mix_hash_def nth_append hd_conv_nth)

lemma mix_hash_key: "derive_key mix_hash c (replicate 32 b) = replicate 32 (b + b)"
  by (simp add: derive_key_def mix_hash_def)

lemma demo_key_mix:
  "demo_key mix_hash i = \<lparr>sk_sk = replicate 32 (2 * i)\<rparr>" "nk mix_hash (demo_key mix_hash i) = replicate 32 (4 * i)"
  "addr_tag mix_hash (demo_key mix_hash i) = replicate 32 (8 * i)"
  by (simp_all add: demo_key_def sk_from_seed_def nk_def addr_tag_def ask_def mix_hash_key mix_hash_parts)

lemma tagged_crypto_ok:
  "x25519_ok tagged_crypto" "mlkem_ok_at tagged_crypto seed m" "aead_ok tagged_crypto"
proof -
  show "x25519_ok tagged_crypto" "mlkem_ok_at tagged_crypto seed m"
    by (simp_all add: x25519_ok_def mlkem_ok_at_def tagged_crypto_def null_crypto_def key_consts)
  show "aead_ok tagged_crypto" by (auto simp: aead_ok_def tagged_crypto_def min_def)
qed

lemma nullifier_mix: "note_rho n = replicate 32 b \<Longrightarrow> nullifier mix_hash n (replicate 32 a) = Nullifier (replicate 32 (a + b))"
  using mix_hash_parts(2) [of "replicate 32 a" "replicate 32 b" NULLIFIER "[]"] by (simp add: nullifier_def)

lemma rho_mix:
  "note_rho (demo_note mix_hash) = replicate 32 0" "note_rho (dummy mix_hash (replicate 32 0xD0)) = replicate 32 160"
  "rho_transfer mix_hash (Nullifier (replicate 32 b)) j = replicate 32 (b + j)"
proof -
  have "u64_to_le_bytes 0 = 0 # to_le 7 0" using to_le.simps(2) [of 7 0] by (simp add: u64_to_le_bytes_def del: to_le.simps)
  then show "note_rho (demo_note mix_hash) = replicate 32 0"
    using mix_hash_parts(2) [of "u64_to_le_bytes 0" "[0]" RHO_MINT "[]"] by (simp add: demo_note_def rho_mint_def)
  show "rho_transfer mix_hash (Nullifier (replicate 32 b)) j = replicate 32 (b + j)"
    using mix_hash_parts(2) [of "replicate 32 b" "[j]" RHO_TRANSFER "[]"] by (simp add: rho_transfer_def)
qed (simp add: dummy_def mix_hash_parts)

lemma replicate_mono: "a \<le> b \<Longrightarrow> replicate n a \<le> replicate n b" for a b :: u8
  by (induction n) auto

lemma demo_nullifiers_mix: "demo_nullifiers mix_hash = map (\<lambda>b. Nullifier (replicate 32 b)) [4, 164, 12, 168, 9]"
proof -
  have spent: "demo_spent mix_hash (demo_note mix_hash) 1 = [Nullifier (replicate 32 4), Nullifier (replicate 32 164)]"
    by (simp add: demo_spent_def nullifier_mix rho_mix demo_key_mix(2))
  have "replicate 32 4 \<le> replicate 32 (164 :: u8)" by (rule replicate_mono) (simp add: word_le_nat_alt)
  then have "hd (sort_key nf_bytes (demo_spent mix_hash (demo_note mix_hash) 1)) = Nullifier (replicate 32 4)" by (simp add: spent)
  then show ?thesis
    by (simp add: demo_nullifiers_def spent demo_output_def out_note_def nullifier_mix rho_mix demo_key_mix(2))
      (simp add: demo_spent_def nullifier_mix rho_mix demo_key_mix(2))
qed

text \<open>The tag of an output is the first half of the key, which ends with the recipient's address tag.\<close>

lemma derive_aead_mix:
  assumes "tag = replicate 32 t"
  shows "fst (derive_aead mix_hash (replicate 32 0) mss epk mct tag) = replicate 32 t"
  using mix_hash_parts(2) [of "replicate 32 0" tag NOTE_AEAD "[mss, epk, mct]"] assms by (simp add: derive_aead_def Let_def)

lemma aead_ct_of_encrypt_mix:
  assumes "encrypt_note mix_hash tagged_crypto n (sk_address mix_hash tagged_crypto k) memo eph = Some ct"
    and "addr_tag mix_hash k = replicate 32 t"
  shows "take 16 (eo_aead_ct ct) = replicate 16 t"
proof -
  have fields: "x25519_pub tagged_crypto a = replicate 32 0" "x25519_dh tagged_crypto a b = replicate 32 0"
      "mlkem_from_seed tagged_crypto a = ([], replicate 1184 0)" "mlkem_encaps tagged_crypto a b = Some (replicate 1088 0, replicate 32 0)"
      "aead_encrypt tagged_crypto a b pt = Some (take 16 (a @ replicate 16 0) @ pt)" for a b pt
    by (simp_all add: tagged_crypto_def null_crypto_def)
  from assms show ?thesis
    using derive_aead_mix [of "replicate 32 t" t "replicate 32 0" "replicate 32 0" "replicate 1088 0"]
    by (auto simp: encrypt_note_def sk_address_def kem_keypair_def kem_encapsulate_def fields Let_def eo_aead_ct_def key_consts
        split: prod.splits if_splits)
qed

lemma decrypt_tag_mix:
  assumes "try_decrypt mix_hash tagged_crypto ct (incoming_viewing_key mix_hash tagged_crypto k) = Some n"
    and "addr_tag mix_hash k = replicate 32 t"
  shows "take 16 (eo_aead_ct ct) = replicate 16 t"
proof -
  have fields: "ivk_dh tagged_crypto v p = replicate 32 0" "ivk_addr_tag (incoming_viewing_key mix_hash tagged_crypto k) = addr_tag mix_hash k"
      "aead_decrypt tagged_crypto a b c = Some pt \<Longrightarrow> take 16 c = take 16 (a @ replicate 16 0)" for v p a b c pt
    by (simp_all add: tagged_crypto_def null_crypto_def ivk_dh_def incoming_viewing_key_def split: prod.splits if_splits)
  let ?d = "\<lambda>mss. derive_aead mix_hash (replicate 32 0) mss (eo_epk ct) (eo_mlkem_ct ct) (addr_tag mix_hash k)"
  obtain mss pt where "aead_decrypt tagged_crypto (fst (?d mss)) (snd (?d mss)) (eo_aead_ct ct) = Some pt"
    using assms(1) by (auto simp: try_decrypt_def fields(1,2) bind_eq_Some_conv Let_def split_beta split: if_splits)
  from fields(3) [OF this] show ?thesis
    using derive_aead_mix [OF assms(2), of mss "eo_epk ct" "eo_mlkem_ct ct"] by simp
qed

lemma sealed_for_mix:
  assumes "\<forall>k' \<in> set ks. \<exists>j. k' = demo_key mix_hash j \<and> (j \<noteq> i \<longrightarrow> 8 * j \<noteq> 8 * i)"
  shows "sealed_for mix_hash tagged_crypto ks (demo_key mix_hash i) n eph"
  unfolding sealed_for_def
proof (intro allI impI ballI)
  fix ct k'
  assume ct: "encrypt_note mix_hash tagged_crypto n (sk_address mix_hash tagged_crypto (demo_key mix_hash i)) (replicate MEMO_LEN 0) eph = Some ct"
    and "k' \<in> set ks" "k' \<noteq> demo_key mix_hash i"
  then obtain j where j: "k' = demo_key mix_hash j" "8 * j \<noteq> 8 * i" using assms by fastforce
  show "try_decrypt mix_hash tagged_crypto ct (incoming_viewing_key mix_hash tagged_crypto k') = None"
  proof (rule ccontr)
    assume "\<not> ?thesis"
    then obtain m where "try_decrypt mix_hash tagged_crypto ct (incoming_viewing_key mix_hash tagged_crypto k') = Some m" by auto
    from decrypt_tag_mix [OF this [unfolded j(1)] demo_key_mix(3)] aead_ct_of_encrypt_mix [OF ct demo_key_mix(3)] j(2) show False by simp
  qed
qed

lemma run_demo_completes_witness: "run_demo mix_hash tagged_crypto = Some (Inr demo_log)"
proof (rule run_demo_completes [THEN conjunct1])
  show "digest32 mix_hash" by (simp add: digest32_def mix_hash_def)
  show "distinct (map (demo_key mix_hash) [1, 2, 3])" by (simp add: demo_key_mix(1))
  show "distinct (demo_nullifiers mix_hash)" unfolding demo_nullifiers_mix by simp
  have "sealed_for mix_hash tagged_crypto (map (demo_key mix_hash) [1, 2, 3]) (demo_key mix_hash i) n eph" if "i \<in> {1, 2, 3}" for i n eph
    using that by (intro sealed_for_mix) auto
  then show "\<forall>(i, n, eph) \<in> set (demo_outputs mix_hash). sealed_for mix_hash tagged_crypto (map (demo_key mix_hash) [1, 2, 3]) (demo_key mix_hash i) n eph"
    by (simp add: demo_outputs_def)
qed (auto simp: tagged_crypto_ok)

text \<open>C37. Payments can be phantoms.  The spend statement does not mention the ciphertexts and a wallet compares no commitment, so
  the owner of at most two notes on the chain whose transfer has fresh distinct nullifiers has, on a sequencer with head-room and for every well-formed note \<open>n\<close> of positive value that carries the recipient's address tag
  (whether it is on the chain or not), a transaction that the next checkpoint accepts and that makes the recipient's wallet record \<open>n\<close> twice, although the
  leaves at the recorded positions are the commitments of a note of the amount really paid and of the payer's change.\<close>

theorem phantom_payment:
  assumes "sequencer_ok B gs demo hist" and "headroom (dm_ledger demo)" and "digest32 B" and "x25519_ok C" and "aead_ok C"
    and "mlkem_ok_at C (kem_seed B (w_sk R)) (hash_parts B KEM_SEED [eph])"
    and "wf_note n" and "note_addr_tag n = addr_tag B (w_sk R)" and "0 < note_value n"
    and "length sel \<le> TX_INPUTS" and "amount < MAX_MONEY" and "change < MAX_MONEY"
    and "unat change + unat amount = sum_list (map (\<lambda>r. unat (nr_value r)) sel)"
    and "\<forall>r \<in> set sel. note_addr_tag (nr_note r) = addr_tag B (w_sk W) \<and> nr_value r < MAX_MONEY"
    and "\<forall>r \<in> set sel. unat (nr_position r) < length (ct_leaves (lg_tree (dm_ledger demo)))
        \<and> ct_leaves (lg_tree (dm_ledger demo)) ! unat (nr_position r) = cm_bytes (commitment B (nr_note r))"
    and "distinct (transfer_nullifiers B W sel)" and "set (transfer_nullifiers B W sel) \<inter> lg_nullifiers (dm_ledger demo) = {}"
  shows "\<exists>tx demo' R' r p0 p1 out bk. demo_checkpoint B C demo [tx] [R] = Some (demo', [R'], r) \<and> cr_accepted r = 1
    \<and> w_unspent R' = filter (\<lambda>r. nullifier B (nr_note r) (nk B (w_sk R)) \<notin> w_seen_nullifiers R \<union> set (transfer_nullifiers B W sel)) (w_unspent R)
        @ [\<lparr>nr_note = n, nr_position = p0\<rparr>, \<lparr>nr_note = n, nr_position = p1\<rparr>]
    \<and> map (\<lambda>p. ct_leaves (lg_tree (dm_ledger demo')) ! unat p) [p0, p1] = map (\<lambda>m. cm_bytes (commitment B m)) [out, bk]
    \<and> note_value out = amount \<and> note_addr_tag out = addr_tag B (w_sk R) \<and> note_value bk = change \<and> note_addr_tag bk = addr_tag B (w_sk W)"
proof -
  let ?L = "dm_ledger demo"
  have "chain B (dev_verify B) gs ?L hist" using assms(1) by (simp add: sequencer_ok_def)
  note inv = chain_inv [OF this]
  have "length (ct_leaves (lg_tree ?L)) \<le> 2 ^ TREE_DEPTH" using assms(2) unfolding headroom_def by linarith
  then have wit: "\<forall>r \<in> set sel. \<exists>p. tree_witness B ?L (nr_position r) = Some p
      \<and> verify_path B (commitment B (nr_note r)) p (anc_root (current_anchor B ?L))"
    using ledger_leaf_provable [OF inv] assms(15) by blast
  obtain n0 n1 where nfs: "transfer_nullifiers B W sel = [n0, n1]" "n0 \<noteq> n1"
    using two_elements [OF length_transfer_nullifiers [OF assms(10)]] assms(16) by (metis distinct_length_2_or_more)
  obtain x where x: "try_decrypt B C x (incoming_viewing_key B C (w_sk R)) = Some n" "length (eo_bytes x) = 1273"
    using encrypt_decrypts [OF assms(3-8), of "replicate MEMO_LEN 0"] by auto
  let ?out = "out_note B amount (addr_tag B (w_sk R)) n0 eph 0" and ?bk = "out_note B change (addr_tag B (w_sk W)) n0 eph 1"
  let ?tx = "transfer_body (current_anchor B ?L) [n0, n1] (map (commitment B) [?out, ?bk]) [x, x]"
  obtain pf where pf: "validate_stateless B (?tx pf) (dev_verify B) 0 = Inr ()" "wf_anchor (current_anchor B ?L) \<longrightarrow> wf_tx_body (?tx pf)"
    by (rule transfer_body_valid [OF assms(3,10) nfs assms(11-14) wit x(2) x(2)])
  have tx: "tx_antispam (?tx pf) = LanePow \<lparr>pow_nonce = 0\<rparr>" "wf_tx_body (?tx pf)" "lg_anchor_valid ?L (tx_anchor (?tx pf))"
      "set (tx_nullifiers (?tx pf)) \<inter> lg_nullifiers ?L = {}"
    using pf(2) anchor_of_inv [OF inv] assms(3,17) by (simp_all add: transfer_body_def nfs(1))
  obtain demo' ps r where run: "\<forall>ws. demo_checkpoint B C demo [?tx pf] ws = Some (demo', map (\<lambda>w. let w = observe_nullifiers B w (tx_nullifiers (?tx pf)) in
         w\<lparr>w_unspent := w_unspent w @ received B C (w_sk w) (zip (tx_enc_outputs (?tx pf)) ps)\<rparr>) ws, r)"
    "map (\<lambda>p. ct_leaves (lg_tree (dm_ledger demo')) ! unat p) ps = map cm_bytes (tx_commitments (?tx pf))" "one_accepted ?L (dm_ledger demo') r"
    by (rule sequencer_step [where C = C, OF assms(1,2) tx(1) pf(1) tx(2-4)])
  obtain p0 p1 where ps: "ps = [p0, p1]" using run(2) by (auto simp: transfer_body_def map_eq_Cons_conv)
  show ?thesis
    using run(1) [rule_format, of "[R]"] run(2,3) x(1) assms(9)
    by (intro exI [of _ "?tx pf"] exI [of _ demo'] exI conjI)
      (auto simp: ps transfer_body_def nfs(1) received_two received_Some one_accepted_def observe_nullifiers_def Let_def)
qed

definition phantom_note :: Note where
  "phantom_note = \<lparr>note_value = 5000000, note_addr_tag = addr_tag mix_hash (demo_key mix_hash 2), note_rho = replicate 32 7, note_rseed = replicate 32 7\<rparr>"

text \<open>On the demo's own genesis Alice pays Bob one unit and shows him two notes of five million.\<close>

lemma phantom_payment_witness:
  "\<exists>demo tx demo' R' r. dm_genesis_supply demo = 1000000
     \<and> demo_checkpoint mix_hash tagged_crypto demo [tx] [demo_wallet mix_hash 2 {} []] = Some (demo', [R'], r)
     \<and> cr_accepted r = 1 \<and> map nr_note (w_unspent R') = [phantom_note, phantom_note] \<and> balance R' = Some 10000000"
proof -
  let ?W = "demo_wallet mix_hash 1 {} [demo_rec0 mix_hash]" and ?R = "demo_wallet mix_hash 2 {} []"
  obtain L where L: "genesis mix_hash demo_emission demo_validators 0 [(commitment mix_hash (demo_note mix_hash), GENESIS_FUND)] = Some L"
    "sequencer_ok mix_hash [(commitment mix_hash (demo_note mix_hash), GENESIS_FUND)] \<lparr>dm_ledger = L, dm_genesis_supply = GENESIS_FUND\<rparr> []"
    "lg_height L = 0" "lg_supply L = 1000000" "lg_nullifiers L = {}" "lg_emission L = demo_emission"
    "ct_leaves (lg_tree L) = [cm_bytes (commitment mix_hash (demo_note mix_hash))]" by (rule demo_genesis)
  have room: "headroom L" using L by (simp add: headroom_def TREE_DEPTH_def)
  have "distinct (transfer_nullifiers mix_hash ?W [demo_rec0 mix_hash])"
    using demo_nullifiers_mix by (simp add: demo_transfer_nullifiers demo_nullifiers_def demo_spent_def del: sort_key_simps)
  moreover have "digest32 mix_hash" by (simp add: digest32_def mix_hash_def)
  ultimately obtain tx demo' R' r where run:
    "demo_checkpoint mix_hash tagged_crypto \<lparr>dm_ledger = L, dm_genesis_supply = GENESIS_FUND\<rparr> [tx] [?R] = Some (demo', [R'], r)"
    "cr_accepted r = 1" "map nr_note (w_unspent R') = [phantom_note, phantom_note]"
    using phantom_payment [OF L(2), where C = tagged_crypto and R = ?R and n = phantom_note and W = ?W and sel = "[demo_rec0 mix_hash]"
        and amount = 1 and change = 999999 and eph = "replicate 32 0"] room L(5,7)
    by (auto simp: tagged_crypto_ok phantom_note_def wf_defs TX_INPUTS_def MAX_MONEY_def demo_note_def GENESIS_FUND_def word_less_nat_alt
        observe_nullifiers_def Let_def demo_key_mix(3))
  have "map nr_value (w_unspent R') = map note_value (map nr_note (w_unspent R'))" by (simp only: map_map comp_def)
  then have bal: "balance R' = Some 10000000" unfolding balance_def run(3) by (simp add: phantom_note_def sum_or_panic_def add_or_panic_def)
  have fund: "dm_genesis_supply \<lparr>dm_ledger = L, dm_genesis_supply = GENESIS_FUND\<rparr> = 1000000" by (simp add: GENESIS_FUND_def)
  show ?thesis
    by (rule exI [of _ "\<lparr>dm_ledger = L, dm_genesis_supply = GENESIS_FUND\<rparr>"], rule exI [of _ tx], rule exI [of _ demo'],
        rule exI [of _ R'], rule exI [of _ r]) (intro conjI, rule fund, rule run(1), rule run(2), rule run(3), rule bal)
qed

end
