(* ===== verification/Knockout.thy ===== *)
theory Knockout
  imports Prover_Dev
begin

text \<open>
  \<^verbatim>\<open>crates/knockout\<close>: the mutation battery for the spend statement.  Each entry of
  \<^verbatim>\<open>run_knockouts\<close> is one definition; \<^verbatim>\<open>unwrap\<close> and an index out of range are \<open>None\<close>.
\<close>

section \<open>The baseline\<close>

record Knockout =
  ko_mutation :: string
  ko_expected_constraint :: string
  ko_passed :: bool
  ko_fired :: "string option"

definition ko_empty_path :: MerklePath where
  "ko_empty_path = \<lparr>mp_position = 0, mp_siblings = replicate TREE_DEPTH (replicate 32 0)\<rparr>"

definition baseline :: "blake3 \<Rightarrow> (SpendWitness \<times> SpendPublicInputs \<times> Anchor) option" where
  "baseline B =
     do { let sk = sk_from_seed B (replicate 32 1);
          let key = nk B sk;
          let tag = addr_tag B sk;
          let input = \<lparr>note_value = 100, note_addr_tag = tag, note_rho = replicate 32 9, note_rseed = replicate 32 8\<rparr>;
          let (tree, pos) = ct_append (ct_new B) (commitment B input);
          let tree = fst (ct_append tree (commitment B (dummy B (replicate 32 7))));
          let (tree, anchor) = ct_seal B tree 0;
          path \<leftarrow> ct_witness B tree pos;
          let inputs = [\<lparr>iw_note = input, iw_path = path, iw_is_dummy = False\<rparr>,
                        \<lparr>iw_note = dummy B (replicate 32 5), iw_path = ko_empty_path, iw_is_dummy = True\<rparr>];
          let nfs = sort_key nf_bytes (map (\<lambda>i. nullifier B (iw_note i) key) inputs);
          first_nf \<leftarrow> index_or_panic nfs 0;
          let recipient_tag = addr_tag B (sk_from_seed B (replicate 32 2));
          let out0 = \<lparr>note_value = 70, note_addr_tag = recipient_tag, note_rho = rho_transfer B first_nf 0, note_rseed = replicate 32 1\<rparr>;
          let out1 = \<lparr>note_value = 30, note_addr_tag = tag, note_rho = rho_transfer B first_nf 1, note_rseed = replicate 32 2\<rparr>;
          let w = canonicalize B \<lparr>sw_spender_nk = key, sw_spender_addr_tag = tag, sw_inputs = inputs,
                    sw_outputs = [out0, out1], sw_mint_value = 0, sw_binding_digest = replicate 32 3\<rparr>;
          Some (w, public_inputs B w anchor, anchor) }"

section \<open>The battery\<close>

text \<open>The \<^verbatim>\<open>Display\<close> of the prover's error.\<close>

definition prove_error_msg :: "ProveError \<Rightarrow> string" where
  "prove_error_msg e = (case e of Unsatisfied s \<Rightarrow> ''witness does not satisfy the spend statement: '' @ s)"

definition expect_reject :: "blake3 \<Rightarrow> string \<Rightarrow> string \<Rightarrow> SpendWitness \<Rightarrow> SpendPublicInputs \<Rightarrow> Knockout" where
  "expect_reject B mutation expected w pi =
     (case check_spend_statement B w pi of
        Inr _ \<Rightarrow> \<lparr>ko_mutation = mutation, ko_expected_constraint = expected, ko_passed = False, ko_fired = None\<rparr>
      | Inl e \<Rightarrow> \<lparr>ko_mutation = mutation, ko_expected_constraint = expected, ko_passed = True,
                 ko_fired = Some (prove_error_msg e)\<rparr>)"

text \<open>\<^verbatim>\<open>Iterator::position\<close>, and assignments to a field of an indexed element.\<close>

fun position_of :: "('a \<Rightarrow> bool) \<Rightarrow> 'a list \<Rightarrow> nat option" where
  "position_of p [] = None"
| "position_of p (x # xs) = (if p x then Some 0 else map_option Suc (position_of p xs))"

definition update_input :: "nat \<Rightarrow> (InputWitness \<Rightarrow> InputWitness) \<Rightarrow> SpendWitness \<Rightarrow> SpendWitness" where
  "update_input i f w = w\<lparr>sw_inputs := (sw_inputs w)[i := f (sw_inputs w ! i)]\<rparr>"

definition update_output :: "nat \<Rightarrow> (Note \<Rightarrow> Note) \<Rightarrow> SpendWitness \<Rightarrow> SpendWitness" where
  "update_output i f w = w\<lparr>sw_outputs := (sw_outputs w)[i := f (sw_outputs w ! i)]\<rparr>"

text \<open>\<^verbatim>\<open>x[0] ^= 0xFF\<close>.\<close>

definition flip_first :: "bytes \<Rightarrow> bytes" where
  "flip_first bs = bs[0 := bs ! 0 XOR 0xFF]"

definition ko_base :: "blake3 \<Rightarrow> Knockout option" where
  "ko_base B =
     do { (w, pi, _) \<leftarrow> baseline B;
          let ok = (case check_spend_statement B w pi of Inl _ \<Rightarrow> False | Inr _ \<Rightarrow> True);
          Some \<lparr>ko_mutation = ''baseline (must be valid)'', ko_expected_constraint = ''none'', ko_passed = ok,
                ko_fired = (if ok then None else Some ''baseline unexpectedly rejected'')\<rparr> }"

definition ko_c1_path :: "blake3 \<Rightarrow> Knockout option" where
  "ko_c1_path B =
     do { (w, pi, _) \<leftarrow> baseline B;
          idx \<leftarrow> position_of (\<lambda>i. \<not> iw_is_dummy i) (sw_inputs w);
          let w = update_input idx (\<lambda>i. i\<lparr>iw_path := (iw_path i)\<lparr>mp_siblings :=
                (mp_siblings (iw_path i))[0 := flip_first (mp_siblings (iw_path i) ! 0)]\<rparr>\<rparr>) w;
          Some (expect_reject B ''C1: corrupted membership path'' ''C1'' w pi) }"

definition ko_c1_anchor :: "blake3 \<Rightarrow> Knockout option" where
  "ko_c1_anchor B =
     do { (w, pi, _) \<leftarrow> baseline B;
          let pi = pi\<lparr>pi_anchor := (pi_anchor pi)\<lparr>anc_root := replicate 32 0xAB\<rparr>\<rparr>;
          Some (expect_reject B ''C1: forged anchor root'' ''C1'' w pi) }"

definition ko_c2 :: "blake3 \<Rightarrow> Knockout option" where
  "ko_c2 B =
     do { (w, pi, _) \<leftarrow> baseline B;
          let pi = pi\<lparr>pi_nullifiers := (pi_nullifiers pi)[0 := Nullifier (flip_first (nf_bytes (pi_nullifiers pi ! 0)))]\<rparr>;
          Some (expect_reject B ''C2: tampered nullifier'' ''C2'' w pi) }"

definition ko_c3 :: "blake3 \<Rightarrow> Knockout option" where
  "ko_c3 B =
     do { (w, pi, _) \<leftarrow> baseline B;
          let w = w\<lparr>sw_spender_addr_tag := addr_tag B (sk_from_seed B (replicate 32 99))\<rparr>;
          Some (expect_reject B ''C3: wrong owner tag'' ''C3'' w pi) }"

definition ko_c4 :: "blake3 \<Rightarrow> Knockout option" where
  "ko_c4 B =
     do { (w, _, anchor) \<leftarrow> baseline B;
          d \<leftarrow> position_of iw_is_dummy (sw_inputs w);
          let w = update_input d (\<lambda>i. i\<lparr>iw_note := (iw_note i)\<lparr>note_value := 1000\<rparr>\<rparr>) w;
          Some (expect_reject B ''C4: dummy with value'' ''C4'' w (public_inputs B w anchor)) }"

definition ko_c6_input :: "blake3 \<Rightarrow> Knockout option" where
  "ko_c6_input B =
     do { (w, _, anchor) \<leftarrow> baseline B;
          r \<leftarrow> position_of (\<lambda>i. \<not> iw_is_dummy i) (sw_inputs w);
          let w = update_input r (\<lambda>i. i\<lparr>iw_note := (iw_note i)\<lparr>note_value := MAX_MONEY\<rparr>\<rparr>) w;
          Some (expect_reject B ''C6: input value out of range'' ''C6'' w (public_inputs B w anchor)) }"

definition ko_c6_output :: "blake3 \<Rightarrow> Knockout option" where
  "ko_c6_output B =
     do { (w, _, anchor) \<leftarrow> baseline B;
          let w = update_output 0 (\<lambda>out. out\<lparr>note_value := MAX_MONEY\<rparr>) w;
          Some (expect_reject B ''C6: output value out of range'' ''C6'' w (public_inputs B w anchor)) }"

definition ko_c5_commitment :: "blake3 \<Rightarrow> Knockout option" where
  "ko_c5_commitment B =
     do { (w, pi, _) \<leftarrow> baseline B;
          let pi = pi\<lparr>pi_commitments := (pi_commitments pi)[0 := Commitment (flip_first (cm_bytes (pi_commitments pi ! 0)))]\<rparr>;
          Some (expect_reject B ''C5: mismatched output commitment'' ''C5'' w pi) }"

definition ko_c5_rho :: "blake3 \<Rightarrow> Knockout option" where
  "ko_c5_rho B =
     do { (w, _, anchor) \<leftarrow> baseline B;
          let w = update_output 0 (\<lambda>out. out\<lparr>note_rho := replicate 32 0x42\<rparr>) w;
          Some (expect_reject B ''C5: bad output rho derivation'' ''C5'' w (public_inputs B w anchor)) }"

definition ko_c7 :: "blake3 \<Rightarrow> Knockout option" where
  "ko_c7 B =
     do { (w, _, anchor) \<leftarrow> baseline B;
          v \<leftarrow> add_or_panic (note_value (sw_outputs w ! 0)) 1;
          let w = update_output 0 (\<lambda>out. out\<lparr>note_value := v\<rparr>) w;
          Some (expect_reject B ''C7: value imbalance (inflation)'' ''C7'' w (public_inputs B w anchor)) }"

definition ko_c8 :: "blake3 \<Rightarrow> Knockout option" where
  "ko_c8 B =
     do { (w, pi, _) \<leftarrow> baseline B;
          let pi = pi\<lparr>pi_binding_digest := flip_first (pi_binding_digest pi)\<rparr>;
          Some (expect_reject B ''C8: binding digest mismatch'' ''C8'' w pi) }"

definition ko_c0 :: "blake3 \<Rightarrow> Knockout option" where
  "ko_c0 B =
     do { (w, _, _) \<leftarrow> baseline B;
          let w = w\<lparr>sw_inputs := take 1 (sw_inputs w)\<rparr>;
          (_, pi_full, _) \<leftarrow> baseline B;
          Some (expect_reject B ''C0: input arity mismatch'' ''C0'' w pi_full) }"

definition run_knockouts :: "blake3 \<Rightarrow> Knockout list option" where
  "run_knockouts B = those [ko_base B, ko_c1_path B, ko_c1_anchor B, ko_c2 B, ko_c3 B, ko_c4 B, ko_c6_input B,
     ko_c6_output B, ko_c5_commitment B, ko_c5_rho B, ko_c7 B, ko_c8 B, ko_c0 B]"

definition all_caught :: "blake3 \<Rightarrow> bool option" where
  "all_caught B = do { ks \<leftarrow> run_knockouts B; Some (list_all ko_passed ks) }"

section \<open>Facts\<close>

text \<open>The baseline as the battery sees it: a real input and a dummy, in the order of their nullifiers.\<close>

definition base_shape :: "blake3 \<Rightarrow> SpendWitness \<Rightarrow> Anchor \<Rightarrow> InputWitness \<Rightarrow> InputWitness \<Rightarrow> Note \<Rightarrow> Note \<Rightarrow> bool" where
  "base_shape B w anchor i d o0 o1 \<longleftrightarrow>
     (sw_inputs w = [i, d] \<or> sw_inputs w = [d, i]) \<and> sw_outputs w = [o0, o1] \<and> sw_mint_value w = 0
     \<and> sw_binding_digest w = replicate 32 3 \<and> sw_spender_addr_tag w = addr_tag B (sk_from_seed B (replicate 32 1))
     \<and> \<not> iw_is_dummy i \<and> note_value (iw_note i) = 100 \<and> note_addr_tag (iw_note i) = sw_spender_addr_tag w
     \<and> path_root B (cm_bytes (commitment B (iw_note i))) (mp_position (iw_path i)) (mp_siblings (iw_path i)) = anc_root anchor
     \<and> iw_is_dummy d \<and> note_value (iw_note d) = 0 \<and> note_value o0 = 70 \<and> note_value o1 = 30
     \<and> note_rho o0 = rho_transfer B (nullifier B (iw_note (hd (sw_inputs w))) (sw_spender_nk w)) 0
     \<and> note_rho o1 = rho_transfer B (nullifier B (iw_note (hd (sw_inputs w))) (sw_spender_nk w)) 1"

lemma baseline_shape:
  "\<exists>w anchor i d o0 o1. baseline B = Some (w, public_inputs B w anchor, anchor) \<and> base_shape B w anchor i d o0 o1"
proof -
  let ?key = "nk B (sk_from_seed B (replicate 32 1))" and ?tag = "addr_tag B (sk_from_seed B (replicate 32 1))"
  let ?in = "\<lparr>note_value = 100, note_addr_tag = ?tag, note_rho = replicate 32 9, note_rseed = replicate 32 8\<rparr>"
  let ?t = "fst (ct_append (fst (ct_append (ct_new B) (commitment B ?in))) (commitment B (dummy B (replicate 32 7))))"
  let ?s = "fst (ct_seal B ?t 0)" and ?a = "snd (ct_seal B ?t 0)"
  obtain p where p: "ct_witness B ?s 0 = Some p" "verify_path B (commitment B ?in) p (anc_root ?a)"
    by (rule sealed_witness [of B ?t 0 "commitment B ?in" 0]) (simp_all add: TREE_DEPTH_def)
  let ?i = "\<lparr>iw_note = ?in, iw_path = p, iw_is_dummy = False\<rparr>"
  let ?d = "\<lparr>iw_note = dummy B (replicate 32 5), iw_path = ko_empty_path, iw_is_dummy = True\<rparr>"
  let ?nf = "\<lambda>i. nullifier B (iw_note i) ?key"
  define ins where "ins = sort_key (\<lambda>i. nf_bytes (?nf i)) [?i, ?d]"
  have ins: "ins = [?i, ?d] \<or> ins = [?d, ?i]" by (auto simp: ins_def)
  have "sort_key nf_bytes (map ?nf [?i, ?d]) = map ?nf ins" by (simp add: ins_def)
  then have first: "index_or_panic (sort_key nf_bytes (map ?nf [?i, ?d])) 0 = Some (?nf (hd ins))"
    using ins by (auto simp: index_or_panic_def)
  let ?o0 = "\<lparr>note_value = 70, note_addr_tag = addr_tag B (sk_from_seed B (replicate 32 2)), note_rho = rho_transfer B (?nf (hd ins)) 0, note_rseed = replicate 32 1\<rparr>"
  let ?o1 = "\<lparr>note_value = 30, note_addr_tag = ?tag, note_rho = rho_transfer B (?nf (hd ins)) 1, note_rseed = replicate 32 2\<rparr>"
  let ?w = "\<lparr>sw_spender_nk = ?key, sw_spender_addr_tag = ?tag, sw_inputs = ins, sw_outputs = [?o0, ?o1], sw_mint_value = 0,
      sw_binding_digest = replicate 32 3\<rparr>"
  have pos: "ct_append (ct_new B) (commitment B ?in) = (fst (ct_append (ct_new B) (commitment B ?in)), 0)"
    by (simp add: ct_append_def ct_new_def Let_def)
  have "baseline B = Some (?w, public_inputs B ?w ?a, ?a)"
    using first unfolding baseline_def Let_def
    by (subst pos) (simp add: split_beta p(1) canonicalize_def ins_def [symmetric] del: sort_key_simps list.map)
  moreover have "base_shape B ?w ?a ?i ?d ?o0 ?o1"
    using ins p(2) by (auto simp: base_shape_def verify_path_def)
  ultimately show ?thesis by blast
qed

lemma expect_reject_passed: "ko_passed (expect_reject B m e w pi) \<longleftrightarrow> \<not> spend_statement B w pi"
  using check_spend_statement_Inr_iff [of B w pi]
  by (auto simp: expect_reject_def split: sum.splits)

lemma flip_first_neq: "bs \<noteq> [] \<Longrightarrow> flip_first bs \<noteq> bs"
proof (cases bs)
  case (Cons b rest)
  have "b XOR 0xFF = b \<Longrightarrow> False" for b :: u8
  proof -
    assume "b XOR 0xFF = b"
    then have "b XOR (b XOR 0xFF) = b XOR b" by simp
    then show False by (simp flip: xor.assoc)
  qed
  then show ?thesis using Cons by (auto simp: flip_first_def)
qed simp

text \<open>
  The only ways in which a mutation can go unnoticed: the corrupted path still hashes to the root,
  the root is the forged one, the two owners share a tag, or the derived nonce is the planted one.
\<close>

definition corrupted :: "MerklePath \<Rightarrow> MerklePath" where
  "corrupted p = p\<lparr>mp_siblings := (mp_siblings p)[0 := flip_first (mp_siblings p ! 0)]\<rparr>"

definition hash_coincidence :: "blake3 \<Rightarrow> bool" where
  "hash_coincidence B \<longleftrightarrow> (\<exists>w pi anchor. baseline B = Some (w, pi, anchor)
     \<and> ((\<exists>i \<in> set (sw_inputs w). \<not> iw_is_dummy i
            \<and> verify_path B (commitment B (iw_note i)) (corrupted (iw_path i)) (anc_root anchor))
        \<or> anc_root anchor = replicate 32 0xAB
        \<or> sw_spender_addr_tag w = addr_tag B (sk_from_seed B (replicate 32 99))
        \<or> note_rho (sw_outputs w ! 0) = replicate 32 0x42))"

lemmas statement_defs = base_shape_def spend_statement_def public_inputs_def input_ok_def verify_path_def interface_consts upt_rec

lemma base_valid: "base_shape B w anchor i d o0 o1 \<Longrightarrow> spend_statement B w (public_inputs B w anchor)"
  by (auto simp: statement_defs)

definition base_order :: "SpendWitness \<Rightarrow> InputWitness \<Rightarrow> InputWitness \<Rightarrow> nat \<Rightarrow> nat \<Rightarrow> bool" where
  "base_order w i d r q \<longleftrightarrow> r = 0 \<and> q = 1 \<and> sw_inputs w = [i, d] \<or> r = 1 \<and> q = 0 \<and> sw_inputs w = [d, i]"

lemma base_positions:
  assumes "base_shape B w anchor i d o0 o1"
  shows "\<exists>r q. base_order w i d r q \<and> position_of (\<lambda>i. \<not> iw_is_dummy i) (sw_inputs w) = Some r
    \<and> position_of iw_is_dummy (sw_inputs w) = Some q"
proof -
  have *: "sw_inputs w = [i, d] \<or> sw_inputs w = [d, i]" "\<not> iw_is_dummy i" "iw_is_dummy d"
    using assms by (simp_all add: base_shape_def)
  from *(1) show ?thesis
  proof
    assume "sw_inputs w = [i, d]"
    with * show ?thesis by (intro exI [of _ 0] exI [of _ 1]) (simp add: base_order_def)
  next
    assume "sw_inputs w = [d, i]"
    with * show ?thesis by (intro exI [of _ 1] exI [of _ 0]) (simp add: base_order_def)
  qed
qed

lemma bad_input:
  "x \<in> set (sw_inputs w) \<Longrightarrow> \<not> input_ok B (sw_spender_addr_tag w) (anc_root (pi_anchor pi)) x \<Longrightarrow> \<not> spend_statement B w pi"
  unfolding spend_statement_def by blast

text \<open>Mutations that no hash function can hide.\<close>

lemma base_rejects:
  assumes shape: "base_shape B w anchor i d o0 o1" and dig: "digest32 B" and ord: "base_order w i d r q"
  shows "\<not> spend_statement B w ((public_inputs B w anchor)\<lparr>pi_nullifiers :=
      (pi_nullifiers (public_inputs B w anchor))[0 := Nullifier (flip_first (nf_bytes (pi_nullifiers (public_inputs B w anchor) ! 0)))]\<rparr>)"
    and "\<not> spend_statement B (update_input q (\<lambda>i. i\<lparr>iw_note := (iw_note i)\<lparr>note_value := 1000\<rparr>\<rparr>) w) pi"
    and "\<not> spend_statement B (update_input r (\<lambda>i. i\<lparr>iw_note := (iw_note i)\<lparr>note_value := MAX_MONEY\<rparr>\<rparr>) w) pi"
    and "\<not> spend_statement B (update_output 0 (\<lambda>out. out\<lparr>note_value := MAX_MONEY\<rparr>) w) pi"
    and "\<not> spend_statement B w ((public_inputs B w anchor)\<lparr>pi_commitments :=
      (pi_commitments (public_inputs B w anchor))[0 := Commitment (flip_first (cm_bytes (pi_commitments (public_inputs B w anchor) ! 0)))]\<rparr>)"
    and "\<not> spend_statement B (update_output 0 (\<lambda>out. out\<lparr>note_value := 71\<rparr>) w) pi"
    and "\<not> spend_statement B w ((public_inputs B w anchor)\<lparr>pi_binding_digest := flip_first (pi_binding_digest (public_inputs B w anchor))\<rparr>)"
    and "\<not> spend_statement B (w\<lparr>sw_inputs := take 1 (sw_inputs w)\<rparr>) pi"
proof -
  have nf: "Nullifier (flip_first (nf_bytes (nullifier B n k))) \<noteq> nullifier B n k" for n k
    using flip_first_neq [of "nf_bytes (nullifier B n k)"] wf_nf_nullifier [OF dig, of n k] by (cases "nullifier B n k") (fastforce simp: wf_defs)
  have cm: "Commitment (flip_first (cm_bytes (commitment B n))) \<noteq> commitment B n" for n
    using flip_first_neq [of "cm_bytes (commitment B n)"] wf_cm_commitment [OF dig, of n] by (cases "commitment B n") (fastforce simp: wf_defs)
  note simps = statement_defs update_input_def update_output_def
  show "\<not> spend_statement B w ((public_inputs B w anchor)\<lparr>pi_nullifiers :=
      (pi_nullifiers (public_inputs B w anchor))[0 := Nullifier (flip_first (nf_bytes (pi_nullifiers (public_inputs B w anchor) ! 0)))]\<rparr>)"
    using shape nf by (auto simp: simps)
  show "\<not> spend_statement B w ((public_inputs B w anchor)\<lparr>pi_commitments :=
      (pi_commitments (public_inputs B w anchor))[0 := Commitment (flip_first (cm_bytes (pi_commitments (public_inputs B w anchor) ! 0)))]\<rparr>)"
    using shape cm by (auto simp: simps)
  have upd: "f d \<in> set (sw_inputs (update_input q f w))" "f i \<in> set (sw_inputs (update_input r f w))" for f
    using ord by (auto simp: base_order_def update_input_def)
  have "iw_is_dummy d" using shape by (simp add: base_shape_def)
  then show "\<not> spend_statement B (update_input q (\<lambda>i. i\<lparr>iw_note := (iw_note i)\<lparr>note_value := 1000\<rparr>\<rparr>) w) pi"
    by (intro bad_input [OF upd(1)]) (simp add: input_ok_def)
  show "\<not> spend_statement B (update_input r (\<lambda>i. i\<lparr>iw_note := (iw_note i)\<lparr>note_value := MAX_MONEY\<rparr>\<rparr>) w) pi"
    by (intro bad_input [OF upd(2)]) (simp add: input_ok_def)
  show "\<not> spend_statement B (update_output 0 (\<lambda>out. out\<lparr>note_value := MAX_MONEY\<rparr>) w) pi"
    and "\<not> spend_statement B (update_output 0 (\<lambda>out. out\<lparr>note_value := 71\<rparr>) w) pi"
    and "\<not> spend_statement B (w\<lparr>sw_inputs := take 1 (sw_inputs w)\<rparr>) pi"
    using shape by (auto simp: simps)
  show "\<not> spend_statement B w ((public_inputs B w anchor)\<lparr>pi_binding_digest := flip_first (pi_binding_digest (public_inputs B w anchor))\<rparr>)"
    using shape flip_first_neq [of "replicate 32 3"] by (auto simp: simps)
qed

text \<open>Mutations that only a coincidence can hide.\<close>

lemma base_coincidences:
  assumes shape: "base_shape B w anchor i d o0 o1" and ord: "base_order w i d r q"
  shows "spend_statement B (update_input r (\<lambda>i. i\<lparr>iw_path := corrupted (iw_path i)\<rparr>) w) (public_inputs B w anchor)
      \<longleftrightarrow> verify_path B (commitment B (iw_note i)) (corrupted (iw_path i)) (anc_root anchor)"
    and "spend_statement B w ((public_inputs B w anchor)\<lparr>pi_anchor := (pi_anchor (public_inputs B w anchor))\<lparr>anc_root := root\<rparr>\<rparr>)
      \<longleftrightarrow> anc_root anchor = root"
    and "spend_statement B (w\<lparr>sw_spender_addr_tag := tag\<rparr>) (public_inputs B w anchor) \<longleftrightarrow> sw_spender_addr_tag w = tag"
    and "spend_statement B (update_output 0 (\<lambda>out. out\<lparr>note_rho := x\<rparr>) w)
        (public_inputs B (update_output 0 (\<lambda>out. out\<lparr>note_rho := x\<rparr>) w) anchor) \<longleftrightarrow> note_rho o0 = x"
proof -
  note simps = statement_defs update_input_def update_output_def
  show "spend_statement B (update_input r (\<lambda>i. i\<lparr>iw_path := corrupted (iw_path i)\<rparr>) w) (public_inputs B w anchor)
      \<longleftrightarrow> verify_path B (commitment B (iw_note i)) (corrupted (iw_path i)) (anc_root anchor)"
    using ord unfolding base_order_def
  proof (elim disjE conjE)
    assume "r = 0" "sw_inputs w = [i, d]"
    then show ?thesis using shape by (simp add: simps conj_commute)
  next
    assume "r = 1" "sw_inputs w = [d, i]"
    then show ?thesis using shape by (simp add: simps conj_commute)
  qed
  show "spend_statement B w ((public_inputs B w anchor)\<lparr>pi_anchor := (pi_anchor (public_inputs B w anchor))\<lparr>anc_root := root\<rparr>\<rparr>)
      \<longleftrightarrow> anc_root anchor = root"
    using shape by (auto simp: simps)
  show "spend_statement B (w\<lparr>sw_spender_addr_tag := tag\<rparr>) (public_inputs B w anchor) \<longleftrightarrow> sw_spender_addr_tag w = tag"
    using shape by (auto simp: simps)
  show "spend_statement B (update_output 0 (\<lambda>out. out\<lparr>note_rho := x\<rparr>) w)
        (public_inputs B (update_output 0 (\<lambda>out. out\<lparr>note_rho := x\<rparr>) w) anchor) \<longleftrightarrow> note_rho o0 = x"
    using shape by (auto simp: simps)
qed

text \<open>The battery as a whole.\<close>

lemma all_caught_iff:
  assumes "digest32 B"
  shows "all_caught B = Some (\<not> hash_coincidence B)"
proof -
  obtain w anchor i d o0 o1 where base: "baseline B = Some (w, public_inputs B w anchor, anchor)"
    and shape: "base_shape B w anchor i d o0 o1" using baseline_shape by blast
  obtain r q where ord: "base_order w i d r q" and pos: "position_of (\<lambda>i. \<not> iw_is_dummy i) (sw_inputs w) = Some r"
      "position_of iw_is_dummy (sw_inputs w) = Some q" using base_positions [OF shape] by blast
  note rej = base_rejects [OF shape assms ord] and coin = base_coincidences [OF shape ord]
  have ok: "check_spend_statement B w (public_inputs B w anchor) = Inr ()"
    using base_valid [OF shape] by (simp add: check_spend_statement_Inr_iff)
  have out: "add_or_panic (note_value (sw_outputs w ! 0)) 1 = Some 71" "note_rho (sw_outputs w ! 0) = note_rho o0"
    using shape by (simp_all add: base_shape_def add_or_panic_def)
  have "hash_coincidence B \<longleftrightarrow>
      verify_path B (commitment B (iw_note i)) (corrupted (iw_path i)) (anc_root anchor) \<or> anc_root anchor = replicate 32 0xAB
      \<or> sw_spender_addr_tag w = addr_tag B (sk_from_seed B (replicate 32 99)) \<or> note_rho o0 = replicate 32 0x42"
    using shape unfolding hash_coincidence_def base by (auto simp: base_shape_def)
  then show ?thesis
    by (simp add: all_caught_def run_knockouts_def ko_base_def ko_c1_path_def ko_c1_anchor_def ko_c2_def ko_c3_def ko_c4_def
        ko_c6_input_def ko_c6_output_def ko_c5_commitment_def ko_c5_rho_def ko_c7_def ko_c8_def ko_c0_def base pos ok out Let_def
        expect_reject_passed rej rej(8) [unfolded One_nat_def] coin corrupted_def [symmetric])
qed

section \<open>Properties\<close>

text \<open>C29. The mutation battery is exact.  It never panics, the unmutated spend passes, and each of the twelve
  violations of a constraint is rejected, so \<^verbatim>\<open>all_caught\<close> is true, unless the hash function itself
  coincides: the corrupted path still leads to the root, the root is the forged
  one, two owners share a tag, or the output nonce is the planted one.  In
  those four cases, and only then, it is false.\<close>

theorem all_caught_exact:
  assumes "digest32 B"
  shows "all_caught B = Some (\<not> hash_coincidence B)"
  using assms by (rule all_caught_iff)

lemma all_caught_exact_witness: "all_caught zero_hash = Some False"
proof -
  obtain w anchor i d o0 o1 where base: "baseline zero_hash = Some (w, public_inputs zero_hash w anchor, anchor)"
    and shape: "base_shape zero_hash w anchor i d o0 o1" using baseline_shape by blast
  have "sw_spender_addr_tag w = addr_tag zero_hash (sk_from_seed zero_hash (replicate 32 99))"
    using shape by (simp add: base_shape_def addr_tag_def)
  then have "hash_coincidence zero_hash" unfolding hash_coincidence_def using base by blast
  then show ?thesis using all_caught_exact [of zero_hash] by simp
qed

end
