(* ===== verification/Consensus.thy ===== *)
theory Consensus
  imports Ledger
begin

text \<open>
  \<^verbatim>\<open>crates/consensus\<close>: the commit order of a round and a cluster of replicas.  The ordered map
  \<^verbatim>\<open>BTreeMap\<close> is a strictly sorted association list; \<^verbatim>\<open>entry(k).or_insert_with(v)\<close> is
  \<open>or_insert\<close>, which keeps an entry that is already there.  A panic of any replica, and the
  index \<^verbatim>\<open>summaries[0]\<close> of an empty cluster, make the round's result \<open>None\<close>.
\<close>

section \<open>The commit order\<close>

fun or_insert :: "'k::linorder \<Rightarrow> 'v \<Rightarrow> ('k \<times> 'v) list \<Rightarrow> ('k \<times> 'v) list" where
  "or_insert k v [] = [(k, v)]"
| "or_insert k v ((k', v') # m) =
     (if k < k' then (k, v) # (k', v') # m
      else if k = k' then (k', v') # m
      else (k', v') # or_insert k v m)"

definition commit_order :: "blake3 \<Rightarrow> TxV1 list \<Rightarrow> TxV1 list" where
  "commit_order B submitted =
     map snd (fold (\<lambda>tx seen. or_insert (binding_digest B tx) tx seen) submitted [])"

section \<open>The cluster\<close>

record RoundOutcome =
  ro_height :: u64
  ro_root :: bytes
  ro_accepted :: nat
  ro_rejected :: "(nat \<times> RejectReason) list"
  ro_total_supply :: u64
  ro_agreed :: bool

record Cluster =
  cl_replicas :: "Ledger list"
  cl_genesis_supply :: u64

definition cluster_new ::
  "blake3 \<Rightarrow> nat \<Rightarrow> EmissionParams \<Rightarrow> ValidatorInfo list \<Rightarrow> u32 \<Rightarrow> (Commitment \<times> u64) list \<Rightarrow> Cluster option" where
  "cluster_new B n emission validators difficulty_bits genesis_notes =
     do { supply \<leftarrow> sum_or_panic (map snd genesis_notes);
          replicas \<leftarrow> those (replicate n (genesis B emission validators difficulty_bits genesis_notes));
          Some \<lparr>cl_replicas = replicas, cl_genesis_supply = supply\<rparr> }"

definition cluster_genesis_supply :: "Cluster \<Rightarrow> u64" where
  "cluster_genesis_supply cl = cl_genesis_supply cl"

definition cl_anchor :: "blake3 \<Rightarrow> Cluster \<Rightarrow> Anchor option" where
  "cl_anchor B cl = do { r \<leftarrow> index_or_panic (cl_replicas cl) 0; Some (current_anchor B r) }"

definition cl_tree_witness :: "blake3 \<Rightarrow> Cluster \<Rightarrow> u64 \<Rightarrow> MerklePath option option" where
  "cl_tree_witness B cl pos = do { r \<leftarrow> index_or_panic (cl_replicas cl) 0; Some (tree_witness B r pos) }"

text \<open>The agreement check of a round: anchor root, accept count, supply and height.\<close>

definition summaries_agree :: "CheckpointSummary \<Rightarrow> CheckpointSummary \<Rightarrow> bool" where
  "summaries_agree first s \<longleftrightarrow>
     anc_root (cs_anchor s) = anc_root (cs_anchor first) \<and> cs_accepted s = cs_accepted first
     \<and> cs_total_supply s = cs_total_supply first \<and> cs_height s = cs_height first"

definition commit_round ::
  "blake3 \<Rightarrow> Cluster \<Rightarrow> TxV1 list \<Rightarrow> SpendVerifier \<Rightarrow> (Cluster \<times> RoundOutcome) option" where
  "commit_round B cl submitted V =
     do { let ordered = commit_order B submitted;
          rs \<leftarrow> those (map (\<lambda>r. apply_checkpoint B r ordered V) (cl_replicas cl));
          let summaries = map snd rs;
          first \<leftarrow> index_or_panic summaries 0;
          Some (cl\<lparr>cl_replicas := map fst rs\<rparr>,
                \<lparr>ro_height = cs_height first, ro_root = anc_root (cs_anchor first),
                 ro_accepted = cs_accepted first, ro_rejected = cs_rejected first,
                 ro_total_supply = cs_total_supply first,
                 ro_agreed = list_all (summaries_agree first) summaries\<rparr>) }"

text \<open>\<^verbatim>\<open>iter().all(..)\<close> stops at the first replica whose audit is false.\<close>

fun audit_replicas :: "u64 \<Rightarrow> Ledger list \<Rightarrow> bool option" where
  "audit_replicas g [] = Some True"
| "audit_replicas g (r # rs) = do { ok \<leftarrow> audit_supply r g; if ok then audit_replicas g rs else Some False }"

definition cl_audit :: "Cluster \<Rightarrow> bool option" where
  "cl_audit cl = audit_replicas (cl_genesis_supply cl) (cl_replicas cl)"

section \<open>The interface of an ordered map\<close>

text \<open>
  What the commit rule relies on: insertion keeps the entries strictly sorted by key, and a
  look-up after it finds the old value of a key that was there and the new one otherwise.  The
  client lemmas say that the values of the map, in order, are determined by the first value
  offered for each key.
\<close>

locale ordered_map =
  fixes ins :: "'k::linorder \<Rightarrow> 'v \<Rightarrow> ('k \<times> 'v) list \<Rightarrow> ('k \<times> 'v) list"
  assumes ins_sorted: "sorted_wrt (<) (map fst m) \<Longrightarrow> sorted_wrt (<) (map fst (ins k v m))"
    and ins_lookup: "sorted_wrt (<) (map fst m) \<Longrightarrow>
      map_of (ins k v m) = (case map_of m k of None \<Rightarrow> (map_of m)(k \<mapsto> v) | Some _ \<Rightarrow> map_of m)"
begin

lemma fold_sorted:
  assumes "sorted_wrt (<) (map fst m)"
  shows "sorted_wrt (<) (map fst (fold (\<lambda>x. ins (key x) x) xs m))"
  using assms by (induction xs arbitrary: m) (simp_all add: ins_sorted)

lemma fold_lookup:
  assumes "sorted_wrt (<) (map fst m)"
  shows "map_of (fold (\<lambda>x. ins (key x) x) xs m) k
    = (case map_of m k of Some v \<Rightarrow> Some v | None \<Rightarrow> List.find (\<lambda>x. key x = k) xs)"
  using assms
proof (induction xs arbitrary: m)
  case (Cons x xs)
  have "sorted_wrt (<) (map fst (ins (key x) x m))" using Cons.prems by (rule ins_sorted)
  from Cons.IH [OF this] show ?case
    by (simp add: ins_lookup [OF Cons.prems] split: option.splits)
qed (simp split: option.split)

lemma fold_cong:
  assumes "\<And>k. List.find (\<lambda>x. key x = k) xs = List.find (\<lambda>x. key x = k) ys"
  shows "fold (\<lambda>x. ins (key x) x) xs [] = fold (\<lambda>x. ins (key x) x) ys []"
  using assms by (intro sorted_alist_ext fold_sorted ext) (simp_all add: fold_lookup)

end

lemma map_of_or_insert:
  "sorted_wrt (<) (map fst m) \<Longrightarrow>
   map_of (or_insert k v m) = (case map_of m k of None \<Rightarrow> (map_of m)(k \<mapsto> v) | Some _ \<Rightarrow> map_of m)"
proof (induction m)
  case (Cons p m)
  obtain k' v' where p: "p = (k', v')" by fastforce
  have "map_of m k = None" if "k < k'"
    using Cons.prems that by (fastforce simp: p map_of_eq_None_iff)
  with Cons show ?case by (auto simp: p fun_eq_iff split: option.splits)
qed (simp add: fun_eq_iff)

lemma set_fst_or_insert: "fst ` set (or_insert k v m) = insert k (fst ` set m)"
  by (induction k v m rule: or_insert.induct) auto

interpretation btree: ordered_map "or_insert :: 'k::linorder \<Rightarrow> 'v \<Rightarrow> ('k \<times> 'v) list \<Rightarrow> ('k \<times> 'v) list"
proof
  fix m :: "('k \<times> 'v) list" and k v
  show "sorted_wrt (<) (map fst m) \<Longrightarrow> sorted_wrt (<) (map fst (or_insert k v m))"
  proof (induction k v m rule: or_insert.induct)
    case (2 k v k' v' m)
    have "set (map fst (or_insert k v m)) = insert k (set (map fst m))" using set_fst_or_insert [of k v m] by simp
    with 2 show ?case by (fastforce simp del: set_map)
  qed simp
qed (rule map_of_or_insert)

section \<open>Facts on the commit order\<close>

abbreviation commit_map :: "blake3 \<Rightarrow> TxV1 list \<Rightarrow> (bytes \<times> TxV1) list" where
  "commit_map B submitted \<equiv> fold (\<lambda>tx. or_insert (binding_digest B tx) tx) submitted []"

lemma commit_map_lookup: "map_of (commit_map B submitted) d = List.find (\<lambda>tx. binding_digest B tx = d) submitted"
  by (simp add: btree.fold_lookup)

lemma commit_map_sorted: "sorted_wrt (<) (map fst (commit_map B submitted))"
  by (simp add: btree.fold_sorted)

lemma find_cases: "List.find Q xs = None \<longleftrightarrow> (\<forall>x \<in> set xs. \<not> Q x)" "List.find Q xs = Some x \<Longrightarrow> Q x \<and> x \<in> set xs"
  by (auto simp: find_None_iff find_Some_iff)

lemma dom_commit_map: "dom (map_of (commit_map B submitted)) = binding_digest B ` set submitted"
proof (rule set_eqI)
  fix d
  have "d \<in> dom (map_of (commit_map B submitted)) \<longleftrightarrow> \<not> (\<forall>tx \<in> set submitted. binding_digest B tx \<noteq> d)"
    by (simp only: domIff commit_map_lookup find_cases(1))
  then show "d \<in> dom (map_of (commit_map B submitted)) \<longleftrightarrow> d \<in> binding_digest B ` set submitted" by blast
qed

lemma commit_order_first:
  assumes "tx \<in> set (commit_order B submitted)"
  shows "List.find (\<lambda>t. binding_digest B t = binding_digest B tx) submitted = Some tx"
proof -
  from assms have "tx \<in> snd ` set (commit_map B submitted)" by (simp only: commit_order_def set_map)
  then obtain d where "(d, tx) \<in> set (commit_map B submitted)" by fastforce
  moreover have "distinct (map fst (commit_map B submitted))"
    using commit_map_sorted [of B submitted] by (simp add: strict_sorted_iff)
  ultimately have "map_of (commit_map B submitted) d = Some tx" by simp
  then have f: "List.find (\<lambda>t. binding_digest B t = d) submitted = Some tx" by (simp only: commit_map_lookup)
  with find_cases(2) [OF f] show ?thesis by simp
qed

lemma set_commit_order: "set (commit_order B submitted) \<subseteq> set submitted"
  using find_cases(2) [OF commit_order_first] by blast

text \<open>The specification of the commit rule: the submitted digests in ascending order, each with the first
  transaction submitted under it.\<close>

definition reference_order :: "blake3 \<Rightarrow> TxV1 list \<Rightarrow> TxV1 list" where
  "reference_order B submitted = map (\<lambda>d. the (List.find (\<lambda>tx. binding_digest B tx = d) submitted))
     (sorted_list_of_set (binding_digest B ` set submitted))"

lemma commit_order_reference: "commit_order B submitted = reference_order B submitted"
proof -
  have "commit_map B submitted = map (\<lambda>d. (d, the (map_of (commit_map B submitted) d)))
      (sorted_list_of_set (dom (map_of (commit_map B submitted))))"
    by (rule sorted_alist_eq [OF commit_map_sorted])
  then have "map snd (commit_map B submitted)
      = map snd (map (\<lambda>d. (d, the (map_of (commit_map B submitted) d))) (sorted_list_of_set (dom (map_of (commit_map B submitted)))))"
    by (rule arg_cong)
  then show ?thesis by (simp only: reference_order_def commit_order_def dom_commit_map commit_map_lookup map_map comp_def snd_conv)
qed

section \<open>Replicated execution\<close>

text \<open>A run of a cluster of \<open>n\<close> replicas: its outcomes so far, oldest first.\<close>

inductive cluster_run ::
  "blake3 \<Rightarrow> SpendVerifier \<Rightarrow> (Commitment \<times> u64) list \<Rightarrow> nat \<Rightarrow> Cluster \<Rightarrow> RoundOutcome list \<Rightarrow> bool"
  for B V gs n where
  run_new: "cluster_new B n emission validators difficulty_bits gs = Some cl \<Longrightarrow> cluster_run B V gs n cl []"
| run_round: "cluster_run B V gs n cl outs \<Longrightarrow> \<forall>tx \<in> set submitted. wf_tx_body tx
    \<Longrightarrow> commit_round B cl submitted V = Some (cl', out) \<Longrightarrow> cluster_run B V gs n cl' (outs @ [out])"

inductive_cases cluster_runE: "cluster_run B V gs n cl outs"

lemma those_replicate: "those (replicate n x) = Some ys \<Longrightarrow> 0 < n \<Longrightarrow> \<exists>y. x = Some y \<and> ys = replicate n y"
proof (induction n arbitrary: ys)
  case (Suc n)
  then obtain y zs where "x = Some y" "those (replicate n x) = Some zs" "ys = y # zs" by (auto split: option.splits)
  with Suc.IH [of zs] show ?case by (cases n) auto
qed simp

text \<open>One round of identical replicas: they stay identical, and the outcome reports one of them.\<close>

lemma commit_round_lockstep:
  assumes "commit_round B cl submitted V = Some (cl', out)" and "cl_replicas cl = replicate n L" and "0 < n"
  shows "\<exists>L' S. apply_checkpoint B L (commit_order B submitted) V = Some (L', S)
    \<and> cl' = cl\<lparr>cl_replicas := replicate n L'\<rparr> \<and> ro_agreed out
    \<and> ro_height out = cs_height S \<and> ro_root out = anc_root (cs_anchor S) \<and> ro_rejected out = cs_rejected S"
proof -
  obtain rs first where rs: "those (map (\<lambda>r. apply_checkpoint B r (commit_order B submitted) V) (cl_replicas cl)) = Some rs"
    and first: "index_or_panic (map snd rs) 0 = Some first"
    and cl': "cl' = cl\<lparr>cl_replicas := map fst rs\<rparr>"
    and out: "out = \<lparr>ro_height = cs_height first, ro_root = anc_root (cs_anchor first),
                 ro_accepted = cs_accepted first, ro_rejected = cs_rejected first,
                 ro_total_supply = cs_total_supply first,
                 ro_agreed = list_all (summaries_agree first) (map snd rs)\<rparr>"
    using assms(1) by (auto simp: commit_round_def Let_def bind_eq_Some_conv)
  obtain L' S where step: "apply_checkpoint B L (commit_order B submitted) V = Some (L', S)" "rs = replicate n (L', S)"
    using ledger_machine.lockstep [OF assms(3) rs[unfolded assms(2)]] by blast
  have "first = S" using first step(2) assms(3) by (auto simp: index_or_panic_def split: if_splits)
  then show ?thesis using step cl' out by (simp add: list_all_iff summaries_agree_def)
qed

lemma cluster_run_lockstep:
  assumes "cluster_run B V gs n cl outs" and "0 < n"
  shows "(\<exists>L hist. cl_replicas cl = replicate n L \<and> chain B V gs L hist) \<and> list_all ro_agreed outs
    \<and> unat (cl_genesis_supply cl) = sum_list (map (\<lambda>g. unat (snd g)) gs)"
  using assms
proof (induction rule: cluster_run.induct)
  case (run_new emission validators difficulty_bits cl)
  then obtain rs where rs: "those (replicate n (genesis B emission validators difficulty_bits gs)) = Some rs"
      "sum_or_panic (map snd gs) = Some (cl_genesis_supply cl)" "cl_replicas cl = rs"
    by (auto simp: cluster_new_def bind_eq_Some_conv)
  from those_replicate [OF rs(1) run_new(2)] obtain L where "genesis B emission validators difficulty_bits gs = Some L"
      "rs = replicate n L" by blast
  then have "cl_replicas cl = replicate n L \<and> chain B V gs L []" using rs(3) by (simp add: chain_genesis)
  with rs(2) show ?case by (auto simp: sum_or_panic_Some_iff comp_def)
next
  case (run_round cl outs submitted cl' out)
  then obtain L hist where L: "cl_replicas cl = replicate n L" "chain B V gs L hist" by blast
  obtain L' S where step: "apply_checkpoint B L (commit_order B submitted) V = Some (L', S)"
      "cl' = cl\<lparr>cl_replicas := replicate n L'\<rparr>" "ro_agreed out"
    using commit_round_lockstep [OF run_round(3) L(1) run_round.prems] by blast
  have "chain B V gs L' (hist @ accepted_by (commit_order B submitted) S)"
    using set_commit_order run_round(2) by (intro chain_step [OF L(2) _ step(1)]) blast
  with step(2,3) run_round.IH [OF run_round.prems] show ?case by auto
qed

lemma audit_replicas_replicate: "audit_supply L g = Some True \<Longrightarrow> audit_replicas g (replicate n L) = Some True"
  by (induction n) auto

section \<open>Inclusion\<close>

text \<open>The rule cannot pass over an admissible proof-of-work transaction that conflicts with no other.\<close>

lemma judge_includes:
  assumes "judge a s e spent txs vs" and "tx \<in> set txs" and "a (tx_anchor tx)" and "s tx"
    and "tx_antispam tx = LanePow sol" and "set (tx_nullifiers tx) \<inter> spent = {}"
    and "\<forall>t \<in> set txs. t \<noteq> tx \<longrightarrow> set (tx_nullifiers t) \<inter> set (tx_nullifiers tx) = {}"
  shows "tx \<in> set (accepted_txs vs txs)"
  using assms
proof (induction rule: judge.induct)
  case (judge_accept t spent txs vs)
  show ?case
  proof (cases "t = tx")
    case False
    then have "set (tx_nullifiers tx) \<inter> (spent \<union> set (tx_nullifiers t)) = {}" using judge_accept.prems(5,6) by auto
    then show ?thesis using False judge_accept.IH judge_accept.prems by simp
  qed simp
next
  case (judge_stale t txs vs spent)
  then show ?case by (cases "t = tx") simp_all
next
  case (judge_invalid t txs vs spent)
  then show ?case by (cases "t = tx") simp_all
next
  case (judge_double t spent txs vs)
  then show ?case by (cases "t = tx") simp_all
next
  case (judge_quota t spent rp txs vs)
  then show ?case by (cases "t = tx") simp_all
qed simp

lemma in_commit_order:
  assumes "tx \<in> set submitted" and "\<forall>t \<in> set submitted. t \<noteq> tx \<longrightarrow> binding_digest B t \<noteq> binding_digest B tx"
  shows "tx \<in> set (commit_order B submitted)"
proof -
  obtain y where y: "List.find (\<lambda>t. binding_digest B t = binding_digest B tx) submitted = Some y"
    using find_cases(1) [of "\<lambda>t. binding_digest B t = binding_digest B tx" submitted] assms(1) by blast
  then have "y = tx" using find_cases(2) [OF y] assms(2) by blast
  then have "map_of (commit_map B submitted) (binding_digest B tx) = Some tx" using y by (simp only: commit_map_lookup)
  then have "(binding_digest B tx, tx) \<in> set (commit_map B submitted)" by (rule map_of_SomeD)
  then show ?thesis unfolding commit_order_def set_map by force
qed

lemma those_replicate_Some: "those (replicate n (Some y)) = Some (replicate n y)"
  by (induction n) simp_all

lemma commit_round_runs:
  assumes "cl_replicas cl = replicate n L" and "0 < n" and "apply_checkpoint B L (commit_order B submitted) V = Some (L', S)"
  shows "\<exists>cl' out. commit_round B cl submitted V = Some (cl', out)"
  using assms by (simp add: commit_round_def those_replicate_Some index_or_panic_def Let_def)

section \<open>The cluster as one node\<close>

text \<open>The rounds of a cluster, one after the other.\<close>

fun run_rounds :: "blake3 \<Rightarrow> SpendVerifier \<Rightarrow> Cluster \<Rightarrow> TxV1 list list \<Rightarrow> (Cluster \<times> RoundOutcome list) option" where
  "run_rounds B V cl [] = Some (cl, [])"
| "run_rounds B V cl (submitted # rounds) =
     do { (cl, out) \<leftarrow> commit_round B cl submitted V;
          (cl, outs) \<leftarrow> run_rounds B V cl rounds;
          Some (cl, out # outs) }"

text \<open>
  The specification: a single node that executes the reference order of each round on its one ledger.  What
  the cluster has to report of a round is the node's summary, with the replicas in agreement.
\<close>

fun solo_rounds :: "blake3 \<Rightarrow> SpendVerifier \<Rightarrow> Ledger \<Rightarrow> TxV1 list list \<Rightarrow> (Ledger \<times> CheckpointSummary list) option" where
  "solo_rounds B V L [] = Some (L, [])"
| "solo_rounds B V L (submitted # rounds) =
     do { (L, S) \<leftarrow> apply_checkpoint B L (reference_order B submitted) V;
          (L, Ss) \<leftarrow> solo_rounds B V L rounds;
          Some (L, S # Ss) }"

definition agreed_outcome :: "CheckpointSummary \<Rightarrow> RoundOutcome" where
  "agreed_outcome S = \<lparr>ro_height = cs_height S, ro_root = anc_root (cs_anchor S), ro_accepted = cs_accepted S,
     ro_rejected = cs_rejected S, ro_total_supply = cs_total_supply S, ro_agreed = True\<rparr>"

text \<open>The two runs in correspondence: \<open>n\<close> copies of the node's ledger, and its summaries as outcomes.\<close>

definition replicated :: "nat \<Rightarrow> Cluster \<Rightarrow> (Ledger \<times> CheckpointSummary list) option \<Rightarrow> (Cluster \<times> RoundOutcome list) option" where
  "replicated n cl r = map_option (\<lambda>(L, Ss). (cl\<lparr>cl_replicas := replicate n L\<rparr>, map agreed_outcome Ss)) r"

lemma those_replicate_None: "0 < n \<Longrightarrow> those (replicate n None) = None"
  by (cases n) simp_all

lemma commit_round_replicated:
  assumes "cl_replicas cl = replicate n L" and "0 < n"
  shows "commit_round B cl submitted V = map_option (\<lambda>(L', S). (cl\<lparr>cl_replicas := replicate n L'\<rparr>, agreed_outcome S))
    (apply_checkpoint B L (reference_order B submitted) V)"
proof (cases "apply_checkpoint B L (reference_order B submitted) V")
  case None
  then show ?thesis using assms by (simp add: commit_round_def commit_order_reference those_replicate_None Let_def)
next
  case (Some r)
  then show ?thesis
    using assms
    by (cases r) (simp add: commit_round_def commit_order_reference those_replicate_Some index_or_panic_def Let_def
        list_all_iff summaries_agree_def agreed_outcome_def)
qed

lemma run_rounds_replicated:
  assumes "cl_replicas cl = replicate n L" and "0 < n"
  shows "run_rounds B V cl rounds = replicated n cl (solo_rounds B V L rounds)"
  using assms
proof (induction rounds arbitrary: cl L)
  case (Cons submitted rounds)
  show ?case
  proof (cases "apply_checkpoint B L (reference_order B submitted) V")
    case (Some r)
    obtain L' S where r: "r = (L', S)" by fastforce
    have "run_rounds B V (cl\<lparr>cl_replicas := replicate n L'\<rparr>) rounds = replicated n cl (solo_rounds B V L' rounds)"
      using Cons.IH [of "cl\<lparr>cl_replicas := replicate n L'\<rparr>" L'] Cons.prems(2) by (simp add: replicated_def)
    then show ?thesis
      by (cases "solo_rounds B V L' rounds") (auto simp: commit_round_replicated [OF Cons.prems] Some r replicated_def)
  qed (simp add: commit_round_replicated [OF Cons.prems] replicated_def)
qed (simp add: replicated_def)

lemma cluster_new_replicas:
  assumes "cluster_new B n emission validators difficulty_bits gs = Some cl" and "0 < n"
  shows "\<exists>L. genesis B emission validators difficulty_bits gs = Some L \<and> cl_replicas cl = replicate n L"
proof -
  obtain rs where "those (replicate n (genesis B emission validators difficulty_bits gs)) = Some rs" "cl_replicas cl = rs"
    using assms(1) by (auto simp: cluster_new_def bind_eq_Some_conv)
  then show ?thesis using those_replicate assms(2) by blast
qed

section \<open>Properties\<close>

text \<open>C26. The commit order is a reference linearization: it lists, in ascending order of binding
  digest, each digest that was submitted exactly once, with the first transaction submitted under
  it.\<close>

theorem commit_order_is_reference_order:
  "commit_order B submitted = map (\<lambda>d. the (List.find (\<lambda>tx. binding_digest B tx = d) submitted))
     (sorted_list_of_set (binding_digest B ` set submitted))"
  using commit_order_reference unfolding reference_order_def .

text \<open>The committed order does not depend on the order or multiplicity of submission, as long as
  no two different submitted transactions share a binding digest.\<close>

theorem commit_order_submission_independent:
  assumes "set xs = set ys" and "inj_on (binding_digest B) (set xs)"
  shows "commit_order B xs = commit_order B ys"
proof -
  have "List.find (\<lambda>tx. binding_digest B tx = d) xs = List.find (\<lambda>tx. binding_digest B tx = d) ys" for d
  proof (cases "List.find (\<lambda>tx. binding_digest B tx = d) xs")
    case None
    then have "List.find (\<lambda>tx. binding_digest B tx = d) ys = None" unfolding find_cases(1) using assms(1) by blast
    with None show ?thesis by simp
  next
    case (Some x)
    have x: "binding_digest B x = d" "x \<in> set xs" using find_cases(2) [OF Some] by blast+
    then have "List.find (\<lambda>tx. binding_digest B tx = d) ys \<noteq> None" unfolding find_cases(1) using assms(1) by blast
    then obtain y where y: "List.find (\<lambda>tx. binding_digest B tx = d) ys = Some y" by blast
    have "binding_digest B y = d" "y \<in> set xs" using find_cases(2) [OF y] assms(1) by blast+
    then have "x = y" using x assms(2) by (simp add: inj_on_def)
    with Some y show ?thesis by simp
  qed
  then have "commit_map B xs = commit_map B ys" by (rule btree.fold_cong)
  then show ?thesis by (simp only: commit_order_def)
qed

lemma commit_order_submission_independent_witness:
  "commit_order zero_hash [sample_tx, sample_tx] = commit_order zero_hash [sample_tx]"
  by (rule commit_order_submission_independent) simp_all

text \<open>The binding digest leaves out proof and anti-spam artefact, so a copy of a transaction
  with either replaced, submitted first, takes its place: whatever else is submitted, the original
  is not in the committed order, and the two submission orders commit different transactions.\<close>

theorem commit_order_displaced_by_copy:
  assumes "bad = tx\<lparr>tx_proof := p, tx_antispam := a\<rparr>" and "bad \<noteq> tx"
  shows "tx \<notin> set (commit_order B (bad # txs)) \<and> commit_order B [tx, bad] \<noteq> commit_order B [bad, tx]"
proof -
  have d: "binding_digest B bad = binding_digest B tx" using assms(1) by (simp add: binding_digest_def binding_parts_def)
  have "tx \<notin> set (commit_order B (bad # txs))"
    using commit_order_first [of tx B "bad # txs"] d assms(2) by auto
  moreover have "commit_order B [tx, bad] = [tx]" "commit_order B [bad, tx] = [bad]"
    using d by (simp_all add: commit_order_def)
  ultimately show ?thesis using assms(2) by simp
qed

lemma commit_order_displaced_by_copy_witness:
  "sample_tx \<notin> set (commit_order zero_hash (sample_tx\<lparr>tx_proof := [], tx_antispam := LanePow \<lparr>pow_nonce = 7\<rparr>\<rparr> # [sample_tx]))"
  using commit_order_displaced_by_copy
    [where tx = sample_tx and p = "[]" and a = "LanePow \<lparr>pow_nonce = 7\<rparr>" and B = zero_hash and txs = "[sample_tx]", OF refl]
  by (simp add: sample_tx_def)

text \<open>Two submission schedules with the same transactions in each round, in whatever order and multiplicity.\<close>

lemma run_rounds_independent:
  assumes "list_all2 (\<lambda>xs ys. set xs = set ys \<and> inj_on (binding_digest B) (set xs)) rounds rounds'"
  shows "run_rounds B V cl rounds' = run_rounds B V cl rounds"
  using assms
proof (induction arbitrary: cl rule: list_all2_induct)
  case (Cons xs rounds ys rounds')
  have "commit_order B xs = commit_order B ys"
    using Cons.hyps(1) by (intro commit_order_submission_independent) blast+
  then have "commit_round B cl ys V = commit_round B cl xs V" unfolding commit_round_def by (simp only:)
  then show ?case using Cons.IH by (simp add: case_prod_unfold)
qed simp

text \<open>C10. A cluster is one node.  From its construction on, and for any rounds of submissions, a nonempty cluster does exactly
  what a single node does that executes the reference order of each round on one ledger: all replicas end
  in that node's ledger, the outcomes are its summaries, each reporting agreement, and the cluster panics exactly when the node does.
  If in each round no two different submissions share a digest, neither the order nor the multiplicity of
  submission matters.\<close>

theorem cluster_runs_as_one_node:
  assumes "cluster_new B n emission validators difficulty_bits gs = Some cl" and "0 < n"
  shows "\<exists>L. genesis B emission validators difficulty_bits gs = Some L
    \<and> run_rounds B V cl rounds = replicated n cl (solo_rounds B V L rounds)
    \<and> (\<forall>rounds'. list_all2 (\<lambda>xs ys. set xs = set ys \<and> inj_on (binding_digest B) (set xs)) rounds rounds'
         \<longrightarrow> run_rounds B V cl rounds' = run_rounds B V cl rounds)"
proof -
  obtain L where L: "genesis B emission validators difficulty_bits gs = Some L" "cl_replicas cl = replicate n L"
    using cluster_new_replicas [OF assms] by blast
  then show ?thesis using run_rounds_replicated [OF L(2) assms(2)] run_rounds_independent by (intro exI [of _ L]) blast
qed

definition sample_cluster :: Cluster where
  "sample_cluster = \<lparr>cl_replicas = replicate 4 sample_ledger, cl_genesis_supply = 5000\<rparr>"

lemma sample_cluster_new:
  "cluster_new zero_hash 4 sample_emission [\<lparr>vi_weight = 1, vi_addr_tag = replicate 32 200\<rparr>] 0 sample_notes = Some sample_cluster"
proof -
  have "replicate 4 x = [x, x, x, x]" for x :: 'a by (simp add: numeral_eq_Suc)
  then show ?thesis
    using sample_genesis by (simp add: cluster_new_def sample_cluster_def sample_notes_def sum_or_panic_def add_or_panic_def those_replicate_Some)
qed

text \<open>Four replicas, one round with a transaction that was submitted twice.\<close>

lemma cluster_runs_as_one_node_witness:
  "\<exists>L S. solo_rounds zero_hash (dev_verify zero_hash) sample_ledger [[sample_ledger_tx]] = Some (L, [S]) \<and> cs_accepted S = 1
     \<and> run_rounds zero_hash (dev_verify zero_hash) sample_cluster [[sample_ledger_tx, sample_ledger_tx]]
       = Some (sample_cluster\<lparr>cl_replicas := replicate 4 L\<rparr>, [agreed_outcome S])"
proof -
  let ?V = "dev_verify zero_hash" and ?t = sample_ledger_tx
  have four: "0 < (4 :: nat)" by simp
  obtain L S where step: "apply_checkpoint zero_hash sample_ledger [?t] ?V = Some (L, S)" "accepted_by [?t] S = [?t]"
    by (rule sample_step)
  have acc: "cs_accepted S = 1" using accepted_count [OF step(1) sample_ledger_inv] step(2) by simp
  have "reference_order zero_hash [?t] = [?t]" by (simp add: reference_order_def)
  then have solo: "solo_rounds zero_hash ?V sample_ledger [[?t]] = Some (L, [S])" using step(1) by simp
  have same: "list_all2 (\<lambda>xs ys. set xs = set ys \<and> inj_on (binding_digest zero_hash) (set xs)) [[?t]] [[?t, ?t]]" by simp
  obtain M where M: "genesis zero_hash sample_emission [\<lparr>vi_weight = 1, vi_addr_tag = replicate 32 200\<rparr>] 0 sample_notes = Some M"
      "run_rounds zero_hash ?V sample_cluster [[?t]] = replicated 4 sample_cluster (solo_rounds zero_hash ?V M [[?t]])"
      "run_rounds zero_hash ?V sample_cluster [[?t, ?t]] = run_rounds zero_hash ?V sample_cluster [[?t]]"
    using cluster_runs_as_one_node [OF sample_cluster_new four, of ?V "[[?t]]"] same by blast
  have "M = sample_ledger" using M(1) sample_genesis by simp
  then show ?thesis using M(2,3) solo acc by (simp add: replicated_def)
qed

text \<open>Replicas agree: in every run of a nonempty cluster all replicas hold the same ledger,
  which is reachable, every round's outcome reports agreement, and the cluster's audit passes on
  all replicas when the validators have weight.\<close>

theorem cluster_replicas_agree:
  assumes "cluster_run B V gs n cl outs" and "0 < n"
  shows "\<exists>L hist. cl_replicas cl = replicate n L \<and> chain B V gs L hist \<and> list_all ro_agreed outs
    \<and> (length (lg_validators L) < 2 ^ 64 \<longrightarrow> 0 < validator_weight L \<longrightarrow> cl_audit cl = Some True)"
proof -
  obtain L hist where L: "cl_replicas cl = replicate n L" "chain B V gs L hist" "list_all ro_agreed outs"
      "unat (cl_genesis_supply cl) = sum_list (map (\<lambda>g. unat (snd g)) gs)"
    using cluster_run_lockstep [OF assms] by blast
  have g: "cl_genesis_supply cl = word_of_nat (sum_list (map (\<lambda>g. unat (snd g)) gs))"
    unfolding L(4) [symmetric] by simp
  have "cl_audit cl = Some True" if "length (lg_validators L) < 2 ^ 64" "0 < validator_weight L"
    using chain_audit [OF L(2) that] by (simp add: cl_audit_def L(1) g audit_replicas_replicate)
  with L show ?thesis by (intro exI [of _ L] exI [of _ hist]) simp
qed

lemma cluster_replicas_agree_witness:
  "\<exists>cl out L hist. cluster_run zero_hash (dev_verify zero_hash) sample_notes 4 cl [out]
     \<and> cl_replicas cl = replicate 4 L \<and> chain zero_hash (dev_verify zero_hash) sample_notes L hist \<and> ro_agreed out"
proof -
  let ?V = "dev_verify zero_hash" and ?vs = "[\<lparr>vi_weight = 1, vi_addr_tag = replicate 32 200\<rparr>]"
  define cl where "cl = \<lparr>cl_replicas = replicate 4 sample_ledger, cl_genesis_supply = 5000\<rparr>"
  have four: "replicate 4 x = [x, x, x, x]" for x :: 'a by (simp add: numeral_eq_Suc)
  have new: "cluster_new zero_hash 4 sample_emission ?vs 0 sample_notes = Some cl"
    using sample_genesis
    by (simp add: cluster_new_def cl_def four sample_notes_def sum_or_panic_def add_or_panic_def)
  have ord: "commit_order zero_hash [sample_ledger_tx] = [sample_ledger_tx]" by (simp add: commit_order_def)
  obtain L S where "apply_checkpoint zero_hash sample_ledger [sample_ledger_tx] ?V = Some (L, S)" using sample_step by blast
  then obtain cl' out where "commit_round zero_hash cl [sample_ledger_tx] ?V = Some (cl', out)"
    by (simp add: commit_round_def ord cl_def four index_or_panic_def)
  then have run: "cluster_run zero_hash ?V sample_notes 4 cl' ([] @ [out])"
    using sample_ledger_tx_ok(2) by (intro run_round [OF run_new [OF new]]) simp_all
  from cluster_replicas_agree [OF run] run show ?thesis by auto
qed

text \<open>C8. Inclusion.  A valid proof-of-work transaction whose anchor is in the window and whose nullifiers are
  fresh, submitted to a cluster with room for one more checkpoint (height, supply, schedule, at most 128
  validators, reduced quota shares, also among the submissions) in a round in which no other submission shares its
  digest or one of its nullifiers, is committed in that round: the round completes on all replicas,
  they agree, and afterwards every replica has its nullifiers and its commitments, whatever
  else was submitted.\<close>

theorem submitted_tx_committed:
  assumes "cluster_run B V gs n cl outs" and "0 < n" and "cl_replicas cl = replicate n L"
    and "unat (lg_height L) + 1 < 2 ^ 64"
    and "em_half_life (lg_emission L) \<noteq> 0" and "em_e_tail (lg_emission L) \<le> em_e0 (lg_emission L)"
    and "length (lg_validators L) \<le> 128" and "unat (lg_supply L) + unat (em_e0 (lg_emission L)) < 2 ^ 64"
    and "quota_reduced (lg_quota L)"
    and "\<forall>t \<in> set submitted. wf_tx_body t \<and> (\<forall>rp. tx_antispam t = LaneQuota rp \<longrightarrow> uint (rp_y rp) < p61)"
    and "tx \<in> set submitted" and "lg_anchor_valid L (tx_anchor tx)"
    and "validate_stateless B tx V (lg_difficulty_bits L) = Inr ()" and "tx_antispam tx = LanePow sol"
    and "\<forall>nf \<in> set (tx_nullifiers tx). \<not> nullifier_seen L nf"
    and "\<forall>t \<in> set submitted. t \<noteq> tx \<longrightarrow> binding_digest B t \<noteq> binding_digest B tx
        \<and> set (tx_nullifiers t) \<inter> set (tx_nullifiers tx) = {}"
  shows "\<exists>cl' out L'. commit_round B cl submitted V = Some (cl', out) \<and> ro_agreed out \<and> cl_replicas cl' = replicate n L'
    \<and> (\<forall>nf \<in> set (tx_nullifiers tx). nullifier_seen L' nf)
    \<and> (\<forall>cm \<in> set (tx_commitments tx). cm_bytes cm \<in> set (ct_leaves (lg_tree L')))"
proof -
  let ?ord = "commit_order B submitted"
  note sub = set_commit_order [of B submitted]
  obtain L1 hist where "cl_replicas cl = replicate n L1" "chain B V gs L1 hist"
    using cluster_run_lockstep [OF assms(1,2)] by blast
  then have inv: "ledger_inv B L" using chain_inv assms(2,3) by auto
  obtain L' S where step: "apply_checkpoint B L ?ord V = Some (L', S)"
    using checkpoint_total [OF assms(4-9), of ?ord B V] assms(10) sub by fastforce
  obtain vs ns where spec: "checkpoint_spec B (stateless_ok B V L) (view L) ?ord vs ns (view L')"
    using checkpoint_refines [OF step inv] by blast
  then have j: "judge (\<lambda>a. a \<in> set (ct_anchors (lg_tree L))) (stateless_ok B V L) (lg_height L' div EPOCH_LENGTH)
      (lg_nullifiers L) ?ord vs" by (simp add: checkpoint_spec_def view_def)
  have "tx \<in> set ?ord" using in_commit_order assms(11,16) by blast
  then have acc: "tx \<in> set (accepted_txs vs ?ord)"
    using assms(12-16) sub
    by (intro judge_includes [OF j, of tx sol]) (auto simp: lg_anchor_valid_def ct_anchor_valid_def list_ex_iff nullifier_seen_def)
  obtain cl' out where round: "commit_round B cl submitted V = Some (cl', out)"
    using commit_round_runs [OF assms(3,2) step] by blast
  then have "cl_replicas cl' = replicate n L'" "ro_agreed out"
    using commit_round_lockstep [OF round assms(3,2)] step by auto
  moreover have "\<forall>nf \<in> set (tx_nullifiers tx). nullifier_seen L' nf"
      "\<forall>cm \<in> set (tx_commitments tx). cm_bytes cm \<in> set (ct_leaves (lg_tree L'))"
    using spec acc by (auto simp: checkpoint_spec_def view_def nullifier_seen_def)
  ultimately show ?thesis using round by blast
qed

lemma submitted_tx_committed_witness:
  "\<exists>cl cl' out L'. commit_round zero_hash cl [sample_ledger_tx] (dev_verify zero_hash) = Some (cl', out)
     \<and> cl_replicas cl' = replicate 4 L' \<and> (\<forall>nf \<in> set (tx_nullifiers sample_ledger_tx). nullifier_seen L' nf)"
proof -
  let ?V = "dev_verify zero_hash" and ?vs = "[\<lparr>vi_weight = 1, vi_addr_tag = replicate 32 200\<rparr>]"
  define cl where "cl = \<lparr>cl_replicas = replicate 4 sample_ledger, cl_genesis_supply = 5000\<rparr>"
  have "replicate 4 x = [x, x, x, x]" for x :: 'a by (simp add: numeral_eq_Suc)
  then have "cluster_new zero_hash 4 sample_emission ?vs 0 sample_notes = Some cl"
    using sample_genesis by (simp add: cluster_new_def cl_def sample_notes_def sum_or_panic_def add_or_panic_def those_replicate_Some)
  from run_new [OF this, of ?V] show ?thesis
    using submitted_tx_committed [of zero_hash ?V sample_notes 4 cl "[]" sample_ledger "[sample_ledger_tx]" sample_ledger_tx "\<lparr>pow_nonce = 0\<rparr>"]
      sample_ledger_tx_ok
    by (auto simp: cl_def sample_ledger_simps sample_emission_def quota_reduced_def qr_new_def lg_anchor_valid_def nullifier_seen_def
        sample_ledger_tx_def sample_tx_def)
qed

end
