(* ===== verification/Testkit.thy ===== *)
theory Testkit
  imports Keys Notes
begin

text \<open>
  \<^verbatim>\<open>crates/testkit\<close>: the golden vectors, as a function of the hash and of the hex codec, and the conformance
  test against their frozen values.  These are outputs of BLAKE3, which is a parameter here: the test is shown to pass for
  exactly the hashes that have them.
\<close>

definition hex_vector :: "crypto_lib \<Rightarrow> string \<Rightarrow> bytes \<Rightarrow> string \<times> string" where
  "hex_vector C label bs = (label, hex_encode C bs)"

definition vectors :: "blake3 \<Rightarrow> crypto_lib \<Rightarrow> (string \<times> string) list" where
  "vectors B C =
     (let sk = sk_from_seed B (replicate 32 1);
          note = \<lparr>note_value = 100, note_addr_tag = addr_tag B sk, note_rho = replicate 32 9, note_rseed = replicate 32 8\<rparr>
      in [hex_vector C ''hash.empty'' (hash_parts B ''unknown.v0.test'' []),
          hex_vector C ''hash.abc'' (hash_parts B ''unknown.v0.test'' [[97], [98], [99]]),
          hex_vector C ''ds.note_cm_x'' (hash_parts B NOTE_COMMITMENT [[120]]),
          hex_vector C ''ds.nullifier_x'' (hash_parts B NULLIFIER [[120]]),
          hex_vector C ''key.ask'' (ask B sk),
          hex_vector C ''key.nk'' (nk B sk),
          hex_vector C ''key.addr_tag'' (addr_tag B sk),
          hex_vector C ''note.commitment'' (cm_bytes (commitment B note)),
          hex_vector C ''note.nullifier'' (nf_bytes (nullifier B note (nk B sk)))])"

text \<open>Each vector has its own label, and with 32-byte digests each value decodes to 32 bytes.\<close>

lemma vectors_labels: "distinct (map fst (vectors B C))"
  by (simp add: vectors_def hex_vector_def Let_def)

lemma vectors_values:
  assumes "digest32 B" and "hex_ok C" and "(label, v) \<in> set (vectors B C)"
  shows "\<exists>bs. hex_decode C v = Some bs \<and> length bs = 32"
  using assms
  by (auto simp: vectors_def hex_vector_def Let_def hex_ok_def ask_def nk_def addr_tag_def commitment_def nullifier_def derive_key_def digest32_def
      hash_parts_def)

text \<open>The generator prints a line for each vector.\<close>

definition gen_main :: "blake3 \<Rightarrow> crypto_lib \<Rightarrow> string list" where
  "gen_main B C = map (\<lambda>(k, hexv). k @ '' = '' @ hexv) (vectors B C)"

section \<open>The conformance test\<close>

definition FROZEN :: "(string \<times> string) list" where
  "FROZEN =
     [(''hash.empty'', ''c2a104be21d0ab76b2c14b77d004f74d15ade7ccbe1e1745f74fedf4b7fa72ac''),
      (''hash.abc'', ''84bbfc9f200bdb08000107218b32a869d30561b53f19f23a477051c46261e8aa''),
      (''ds.note_cm_x'', ''e28ea56198065fff9c1cf8e6597d434141061aa22fd7cd8d8bcc7e7f82559931''),
      (''ds.nullifier_x'', ''a199dcb350592683a0b9d66f2df2ca3cc18dddf357ec85ad6712abdd44e96f71''),
      (''key.ask'', ''391ecb7e34e98d8727b9aa7d8588c356c119a4b806b7c1f420bb7757d444d260''),
      (''key.nk'', ''6f9643ecd6a2c34e22fa290b0c298d601bc8567b50e2931b734160fc2067947d''),
      (''key.addr_tag'', ''246fa87cb761d5f18d4c5aa323b6480d28539dcd68fc16b0a3f603836d9ab4f4''),
      (''note.commitment'', ''0be054fe80a1c15cc4ca91b197ac225d38f6ef19b63f4e99443082751ff5175a''),
      (''note.nullifier'', ''d37e92577fbb9b940488a70c8e40ae7d50f7b0c731fd4ea5bec97ff87c1d2f21'')]"

fun frozen_loop :: "((string \<times> string) \<times> string \<times> string) list \<Rightarrow> unit option" where
  "frozen_loop [] = Some ()"
| "frozen_loop (((label, got), flabel, want) # rest) = do { assert (label = flabel); assert (got = want); frozen_loop rest }"

definition golden_vectors_match_frozen :: "blake3 \<Rightarrow> crypto_lib \<Rightarrow> unit option" where
  "golden_vectors_match_frozen B C =
     do { let computed = vectors B C;
          assert (length computed = length FROZEN);
          frozen_loop (zip computed FROZEN) }"

lemma frozen_loop_iff: "length xs = length ys \<Longrightarrow> frozen_loop (zip xs ys) = Some () \<longleftrightarrow> xs = ys"
proof (induction xs ys rule: list_induct2)
  case (Cons x xs y ys)
  then show ?case by (cases x; cases y) (auto simp: assert_def)
qed simp

text \<open>The labels and the number of the frozen values are the model's own, so the test is about the digests alone.\<close>

lemma golden_vectors_iff: "golden_vectors_match_frozen B C = Some () \<longleftrightarrow> map snd (vectors B C) = map snd FROZEN"
proof -
  have len: "length (vectors B C) = length FROZEN" and labels: "map fst (vectors B C) = map fst FROZEN"
    by (simp_all add: vectors_def hex_vector_def FROZEN_def Let_def)
  have "golden_vectors_match_frozen B C = Some () \<longleftrightarrow> vectors B C = FROZEN"
    using frozen_loop_iff [OF len] by (simp add: golden_vectors_match_frozen_def len Let_def)
  also have "\<dots> \<longleftrightarrow> map snd (vectors B C) = map snd FROZEN" using labels by (metis zip_map_fst_snd)
  finally show ?thesis .
qed

end
