(* ===== verification/Float64.thy ===== *)
theory Float64
  imports Complex_Main Prelude
begin

text \<open>
  The \<^verbatim>\<open>f64\<close> of the Rust language, as far as \<^verbatim>\<open>crates/sim\<close> uses it: IEEE-754 binary64 with
  rounding to nearest, ties to even.  A finite value is the rational number it denotes; every
  operation is the exact rational operation followed by one rounding, which is computed and not
  chosen.  Subnormal results and overflow to infinity are covered; the sign of a zero is not kept
  (no program here produces a negative zero).  The lemmas give what error analysis needs: rounding is
  monotone and is the identity on representable numbers.
\<close>

section \<open>Rounding\<close>

fun nlog2 :: "nat \<Rightarrow> nat" where
  "nlog2 n = (if n \<le> 1 then 0 else Suc (nlog2 (n div 2)))"

declare nlog2.simps [simp del]

text \<open>The binary exponent of a positive rational.\<close>

definition exponent2 :: "rat \<Rightarrow> int" where
  "exponent2 x = (case quotient_of x of (n, d) \<Rightarrow>
     let k = int (nlog2 (nat n)) - int (nlog2 (nat d)) in if 2 powi k \<le> x then k else k - 1)"

definition round_half_even :: "rat \<Rightarrow> int" where
  "round_half_even y =
     (let f = \<lfloor>y\<rfloor>; r = y - of_int f
      in if r < 1 / 2 then f else if r > 1 / 2 then f + 1 else if even f then f else f + 1)"

text \<open>The exponent of the last place: 53 significant bits, and never below \<open>2\<^bsup>-1074\<^esup>\<close>.\<close>

definition last_place :: "rat \<Rightarrow> int" where
  "last_place x = max (exponent2 \<bar>x\<bar> - 52) (- 1074)"

definition round_rat :: "rat \<Rightarrow> rat" where
  "round_rat x = (if x = 0 then 0
     else of_int (round_half_even (x / 2 powi last_place x)) * 2 powi last_place x)"

section \<open>Values and operations\<close>

datatype f64 = Fin rat | Infinite bool | NaN

definition f64_round :: "rat \<Rightarrow> f64" where
  "f64_round x = (let r = round_rat x in if 2 ^ 1024 \<le> \<bar>r\<bar> then Infinite (x < 0) else Fin r)"

fun f64_mul :: "f64 \<Rightarrow> f64 \<Rightarrow> f64" where
  "f64_mul (Fin a) (Fin b) = f64_round (a * b)"
| "f64_mul (Infinite s) (Fin b) = (if b = 0 then NaN else Infinite (s \<noteq> (b < 0)))"
| "f64_mul (Fin a) (Infinite t) = (if a = 0 then NaN else Infinite ((a < 0) \<noteq> t))"
| "f64_mul (Infinite s) (Infinite t) = Infinite (s \<noteq> t)"
| "f64_mul _ _ = NaN"

fun f64_div :: "f64 \<Rightarrow> f64 \<Rightarrow> f64" where
  "f64_div (Fin a) (Fin b) = (if b = 0 then (if a = 0 then NaN else Infinite (a < 0)) else f64_round (a / b))"
| "f64_div (Infinite s) (Fin b) = Infinite (s \<noteq> (b < 0))"
| "f64_div (Fin a) (Infinite t) = Fin 0"
| "f64_div _ _ = NaN"

fun f64_add :: "f64 \<Rightarrow> f64 \<Rightarrow> f64" where
  "f64_add (Fin a) (Fin b) = f64_round (a + b)"
| "f64_add (Infinite s) (Fin b) = Infinite s"
| "f64_add (Fin a) (Infinite t) = Infinite t"
| "f64_add (Infinite s) (Infinite t) = (if s = t then Infinite s else NaN)"
| "f64_add _ _ = NaN"

text \<open>The comparison \<^verbatim>\<open>a < b\<close>, false when an operand is not a number, and \<^verbatim>\<open>a >= b\<close> likewise.\<close>

fun f64_less :: "f64 \<Rightarrow> f64 \<Rightarrow> bool" where
  "f64_less (Fin a) (Fin b) = (a < b)"
| "f64_less (Infinite s) (Fin b) = s"
| "f64_less (Fin a) (Infinite t) = (\<not> t)"
| "f64_less (Infinite s) (Infinite t) = (s \<and> \<not> t)"
| "f64_less _ _ = False"

definition f64_ge :: "f64 \<Rightarrow> f64 \<Rightarrow> bool" where
  "f64_ge a b \<longleftrightarrow> a \<noteq> NaN \<and> b \<noteq> NaN \<and> \<not> f64_less a b"

text \<open>The casts of the language: \<^verbatim>\<open>u64 as f64\<close> rounds, \<^verbatim>\<open>f64 as u64\<close> truncates and saturates.\<close>

definition f64_of_u64 :: "u64 \<Rightarrow> f64" where
  "f64_of_u64 n = f64_round (of_nat (unat n))"

fun u64_of_f64 :: "f64 \<Rightarrow> u64" where
  "u64_of_f64 (Fin a) = (if a < 0 then 0 else if 2 ^ 64 \<le> a then - 1 else word_of_int \<lfloor>a\<rfloor>)"
| "u64_of_f64 (Infinite s) = (if s then 0 else - 1)"
| "u64_of_f64 NaN = 0"

text \<open>\<^verbatim>\<open>powi\<close> for a natural exponent.\<close>

primrec f64_powi :: "f64 \<Rightarrow> nat \<Rightarrow> f64" where
  "f64_powi x 0 = Fin 1"
| "f64_powi x (Suc n) = f64_mul (f64_powi x n) x"

section \<open>The exponent\<close>

lemma nlog2_bounds: "0 < n \<Longrightarrow> 2 ^ nlog2 n \<le> n \<and> n < 2 ^ Suc (nlog2 n)"
proof (induction n rule: nlog2.induct)
  case (1 n)
  show ?case
  proof (cases "n \<le> 1")
    case True
    then show ?thesis using 1(2) by (simp add: nlog2.simps)
  next
    case False
    define p :: nat where "p = 2 ^ nlog2 (n div 2)"
    have "p \<le> n div 2" "n div 2 < 2 * p" using 1(1) False by (simp_all add: p_def)
    moreover have "2 ^ nlog2 n = 2 * p" using False by (subst nlog2.simps) (simp add: p_def)
    ultimately show ?thesis unfolding power_Suc by linarith
  qed
qed

lemma nlog2_rat:
  assumes "0 < n"
  shows "(2 :: rat) powi int (nlog2 (nat n)) \<le> of_int n" and "(of_int n :: rat) < 2 powi (int (nlog2 (nat n)) + 1)"
proof -
  have n: "(of_int n :: rat) = of_nat (nat n)" using assms by simp
  have b: "2 ^ nlog2 (nat n) \<le> nat n" "nat n < 2 ^ Suc (nlog2 (nat n))" using nlog2_bounds [of "nat n"] assms by simp_all
  show "(2 :: rat) powi int (nlog2 (nat n)) \<le> of_int n"
    using b(1) unfolding n by (metis of_nat_le_iff of_nat_numeral of_nat_power power_int_of_nat)
  have "(of_nat (nat n) :: rat) < of_nat (2 ^ Suc (nlog2 (nat n)))" using b(2) by (simp only: of_nat_less_iff)
  then show "(of_int n :: rat) < 2 powi (int (nlog2 (nat n)) + 1)"
    unfolding n by (simp add: power_int_add)
qed

lemma exponent2_bounds:
  assumes "0 < x"
  shows "2 powi exponent2 x \<le> x" and "x < 2 powi (exponent2 x + 1)"
proof -
  obtain n d where q: "quotient_of x = (n, d)" by (cases "quotient_of x")
  have d: "0 < d" using quotient_of_denom_pos [OF q] .
  have x: "x = of_int n / of_int d" using quotient_of_div [OF q] .
  with assms d have n: "0 < n" by (simp add: zero_less_divide_iff)
  define a b where "a = int (nlog2 (nat n))" and "b = int (nlog2 (nat d))"
  have N: "2 powi a \<le> (of_int n :: rat)" "(of_int n :: rat) < 2 powi (a + 1)"
    and D: "2 powi b \<le> (of_int d :: rat)" "(of_int d :: rat) < 2 powi (b + 1)"
    using nlog2_rat [OF n] nlog2_rat [OF d] by (simp_all add: a_def b_def)
  have "x < 2 powi (a + 1) / 2 powi b"
    unfolding x using N D n d by (intro frac_less) simp_all
  then have up: "x < 2 powi (a - b + 1)" by (simp add: power_int_diff power_int_add)
  have "2 powi a / 2 powi (b + 1) \<le> x"
    unfolding x using N D n d by (intro frac_le) simp_all
  then have low: "2 powi (a - b - 1) \<le> x" by (simp add: power_int_diff power_int_add)
  have "exponent2 x = (if 2 powi (a - b) \<le> x then a - b else a - b - 1)"
    by (simp add: exponent2_def q a_def b_def Let_def)
  then show "2 powi exponent2 x \<le> x" and "x < 2 powi (exponent2 x + 1)" using up low by auto
qed

lemma powi2_less_iff: "(2 :: rat) powi a < 2 powi b \<longleftrightarrow> a < b"
  using power_int_strict_increasing [of a b "2 :: rat"] power_int_increasing [of b a "2 :: rat"] by linarith

lemma powi2_le_iff: "(2 :: rat) powi a \<le> 2 powi b \<longleftrightarrow> a \<le> b"
  using powi2_less_iff [of b a] by (simp add: not_less [symmetric])

lemma powi2_pos: "(0 :: rat) < 2 powi a"
  by simp

lemma exponent2_le: "0 < x \<Longrightarrow> x < 2 powi (e + 1) \<Longrightarrow> exponent2 x \<le> e"
  using exponent2_bounds(1) [of x] powi2_less_iff [of "exponent2 x" "e + 1"] by linarith

lemma exponent2_ge: "0 < x \<Longrightarrow> 2 powi e \<le> x \<Longrightarrow> e \<le> exponent2 x"
  using exponent2_bounds(2) [of x] powi2_less_iff [of e "exponent2 x + 1"] by linarith

lemma exponent2_mono: "0 < x \<Longrightarrow> x \<le> y \<Longrightarrow> exponent2 x \<le> exponent2 y"
  using exponent2_bounds(1) [of x] by (intro exponent2_ge) linarith+

section \<open>Rounding is monotone and exact on representable numbers\<close>

lemma round_half_even_of_int [simp]: "round_half_even (of_int n) = n"
  by (simp add: round_half_even_def)

lemma round_half_even_error: "\<bar>of_int (round_half_even y) - y\<bar> \<le> 1 / 2"
  unfolding round_half_even_def Let_def using of_int_floor_le [of y] real_of_int_floor_add_one_gt
  by (auto simp: abs_if) (use floor_correct [of y] in linarith)+

lemma round_half_even_mono:
  assumes "x \<le> y"
  shows "round_half_even x \<le> round_half_even y"
proof (cases "\<lfloor>x\<rfloor> = \<lfloor>y\<rfloor>")
  case True
  then show ?thesis using assms by (auto simp: round_half_even_def Let_def)
next
  case False
  then have "\<lfloor>x\<rfloor> + 1 \<le> \<lfloor>y\<rfloor>" using floor_mono [OF assms] by linarith
  moreover have "round_half_even x \<le> \<lfloor>x\<rfloor> + 1" "\<lfloor>y\<rfloor> \<le> round_half_even y" by (simp_all add: round_half_even_def Let_def)
  ultimately show ?thesis by linarith
qed

lemma round_rat_0 [simp]: "round_rat 0 = 0"
  by (simp add: round_rat_def)

lemma round_rat_nonneg: "0 \<le> x \<Longrightarrow> 0 \<le> round_rat x"
  using round_half_even_mono [of 0 "x / 2 powi last_place x"] round_half_even_of_int [of 0]
  by (simp add: round_rat_def del: round_half_even_of_int)

text \<open>A multiple of the last place bounds the rounded value when it bounds the argument.\<close>

lemma round_rat_le_multiple:
  assumes "0 < x" and "x \<le> of_int m * 2 powi e" and "last_place x \<le> e"
  shows "round_rat x \<le> of_int m * 2 powi e"
proof -
  let ?l = "last_place x"
  obtain k where k: "e = ?l + int k" using assms(3) by (metis zle_iff_zadd)
  have m: "of_int m * 2 powi e = of_int (m * 2 ^ k) * (2 powi ?l :: rat)" by (simp add: k power_int_add)
  have "x / 2 powi ?l \<le> of_int (m * 2 ^ k)" using assms(2) unfolding m by (simp add: divide_le_eq)
  then have "round_half_even (x / 2 powi ?l) \<le> m * 2 ^ k"
    using round_half_even_mono [of "x / 2 powi ?l" "of_int (m * 2 ^ k)"] by (simp del: of_int_mult of_int_power)
  then have "(of_int (round_half_even (x / 2 powi ?l)) :: rat) \<le> of_int (m * 2 ^ k)" by (simp only: of_int_le_iff)
  then show ?thesis using assms(1) unfolding m by (simp add: round_rat_def)
qed

lemma round_rat_ge_multiple:
  assumes "0 < x" and "of_int m * 2 powi e \<le> x" and "last_place x \<le> e"
  shows "of_int m * 2 powi e \<le> round_rat x"
proof -
  let ?l = "last_place x"
  obtain k where k: "e = ?l + int k" using assms(3) by (metis zle_iff_zadd)
  have m: "of_int m * 2 powi e = of_int (m * 2 ^ k) * (2 powi ?l :: rat)" by (simp add: k power_int_add)
  have "of_int (m * 2 ^ k) \<le> x / 2 powi ?l" using assms(2) unfolding m by (simp add: le_divide_eq)
  then have "m * 2 ^ k \<le> round_half_even (x / 2 powi ?l)"
    using round_half_even_mono [of "of_int (m * 2 ^ k)" "x / 2 powi ?l"] by (simp del: of_int_mult of_int_power)
  then have "(of_int (m * 2 ^ k) :: rat) \<le> of_int (round_half_even (x / 2 powi ?l))" by (simp only: of_int_le_iff)
  then show ?thesis using assms(1) unfolding m by (simp add: round_rat_def)
qed

lemma round_rat_mono:
  assumes "0 < x" and "x \<le> y"
  shows "round_rat x \<le> round_rat y"
proof (cases "last_place x = last_place y")
  case True
  have "x / 2 powi last_place y \<le> y / 2 powi last_place y" using assms by (simp add: divide_right_mono)
  then have "(of_int (round_half_even (x / 2 powi last_place y)) :: rat) \<le> of_int (round_half_even (y / 2 powi last_place y))"
    by (simp add: round_half_even_mono)
  then show ?thesis using True assms by (simp add: round_rat_def)
next
  case False
  have y: "0 < y" using assms by simp
  have less: "last_place x < last_place y"
    using False exponent2_mono [OF assms] assms unfolding last_place_def by auto
  then have ly: "last_place y + 52 = exponent2 y" using y unfolding last_place_def by auto
  have "exponent2 x + 1 \<le> last_place y + 52" using less assms unfolding last_place_def by auto
  then have "x \<le> 2 powi (last_place y + 52)"
    using exponent2_bounds(2) [OF assms(1)] powi2_le_iff [of "exponent2 x + 1" "last_place y + 52"] by linarith
  then have "round_rat x \<le> 2 powi (last_place y + 52)"
    using round_rat_le_multiple [of x 1 "last_place y + 52"] assms(1) less by simp
  also have "\<dots> \<le> round_rat y"
    using round_rat_ge_multiple [of y 1 "last_place y + 52"] y exponent2_bounds(1) [OF y] ly by simp
  finally show ?thesis .
qed

definition representable :: "rat \<Rightarrow> bool" where
  "representable x \<longleftrightarrow> (\<exists>m e. x = of_int m * 2 powi e \<and> \<bar>m\<bar> \<le> 2 ^ 53 \<and> - 1074 \<le> e)"

lemma round_rat_representable:
  assumes "representable x" and "0 \<le> x"
  shows "round_rat x = x"
proof (cases "x = 0")
  case False
  then have x: "0 < x" using assms(2) by simp
  obtain m e where m: "x = of_int m * 2 powi e" "\<bar>m\<bar> \<le> 2 ^ 53" "- 1074 \<le> e" using assms(1) by (auto simp: representable_def)
  have "0 < m" using x powi2_pos [of e] by (simp add: m(1) zero_less_mult_iff less_imp_not_less)
  have exact: "round_rat x = x" if "x = of_int n * 2 powi f" "last_place x \<le> f" for n f
    using that round_rat_le_multiple [OF x, of n f] round_rat_ge_multiple [OF x, of n f] by simp
  show ?thesis
  proof (cases "m = 2 ^ 53")
    case True
    then have p: "x = of_int (2 ^ 52) * 2 powi (e + 1)" by (simp add: m(1) power_int_add)
    moreover have "x < 2 powi (e + 53 + 1)" by (simp add: p power_int_add)
    then have "exponent2 x \<le> e + 53" by (rule exponent2_le [OF x])
    then have "last_place x \<le> e + 1" using x m(3) by (simp add: last_place_def)
    ultimately show ?thesis by (rule exact)
  next
    case False
    then have "m < 2 ^ 53" using m(2) \<open>0 < m\<close> by simp
    then have "(of_int m :: rat) < of_int (2 ^ 53)" by (simp only: of_int_less_iff)
    then have "x < 2 powi (e + 52 + 1)" by (simp add: m(1) power_int_add)
    then have "exponent2 x \<le> e + 52" by (rule exponent2_le [OF x])
    then have "last_place x \<le> e" using x m(3) by (simp add: last_place_def)
    then show ?thesis by (rule exact [OF m(1)])
  qed
qed simp

lemma representable_int [simp]: "\<bar>n\<bar> \<le> 2 ^ 53 \<Longrightarrow> representable (of_int n)"
  unfolding representable_def by (rule exI [of _ n], rule exI [of _ 0]) simp

text \<open>What rounding returns is representable, so rounding is idempotent.\<close>

lemma representable_round_rat:
  assumes "0 \<le> x"
  shows "representable (round_rat x)"
proof (cases "x = 0")
  case True
  then show ?thesis using representable_int [of 0] by simp
next
  case False
  then have x: "0 < x" using assms by simp
  let ?y = "x / 2 powi last_place x"
  have "x < 2 powi (last_place x + 53)"
    using exponent2_bounds(2) [OF x] powi2_le_iff [of "exponent2 x + 1" "last_place x + 53"] x
    unfolding last_place_def by auto
  then have "?y < of_int (2 ^ 53)" using powi2_pos [of "last_place x"] by (simp add: divide_less_eq power_int_add mult.commute)
  then have "round_half_even ?y \<le> 2 ^ 53"
    using round_half_even_mono [of ?y "of_int (2 ^ 53)"] unfolding round_half_even_of_int by simp
  moreover have "0 \<le> round_half_even ?y"
    using round_half_even_mono [of "of_int 0" ?y] x unfolding round_half_even_of_int by simp
  moreover have "- 1074 \<le> last_place x" by (simp add: last_place_def)
  ultimately show ?thesis
    unfolding representable_def using x
    by (intro exI [of _ "round_half_even ?y"] exI [of _ "last_place x"]) (simp add: round_rat_def)
qed

text \<open>The two halves of every estimate: a representable bound survives rounding.\<close>

lemma round_rat_upper: "0 < x \<Longrightarrow> x \<le> r \<Longrightarrow> representable r \<Longrightarrow> round_rat x \<le> r"
  using round_rat_mono [of x r] round_rat_representable [of r] by simp

lemma round_rat_lower: "0 \<le> r \<Longrightarrow> r \<le> x \<Longrightarrow> representable r \<Longrightarrow> r \<le> round_rat x"
  using round_rat_mono [of r x] round_rat_representable [of r] round_rat_nonneg [of x] by (cases "r = 0") auto

lemma representable_powi2: "- 1074 \<le> e \<Longrightarrow> representable (2 powi e)"
  unfolding representable_def by (rule exI [of _ 1], rule exI [of _ e]) simp

lemma f64_round_Fin:
  assumes "0 \<le> x" and "x \<le> 2 powi e" and "0 \<le> e" and "e < 1024"
  shows "f64_round x = Fin (round_rat x)"
proof -
  have "round_rat x \<le> 2 powi e"
    using assms round_rat_upper [of x "2 powi e"] by (cases "x = 0") (simp_all add: representable_powi2)
  also have "\<dots> < 2 powi int 1024" using assms(4) by (simp only: powi2_less_iff)
  also have "(2 :: rat) powi int 1024 = 2 ^ 1024" by (rule power_int_of_nat)
  finally show ?thesis using round_rat_nonneg [OF assms(1)] unfolding f64_round_def Let_def by simp
qed

text \<open>Numbers up to \<open>2\<^bsup>100\<^esup>\<close> never overflow.\<close>

lemma f64_round_small: "0 \<le> x \<Longrightarrow> x \<le> 2 ^ 100 \<Longrightarrow> f64_round x = Fin (round_rat x)"
  using f64_round_Fin [of x "int 100"] by simp

lemma f64_round_int: "0 \<le> n \<Longrightarrow> n \<le> 2 ^ 53 \<Longrightarrow> f64_round (of_int n) = Fin (of_int n)"
proof -
  assume n: "0 \<le> n" "n \<le> 2 ^ 53"
  then have "(of_int n :: rat) \<le> of_int (2 ^ 53)" by (simp only: of_int_le_iff)
  with n show ?thesis by (simp add: f64_round_small round_rat_representable)
qed

text \<open>Powers of two are exact until they overflow.\<close>

lemma f64_powi_2: "n < 1024 \<Longrightarrow> f64_powi (Fin 2) n = Fin (2 ^ n)"
proof (induction n)
  case (Suc n)
  have p: "(2 :: rat) ^ n * 2 = 2 powi int (Suc n)" by (simp only: power_int_of_nat power_Suc2)
  have "f64_round (2 powi int (Suc n)) = Fin (2 powi int (Suc n))"
    using Suc.prems by (simp only: f64_round_Fin [of "2 powi int (Suc n)" "int (Suc n)"]
        round_rat_representable [OF representable_powi2] less_imp_le [OF powi2_pos])
  then show ?case using Suc p by (simp add: power_int_of_nat)
qed simp

lemma f64_powi_2_overflow: "1024 \<le> n \<Longrightarrow> f64_powi (Fin 2) n = Infinite False"
proof (induction n rule: dec_induct)
  case base
  have "round_rat (2 ^ 1024) = 2 ^ 1024"
    using round_rat_representable [OF representable_powi2 [of "int 1024"]] by (simp only: power_int_of_nat) simp
  then have "f64_round (2 ^ 1024) = Infinite False" unfolding f64_round_def Let_def by simp
  moreover have "f64_powi (Fin 2) (Suc 1023) = f64_round (2 ^ Suc 1023)"
    by (simp only: f64_powi.simps f64_powi_2 f64_mul.simps power_Suc2)
  moreover have "Suc 1023 = 1024" by simp
  ultimately show ?case by metis
next
  case (step n)
  then show ?case by simp
qed

end
