(* ===== verification/Simulator.thy ===== *)
theory Simulator
  imports Float64 Ledger
begin

text \<open>
  \<^verbatim>\<open>crates/sim\<close>: the economics simulation.  Each of the three analyses is a function from the constants of
  the program to the lines that it prints; a line keeps the values and drops headings, prose and
  column formatting.  The floating-point steps are those of the source, in its order, on the
  \<open>f64\<close> of the theory on floats; \<^verbatim>\<open>emission_at\<close> is the consensus function of \<^verbatim>\<open>crates/emission\<close>.
\<close>

section \<open>Assumptions\<close>

definition STATE_BYTES_PER_TX :: f64 where "STATE_BYTES_PER_TX = Fin 128"
definition CHECKPOINTS_PER_SEC :: f64 where "CHECKPOINTS_PER_SEC = Fin 1"
definition SECONDS_PER_YEAR :: f64 where "SECONDS_PER_YEAR = f64_mul (Fin 365) (Fin 86400)"
definition PHONE_HASHES_PER_SEC :: f64 where "PHONE_HASHES_PER_SEC = Fin (10 ^ 6)"
definition GPU_HASHES_PER_SEC :: f64 where "GPU_HASHES_PER_SEC = Fin (10 ^ 9)"
definition ATOMIC_PER_COIN :: f64 where "ATOMIC_PER_COIN = Fin (10 ^ 8)"

definition checkpoints_per_year :: f64 where
  "checkpoints_per_year = f64_mul CHECKPOINTS_PER_SEC SECONDS_PER_YEAR"

datatype Verdict = HonestTooSlow | SpamStateTooHigh | Workable

datatype SimLine =
    AssumptionLine f64 f64 u64
  | SpamLine u32 f64 f64 "f64 \<times> string" Verdict
  | ParamsLine u64 u64 u64 u64 u64
  | YearLine u64 u64 f64
  | RevenueLine u64 f64 f64
  | IssuanceLine u64 u64 u64

section \<open>Spam economics\<close>

text \<open>The unit loop of \<^verbatim>\<open>human_bytes\<close>.\<close>

definition byte_units :: "string list" where
  "byte_units = [''B'', ''KB'', ''MB'', ''GB'', ''TB'']"

function scale_bytes :: "f64 \<Rightarrow> nat \<Rightarrow> f64 \<times> nat" where
  "scale_bytes v i = (if f64_ge v (Fin 1024) \<and> i < length byte_units - 1
     then scale_bytes (f64_div v (Fin 1024)) (i + 1) else (v, i))"
  by pat_completeness auto
termination by (relation "measure (\<lambda>(v, i). length byte_units - i)") auto

declare scale_bytes.simps [simp del]

definition human_bytes :: "f64 \<Rightarrow> f64 \<times> string" where
  "human_bytes b = (case scale_bytes b 0 of (v, i) \<Rightarrow> (v, byte_units ! i))"

definition spam_verdict :: "f64 \<Rightarrow> f64 \<Rightarrow> Verdict" where
  "spam_verdict honest_solve_s atk_state_day =
     (if f64_less (Fin 5) honest_solve_s then HonestTooSlow
      else if f64_less (Fin (10 ^ 9)) atk_state_day then SpamStateTooHigh
      else Workable)"

definition spam_row :: "u32 \<Rightarrow> SimLine" where
  "spam_row bits =
     (let expected_hashes = f64_powi (Fin 2) (unat bits);
          honest_solve_s = f64_div expected_hashes PHONE_HASHES_PER_SEC;
          atk_tps = f64_div GPU_HASHES_PER_SEC expected_hashes;
          atk_state_day = f64_mul (f64_mul atk_tps (Fin 86400)) STATE_BYTES_PER_TX
      in SpamLine bits honest_solve_s atk_tps (human_bytes atk_state_day) (spam_verdict honest_solve_s atk_state_day))"

definition spam_analysis :: "SimLine list" where
  "spam_analysis =
     AssumptionLine PHONE_HASHES_PER_SEC GPU_HASHES_PER_SEC (u64_of_f64 STATE_BYTES_PER_TX)
     # map spam_row [8, 12, 16, 20, 24]"

section \<open>Emission\<close>

definition sim_params :: "EmissionParams option" where
  "sim_params =
     (let cpy = checkpoints_per_year;
          initial_supply = u64_of_f64 (f64_mul (Fin 100000000) ATOMIC_PER_COIN);
          target_y1_inflation = f64_round (2 / 100);
          e0 = u64_of_f64 (f64_div (f64_mul (f64_of_u64 initial_supply) target_y1_inflation) cpy);
          e_tail = u64_of_f64 (f64_mul (f64_of_u64 e0) (Fin (1 / 4)));
          half_life = u64_of_f64 (f64_mul (Fin 4) cpy)
      in em_new (max e0 1) (max e_tail 1) (max half_life 1))"

definition shown_years :: "u64 list" where "shown_years = [0, 1, 2, 4, 8, 20]"

text \<open>The year loop, with the running supply.\<close>

fun emission_years :: "EmissionParams \<Rightarrow> f64 \<Rightarrow> f64 \<Rightarrow> u64 list \<Rightarrow> SimLine list option" where
  "emission_years params cpy supplied [] = Some []"
| "emission_years params cpy supplied (year # years) =
     do { let h = u64_of_f64 (f64_mul (f64_of_u64 year) cpy);
          e \<leftarrow> emission_at params h;
          let annual = f64_mul (f64_of_u64 e) cpy;
          rest \<leftarrow> emission_years params cpy (f64_add supplied annual) years;
          if year \<in> set shown_years
          then Some (YearLine year e (f64_mul (f64_div annual supplied) (Fin 100)) # rest)
          else Some rest }"

definition revenue_row :: "EmissionParams \<Rightarrow> u64 \<Rightarrow> SimLine option" where
  "revenue_row params n =
     do { e \<leftarrow> emission_at params 0;
          let per_cp = e div max n 1;
          let per_day = f64_mul (f64_mul (f64_of_u64 per_cp) CHECKPOINTS_PER_SEC) (Fin 86400);
          let per_year = f64_mul per_day (Fin 365);
          Some (RevenueLine n (f64_div per_day ATOMIC_PER_COIN) (f64_div per_year ATOMIC_PER_COIN)) }"

definition emission_analysis :: "SimLine list option" where
  "emission_analysis =
     do { params \<leftarrow> sim_params;
          let initial_supply = u64_of_f64 (f64_mul (Fin 100000000) ATOMIC_PER_COIN);
          years \<leftarrow> emission_years params checkpoints_per_year (f64_of_u64 initial_supply) (map word_of_nat [0 ..< 21]);
          revenue \<leftarrow> those (map (revenue_row params) [10, 50, 200]);
          Some (ParamsLine (em_e0 params) (em_e_tail params) (em_half_life params)
                  (u64_of_f64 checkpoints_per_year) (u64_of_f64 ATOMIC_PER_COIN)
                # years @ revenue) }"

section \<open>Mint farming\<close>

definition issued_over :: "EmissionParams \<Rightarrow> u64 \<Rightarrow> u64 option" where
  "issued_over params window =
     do { es \<leftarrow> those (map (\<lambda>h. emission_at params (word_of_nat h)) [1 ..< Suc (unat window)]);
          sum_or_panic es }"

definition issuance_lines :: "EmissionParams \<Rightarrow> u64 \<Rightarrow> u64 list \<Rightarrow> SimLine list option" where
  "issuance_lines params window tx_counts =
     do { issued \<leftarrow> issued_over params window;
          Some (map (\<lambda>tx_count. IssuanceLine tx_count window issued) tx_counts) }"

definition mint_farming_check :: "SimLine list option" where
  "mint_farming_check =
     do { params \<leftarrow> em_new 1000000 250000 (u64_of_f64 (f64_mul (Fin 4) checkpoints_per_year));
          issuance_lines params 1000 [0, 1000, 1000000, 1000000000] }"

definition sim_main :: "SimLine list option" where
  "sim_main =
     do { let spam = spam_analysis;
          emission \<leftarrow> emission_analysis;
          farming \<leftarrow> mint_farming_check;
          Some (spam @ emission @ farming) }"

section \<open>The constants are exact\<close>

lemma f64_exact_numeral: "numeral n \<le> (2 ^ 53 :: int) \<Longrightarrow> f64_round (numeral n) = Fin (numeral n)"
  using f64_round_int [of "numeral n"] by simp

lemma f64_of_u64_exact: "unat n \<le> 2 ^ 53 \<Longrightarrow> f64_of_u64 n = Fin (of_nat (unat n))"
proof -
  assume "unat n \<le> 2 ^ 53"
  then have "int (unat n) \<le> int (2 ^ 53)" by (simp only: of_nat_le_iff)
  then show ?thesis using f64_round_int [of "int (unat n)"] by (simp add: f64_of_u64_def)
qed

lemma u64_of_f64_Fin: "0 \<le> a \<Longrightarrow> a < 2 ^ 64 \<Longrightarrow> unat (u64_of_f64 (Fin a)) = nat \<lfloor>a\<rfloor>"
proof -
  assume a: "0 \<le> a" "a < 2 ^ 64"
  then have "0 \<le> \<lfloor>a\<rfloor>" "\<lfloor>a\<rfloor> < 2 ^ 64" by (simp_all add: floor_less_iff)
  then show ?thesis using a by (simp add: unsigned_of_int take_bit_int_eq_self)
qed

lemma checkpoints_per_year_eq: "checkpoints_per_year = Fin 31536000"
  by (simp add: checkpoints_per_year_def CHECKPOINTS_PER_SEC_def SECONDS_PER_YEAR_def f64_exact_numeral)

section \<open>Spam verdicts\<close>

lemma round_above_int: "of_int n \<le> x \<Longrightarrow> 0 \<le> n \<Longrightarrow> n \<le> 2 ^ 53 \<Longrightarrow> of_int n \<le> round_rat x"
  by (rule round_rat_lower) simp_all

lemma round_below_int: "x \<le> of_int n \<Longrightarrow> 0 < x \<Longrightarrow> n \<le> 2 ^ 53 \<Longrightarrow> round_rat x \<le> of_int n"
proof -
  assume n: "x \<le> of_int n" "0 < x" "n \<le> 2 ^ 53"
  then have "(0 :: rat) < of_int n" by linarith
  with n show ?thesis by (intro round_rat_upper) simp_all
qed

text \<open>From 23 bits on the honest device needs more than five seconds.\<close>

lemma honest_too_slow:
  assumes "23 \<le> k"
  shows "f64_less (Fin 5) (f64_div (f64_powi (Fin 2) k) PHONE_HASHES_PER_SEC)"
proof (cases "k < 1024")
  case True
  let ?x = "(2 :: rat) ^ k / 10 ^ 6"
  have "(2 :: rat) ^ 23 \<le> 2 ^ k" using assms by (intro power_increasing) simp_all
  then have "of_int 8 \<le> ?x" by simp
  then have "5 < round_rat ?x" using round_above_int [of 8 ?x] by simp
  moreover have "?x \<le> 2 powi int k" by (simp add: divide_le_eq)
  then have "f64_round ?x = Fin (round_rat ?x)" using True by (intro f64_round_Fin [of _ "int k"]) simp_all
  ultimately show ?thesis using True by (simp add: f64_powi_2 PHONE_HASHES_PER_SEC_def)
next
  case False
  then show ?thesis by (simp add: f64_powi_2_overflow PHONE_HASHES_PER_SEC_def)
qed

text \<open>Up to 22 bits it does not, but the attacker adds more than a gigabyte a day.\<close>

lemma honest_fast:
  assumes "k < 23"
  shows "\<not> f64_less (Fin 5) (f64_div (f64_powi (Fin 2) k) PHONE_HASHES_PER_SEC)"
proof -
  let ?x = "(2 :: rat) ^ k / 10 ^ 6"
  have "(2 :: rat) ^ k \<le> 2 ^ 22" using assms by (intro power_increasing) simp_all
  then have le: "?x \<le> of_int 5" by simp
  have "round_rat ?x \<le> of_int 5" by (rule round_below_int [OF le]) simp_all
  moreover have "f64_round ?x = Fin (round_rat ?x)" using le by (intro f64_round_small) simp_all
  ultimately show ?thesis using assms by (simp add: f64_powi_2 PHONE_HASHES_PER_SEC_def)
qed

lemma spam_state_high:
  assumes "k < 23"
  shows "f64_less (Fin (10 ^ 9)) (f64_mul (f64_mul (f64_div GPU_HASHES_PER_SEC (f64_powi (Fin 2) k)) (Fin 86400)) STATE_BYTES_PER_TX)"
proof -
  define t where "t = round_rat (10 ^ 9 / 2 ^ k)"
  define d where "d = round_rat (t * 86400)"
  define s where "s = round_rat (d * 128)"
  have p: "(1 :: rat) \<le> 2 ^ k" "(2 :: rat) ^ k \<le> 2 ^ 22" using assms power_increasing [of k 22 "2 :: rat"] by simp_all
  then have x: "(of_int 238 :: rat) \<le> 10 ^ 9 / 2 ^ k" "10 ^ 9 / 2 ^ k \<le> (of_int (10 ^ 9) :: rat)"
    by (simp_all add: le_divide_eq divide_le_eq)
  have t: "238 \<le> t" "t \<le> 10 ^ 9"
    using round_above_int [OF x(1)] round_below_int [OF x(2)] by (simp_all add: t_def)
  then have y: "(of_int (238 * 86400) :: rat) \<le> t * 86400" "t * 86400 \<le> of_int (86400 * 10 ^ 9)" by simp_all
  have d: "238 * 86400 \<le> d" "d \<le> 86400 * 10 ^ 9"
    using round_above_int [OF y(1)] round_below_int [OF y(2)] t by (simp_all add: d_def)
  then have z: "(of_int (238 * 86400 * 128) :: rat) \<le> d * 128" by simp
  have s: "238 * 86400 * 128 \<le> s" using round_above_int [OF z] by (simp add: s_def)
  have "f64_div GPU_HASHES_PER_SEC (f64_powi (Fin 2) k) = Fin t"
    using assms x by (simp add: f64_powi_2 GPU_HASHES_PER_SEC_def f64_round_small t_def)
  moreover have "f64_mul (Fin t) (Fin 86400) = Fin d" using t by (simp add: f64_round_small d_def)
  moreover have "f64_mul (Fin d) STATE_BYTES_PER_TX = Fin s" using d by (simp add: f64_round_small s_def STATE_BYTES_PER_TX_def)
  ultimately show ?thesis using s by simp
qed

text \<open>The unit index never leaves the table, and only the last unit carries a figure of 1024 or more.\<close>

lemma scale_bytes_unit:
  "i < length byte_units \<Longrightarrow> snd (scale_bytes v i) < length byte_units
     \<and> (f64_ge (fst (scale_bytes v i)) (Fin 1024) \<longrightarrow> snd (scale_bytes v i) = length byte_units - 1)"
proof (induction v i rule: scale_bytes.induct)
  case (1 v i)
  then show ?case by (subst (1 2 3) scale_bytes.simps) auto
qed

section \<open>The parameters of the emission analysis\<close>

lemma representable_scaled: "\<bar>m\<bar> \<le> 2 ^ 53 \<Longrightarrow> k \<le> 1074 \<Longrightarrow> representable (of_int m / 2 ^ k)"
  unfolding representable_def
  by (rule exI [of _ m], rule exI [of _ "- int k"]) (simp add: power_int_minus divide_inverse)

lemma round_initial_supply: "f64_round (10 ^ 16) = Fin (10 ^ 16)"
proof -
  have "representable (10 ^ 16)"
    unfolding representable_def by (rule exI [of _ "5 ^ 16"], rule exI [of _ 16]) simp
  then have "round_rat (10 ^ 16) = 10 ^ 16" by (rule round_rat_representable) simp
  then show ?thesis by (simp add: f64_round_small)
qed

lemma target_inflation: "5764607523034234 / 2 ^ 58 \<le> round_rat (2 / 100)" "round_rat (2 / 100) \<le> 5764607523034235 / 2 ^ 58"
  using round_rat_lower [of "of_int 5764607523034234 / 2 ^ 58" "2 / 100"] representable_scaled [of 5764607523034234 58]
    round_rat_upper [of "2 / 100" "of_int 5764607523034235 / 2 ^ 58"] representable_scaled [of 5764607523034235 58]
  by simp_all

lemma year_one_emission:
  "u64_of_f64 (f64_div (f64_mul (Fin (10 ^ 16)) (f64_round (2 / 100))) (Fin 31536000)) = 6341958"
proof -
  define t where "t = round_rat (2 / 100)"
  define a where "a = round_rat (10 ^ 16 * t)"
  define q where "q = round_rat (a / 31536000)"
  have t: "5764607523034234 / 2 ^ 58 \<le> t" "t \<le> 5764607523034235 / 2 ^ 58"
    using target_inflation by (simp_all add: t_def)
  have x: "of_int (2 * 10 ^ 14 - 1) \<le> 10 ^ 16 * t" "10 ^ 16 * t \<le> of_int (2 * 10 ^ 14 + 1)" using t by simp_all
  have a: "of_int (2 * 10 ^ 14 - 1) \<le> a" "a \<le> of_int (2 * 10 ^ 14 + 1)"
    unfolding a_def using x t by (intro round_above_int round_below_int; simp)+
  have q1: "of_int 6341958 \<le> q" unfolding q_def using a by (intro round_above_int) simp_all
  have "round_rat (a / 31536000) \<le> of_int 12683917 / 2 ^ 1"
    using a by (intro round_rat_upper representable_scaled) simp_all
  then have q2: "q < 6341959" by (simp add: q_def)
  have "f64_round (2 / 100) = Fin t" by (simp add: f64_round_small t_def)
  moreover have "f64_mul (Fin (10 ^ 16)) (Fin t) = Fin a" using x t by (simp add: f64_round_small a_def)
  moreover have "f64_div (Fin a) (Fin 31536000) = Fin q" using a by (simp add: f64_round_small q_def)
  moreover have "\<lfloor>q\<rfloor> = 6341958" using q1 q2 by (simp add: floor_eq_iff)
  ultimately show ?thesis using q1 q2 by simp
qed

lemma tail_emission: "u64_of_f64 (f64_mul (f64_of_u64 6341958) (Fin (1 / 4))) = 1585489"
proof -
  define t where "t = round_rat (6341958 * (1 / 4))"
  have t1: "of_int 1585489 \<le> t" unfolding t_def by (intro round_above_int) simp_all
  have "t \<le> of_int 6341959 / 2 ^ 2" unfolding t_def by (intro round_rat_upper representable_scaled) simp_all
  then have t2: "t < 1585490" by simp
  have "\<lfloor>t\<rfloor> = 1585489" using t1 t2 by (simp add: floor_eq_iff)
  moreover have "f64_mul (f64_of_u64 6341958) (Fin (1 / 4)) = Fin t"
    by (simp add: f64_of_u64_exact f64_round_small t_def)
  ultimately show ?thesis using t1 t2 by simp
qed

lemma initial_supply_eq:
  "u64_of_f64 (f64_mul (Fin 100000000) ATOMIC_PER_COIN) = 10000000000000000" "f64_of_u64 10000000000000000 = Fin (10 ^ 16)"
  using round_initial_supply by (simp_all add: ATOMIC_PER_COIN_def f64_of_u64_def)

lemma sim_params_eq: "sim_params = Some \<lparr>em_e0 = 6341958, em_e_tail = 1585489, em_half_life = 126144000\<rparr>"
proof -
  have "u64_of_f64 (f64_mul (Fin 4) (Fin 31536000)) = 126144000" by (simp add: f64_exact_numeral)
  then show ?thesis
    unfolding sim_params_def Let_def checkpoints_per_year_eq initial_supply_eq year_one_emission tail_emission
    by (simp add: em_new_def max_def word_le_nat_alt)
qed

section \<open>The year loop\<close>

text \<open>The inflation figure of a year with emission \<open>E\<close> per checkpoint and supply \<open>S\<close>.\<close>

definition infl :: "nat \<Rightarrow> rat \<Rightarrow> rat" where
  "infl E S = round_rat (round_rat (of_nat E * 31536000 / S) * 100)"

lemma infl_mono:
  assumes "0 < E" and "E \<le> E'" and "0 < S'" and "S' \<le> S"
  shows "infl E S \<le> infl E' S'"
proof -
  have "(of_nat E :: rat) * 31536000 / S \<le> of_nat E' * 31536000 / S'" using assms by (intro frac_le) simp_all
  moreover have pos: "0 < (of_nat E :: rat) * 31536000 / S" using assms by simp
  ultimately have le: "round_rat (of_nat E * 31536000 / S) \<le> round_rat (of_nat E' * 31536000 / S')" by (intro round_rat_mono)
  show ?thesis
  proof (cases "round_rat (of_nat E * 31536000 / S) = 0")
    case True
    have "0 \<le> infl E' S'" unfolding infl_def using assms by (intro round_rat_nonneg mult_nonneg_nonneg round_rat_nonneg) simp_all
    then show ?thesis by (simp add: infl_def True)
  next
    case False
    then have "0 < round_rat (of_nat E * 31536000 / S) * 100" using round_rat_nonneg [of "of_nat E * 31536000 / S"] pos by simp
    then show ?thesis unfolding infl_def using le by (intro round_rat_mono) simp_all
  qed
qed

lemma infl_bounds:
  assumes "1585489 \<le> E" "E \<le> 6341958" and "10 ^ 16 \<le> S" "S \<le> 14221 * 10 ^ 12"
  shows "35 / 100 \<le> infl E S" and "infl E S \<le> 2"
proof -
  let ?q = "(of_nat E :: rat) * 31536000 / S"
  have E: "(1585489 :: rat) \<le> of_nat E" "(of_nat E :: rat) \<le> 6341958" 
    using assms(1,2) of_nat_le_iff [of 1585489 E, where ?'a = rat] of_nat_le_iff [of E 6341958, where ?'a = rat] by simp_all
  have "1585489 * 31536000 / (14221 * 10 ^ 12) \<le> ?q" using E assms by (intro frac_le) simp_all
  then have "of_int 3685 / 2 ^ 20 \<le> ?q" by simp
  then have q1: "of_int 3685 / 2 ^ 20 \<le> round_rat ?q" by (intro round_rat_lower representable_scaled) simp_all
  then have "of_int 5757 / 2 ^ 14 \<le> round_rat ?q * 100" by simp
  then have "of_int 5757 / 2 ^ 14 \<le> infl E S" unfolding infl_def by (intro round_rat_lower representable_scaled) simp_all
  then show "35 / 100 \<le> infl E S" by simp
  have "?q \<le> 6341958 * 31536000 / 10 ^ 16" using E assms by (intro frac_le) simp_all
  then have "?q \<le> of_int 687194767 / 2 ^ 35" by simp
  then have "round_rat ?q \<le> of_int 687194767 / 2 ^ 35" using E assms by (intro round_rat_upper representable_scaled) simp_all
  then have "round_rat ?q * 100 \<le> of_int 2" by simp
  then have "infl E S \<le> of_int 2" unfolding infl_def using q1 by (intro round_below_int) simp_all
  then show "infl E S \<le> 2" by simp
qed

lemma f64_of_u64_times:
  assumes "unat n = N" and "N \<le> 10 ^ 8"
  shows "f64_mul (f64_of_u64 n) (Fin 31536000) = Fin (of_int (int N * 31536000))"
proof -
  have n: "f64_of_u64 n = Fin (of_nat N)" using f64_of_u64_exact [of n] assms(2) unfolding assms(1) by simp
  have "f64_round (of_int (int N * 31536000)) = Fin (of_int (int N * 31536000))"
    using assms(2) by (intro f64_round_int) simp_all
  then show ?thesis unfolding n f64_mul.simps by (simp only: of_int_mult of_int_of_nat_eq of_int_numeral)
qed

definition sim_em :: EmissionParams where
  "sim_em = \<lparr>em_e0 = 6341958, em_e_tail = 1585489, em_half_life = 126144000\<rparr>"

definition year_emission :: "nat \<Rightarrow> nat" where
  "year_emission y = emission_nat 6341958 1585489 126144000 (y * 31536000)"

lemma year_emission_bounds: "1585489 \<le> year_emission y" "year_emission y \<le> 6341958"
  unfolding year_emission_def by (rule emission_nat_bounds; simp)+

lemma year_emission_antimono: "y \<le> y' \<Longrightarrow> year_emission y' \<le> year_emission y"
  by (simp add: year_emission_def emission_nat_antimono)

lemma year_emission_at:
  assumes "unat year \<le> 20"
  obtains e where "emission_at sim_em (u64_of_f64 (f64_mul (f64_of_u64 year) (Fin 31536000))) = Some e"
    "unat e = year_emission (unat year)"
proof -
  define N where "N = unat year"
  have N: "int N * 31536000 < 2 ^ 64" "N \<le> 10 ^ 8" using assms by (simp_all add: N_def [symmetric])
  have "(of_int (int N * 31536000) :: rat) < of_int (2 ^ 64)" using N(1) by (simp only: of_int_less_iff)
  then have "unat (u64_of_f64 (Fin (of_int (int N * 31536000)))) = nat (int N * 31536000)"
    using u64_of_f64_Fin [of "of_int (int N * 31536000)"] unfolding floor_of_int by simp
  then have h: "unat (u64_of_f64 (f64_mul (f64_of_u64 year) (Fin 31536000))) = unat year * 31536000"
    unfolding f64_of_u64_times [OF N_def [symmetric] N(2)] by (simp add: N_def [symmetric] nat_mult_distrib del: u64_of_f64.simps)
  have "em_half_life sim_em \<noteq> 0" "em_e_tail sim_em \<le> em_e0 sim_em" by (simp_all add: sim_em_def word_le_nat_alt)
  from emission_at_eq [OF this, of "u64_of_f64 (f64_mul (f64_of_u64 year) (Fin 31536000))"] that show ?thesis
    unfolding h by (auto simp: sim_em_def year_emission_def)
qed

text \<open>Supplies stay within multiples of \<open>10\<^sup>12\<close>, which are representable.\<close>

lemma representable_tera: "0 \<le> n \<Longrightarrow> n \<le> 30000 \<Longrightarrow> representable (of_int n * 10 ^ 12)"
  unfolding representable_def by (rule exI [of _ "n * 5 ^ 12"], rule exI [of _ 12]) simp

lemma year_values:
  fixes E :: nat
  assumes E: "1585489 \<le> E" "E \<le> 6341958" and s: "10 ^ 16 \<le> s" "s \<le> of_int n * 10 ^ 12" "n \<le> 20000" "representable s"
  defines "a \<equiv> of_int (int E * 31536000)" and "s' \<equiv> round_rat (s + of_int (int E * 31536000))"
  shows "f64_mul (f64_div (Fin a) (Fin s)) (Fin 100) = Fin (infl E s)"
    and "f64_add (Fin s) (Fin a) = Fin s'" and "s \<le> s'" and "s' \<le> of_int (n + 201) * 10 ^ 12" and "representable s'"
proof -
  have "(of_int 0 :: rat) < of_int (int E * 31536000)" "(of_int (int E * 31536000) :: rat) \<le> of_int (201 * 10 ^ 12)"
    unfolding of_int_less_iff of_int_le_iff using E by simp_all
  then have a: "(0 :: rat) < a" "a \<le> 201 * 10 ^ 12" unfolding a_def by simp_all
  have pos: "0 < s" using s(1) by (rule order_less_le_trans [rotated]) simp
  have "a / s \<le> of_int 1" using a s(1) pos by (simp add: divide_le_eq)
  then have q: "round_rat (a / s) \<le> of_int 1" "0 \<le> round_rat (a / s)"
    using a pos by (intro round_below_int round_rat_nonneg; simp)+
  have "f64_round (a / s) = Fin (round_rat (a / s))"
    using a pos order_trans [OF \<open>a / s \<le> of_int 1\<close>, of "2 ^ 100"] by (intro f64_round_small) simp_all
  then have "f64_div (Fin a) (Fin s) = Fin (round_rat (a / s))" using pos by simp
  then show "f64_mul (f64_div (Fin a) (Fin s)) (Fin 100) = Fin (infl E s)"
    using q by (simp add: f64_round_small infl_def a_def)
  have up: "s + a \<le> of_int (n + 201) * 10 ^ 12" using s(2) a(2) by (simp add: distrib_right)
  have "(of_int n :: rat) \<le> of_int 20000" using s(3) by (simp only: of_int_le_iff)
  then have "s + a \<le> 2 ^ 100" using up by simp
  then show "f64_add (Fin s) (Fin a) = Fin s'" using a pos by (simp add: f64_round_small s'_def a_def)
  show "s \<le> s'" unfolding s'_def using pos a(1) s(4) by (intro round_rat_lower) (simp_all add: a_def)
  have "0 \<le> n" using s(1,2) by (simp add: zero_le_mult_iff)
  then show "s' \<le> of_int (n + 201) * 10 ^ 12"
    unfolding s'_def using up pos a(1) s(3) representable_tera [of "n + 201"] by (intro round_rat_upper) (simp_all add: a_def)
  show "representable s'" unfolding s'_def using pos by (intro representable_round_rat) simp
qed

text \<open>A later line of the table: a later year, no more emission, no more inflation.\<close>

fun falls :: "SimLine \<Rightarrow> SimLine \<Rightarrow> bool" where
  "falls (YearLine y e (Fin r)) (YearLine y' e' (Fin r')) \<longleftrightarrow> y < y' \<and> e' \<le> e \<and> r' \<le> r"
| "falls _ _ \<longleftrightarrow> False"

definition year_line :: "rat \<Rightarrow> u64 \<Rightarrow> SimLine \<Rightarrow> bool" where
  "year_line s year l \<longleftrightarrow> (\<exists>e s'. l = YearLine year e (Fin (infl (unat e) s')) \<and> unat e = year_emission (unat year)
     \<and> s \<le> s' \<and> s' \<le> 14221 * 10 ^ 12)"

lemma year_line_falls:
  assumes "unat e = year_emission (unat y)" and "year_line s' y' l" and "s \<le> s'" and "y < y'" and "0 < s"
  shows "falls (YearLine y e (Fin (infl (unat e) s))) l"
proof -
  obtain e' t where l: "l = YearLine y' e' (Fin (infl (unat e') t))" "unat e' = year_emission (unat y')" "s' \<le> t"
    using assms(2) by (auto simp: year_line_def)
  have le: "unat e' \<le> unat e" using assms(1,4) l(2) by (simp add: year_emission_antimono word_less_nat_alt)
  have "0 < unat e'" using year_emission_bounds(1) [of "unat y'"] l(2) by linarith
  then have "infl (unat e') t \<le> infl (unat e) s" using le l(3) assms(3,5) by (intro infl_mono) linarith+
  then show ?thesis using l(1) le assms(4) by (simp add: word_le_nat_alt)
qed

lemma list_all2_member: "list_all2 R xs zs \<Longrightarrow> z \<in> set zs \<Longrightarrow> \<exists>x \<in> set xs. R x z"
  by (induction rule: list_all2_induct) auto

lemma emission_years_rows:
  assumes "10 ^ 16 \<le> s" and "s \<le> of_int n * 10 ^ 12" and "n + 201 * int (length years) \<le> 14221" and "representable s"
    and "sorted_wrt (<) years" and "\<forall>y \<in> set years. unat y \<le> 20"
  shows "\<exists>rows. emission_years sim_em (Fin 31536000) (Fin s) years = Some rows
    \<and> list_all2 (year_line s) (filter (\<lambda>y. y \<in> set shown_years) years) rows \<and> sorted_wrt falls rows"
  using assms
proof (induction years arbitrary: s n)
  case (Cons y ys)
  obtain e where e: "emission_at sim_em (u64_of_f64 (f64_mul (f64_of_u64 y) (Fin 31536000))) = Some e"
      "unat e = year_emission (unat y)" using year_emission_at [of y] Cons.prems(6) by auto
  note E = year_emission_bounds [of "unat y", folded e(2)]
  define s' where "s' = round_rat (s + of_int (int (unat e) * 31536000))"
  have n: "n \<le> 20000" using Cons.prems(3) by simp
  note v = year_values [OF E Cons.prems(1,2) n Cons.prems(4), folded s'_def]
  have times: "f64_mul (f64_of_u64 e) (Fin 31536000) = Fin (of_int (int (unat e) * 31536000))"
    using E by (intro f64_of_u64_times [OF refl]) simp
  have s': "10 ^ 16 \<le> s'" "n + 201 + 201 * int (length ys) \<le> 14221" using v(3) Cons.prems(1,3) by simp_all
  obtain rows where rows: "emission_years sim_em (Fin 31536000) (Fin s') ys = Some rows"
      "list_all2 (year_line s') (filter (\<lambda>y. y \<in> set shown_years) ys) rows" "sorted_wrt falls rows"
    using Cons.IH [OF s'(1) v(4) s'(2) v(5)] Cons.prems(5,6) by auto
  let ?l = "YearLine y e (Fin (infl (unat e) s))"
  have run: "emission_years sim_em (Fin 31536000) (Fin s) (y # ys) = Some (if y \<in> set shown_years then ?l # rows else rows)"
    by (simp only: emission_years.simps Let_def e(1) times v(1,2) bind.bind_lunit rows(1) if_distrib [of Some, symmetric])
  have pos: "0 < s" using Cons.prems(1) by (rule order_less_le_trans [rotated]) simp
  have "falls ?l l" if l: "l \<in> set rows" for l
  proof -
    obtain y' where "y' \<in> set ys" "year_line s' y' l" using list_all2_member [OF rows(2) l] by auto
    then show ?thesis using year_line_falls [OF e(2) _ v(3) _ pos] Cons.prems(5) by auto
  qed
  moreover have "s \<le> 14221 * 10 ^ 12" using Cons.prems(2,3) order_trans [of s "of_int n * 10 ^ 12" "14221 * 10 ^ 12"] by simp
  then have "year_line s y ?l" using e(2) by (auto simp: year_line_def)
  moreover have "list_all2 (year_line s) (filter (\<lambda>y. y \<in> set shown_years) ys) rows"
    using rows(2) by (rule list_all2_mono) (use v(3) in \<open>auto simp: year_line_def intro: order_trans\<close>)
  ultimately show ?case using run rows(3) by auto
qed simp

lemma emission_analysis_lines:
  "\<exists>years revenue. emission_analysis = Some (ParamsLine 6341958 1585489 126144000 31536000 100000000 # years @ revenue)
    \<and> list_all2 (year_line (10 ^ 16)) shown_years years \<and> sorted_wrt falls years
    \<and> list_all2 (\<lambda>n l. \<exists>day year. l = RevenueLine n day year) [10, 50, 200] revenue"
proof -
  let ?years = "map word_of_nat [0 ..< 21] :: u64 list"
  have rep: "representable (10 ^ 16)" using representable_tera [of 10000] by simp
  have ys: "?years = [0, 1, 2, 3, 4, 5, 6, 7, 8, 9, 10, 11, 12, 13, 14, 15, 16, 17, 18, 19, 20]" by (simp add: upt_rec)
  have "filter (\<lambda>y. y \<in> set shown_years) ?years = shown_years" unfolding ys by (simp add: shown_years_def)
  moreover have "sorted_wrt (<) ?years" "\<forall>y \<in> set ?years. unat y \<le> 20" unfolding ys by (simp_all add: word_less_nat_alt)
  ultimately obtain rows where rows: "emission_years sim_em (Fin 31536000) (Fin (10 ^ 16)) ?years = Some rows"
      "list_all2 (year_line (10 ^ 16)) shown_years rows" "sorted_wrt falls rows"
    using emission_years_rows [of "10 ^ 16" 10000 ?years] rep by auto
  have "\<exists>e. emission_at sim_em 0 = Some e"
    using emission_at_None_iff [of sim_em 0] by (auto simp: sim_em_def word_less_nat_alt)
  then obtain d1 y1 d2 y2 d3 y3 where rev: "those (map (revenue_row sim_em) [10, 50, 200])
      = Some [RevenueLine 10 d1 y1, RevenueLine 50 d2 y2, RevenueLine 200 d3 y3]" by (auto simp: revenue_row_def Let_def)
  have casts: "u64_of_f64 (Fin 31536000) = 31536000" "u64_of_f64 ATOMIC_PER_COIN = 100000000" by (simp_all add: ATOMIC_PER_COIN_def)
  have "emission_analysis = Some (ParamsLine 6341958 1585489 126144000 31536000 100000000 # rows
      @ [RevenueLine 10 d1 y1, RevenueLine 50 d2 y2, RevenueLine 200 d3 y3])"
    unfolding emission_analysis_def sim_params_eq sim_em_def [symmetric] checkpoints_per_year_eq initial_supply_eq
      bind.bind_lunit Let_def rows(1) rev casts by (simp add: sim_em_def)
  then show ?thesis using rows(2,3) by auto
qed

section \<open>Issuance\<close>

lemma issued_over_eq:
  assumes "\<And>h. \<exists>e. emission_at p h = Some e \<and> unat e \<le> M" and "unat window * M < 2 ^ 64"
  shows "\<exists>issued. issued_over p window = Some issued"
proof -
  obtain f where f: "\<And>h. emission_at p h = Some (f h)" "\<And>h. unat (f h) \<le> M" using assms(1) by metis
  let ?es = "map (\<lambda>h. f (word_of_nat h)) [1 ..< Suc (unat window)]"
  have "sum_list (map unat ?es) \<le> unat window * M"
    using sum_list_mono [of "[1 ..< Suc (unat window)]" "\<lambda>h. unat (f (word_of_nat h))" "\<lambda>_. M"] f(2)
    by (simp add: comp_def sum_list_triv del: upt_Suc)
  then obtain i where "sum_or_panic ?es = Some i" using sum_or_panic_exists [of ?es] assms(2) by auto
  moreover have "those (map (\<lambda>h. emission_at p (word_of_nat h)) [1 ..< Suc (unat window)]) = Some ?es"
    unfolding f(1) using those_map_Some [of ?es] by (simp add: comp_def del: upt_Suc)
  ultimately show ?thesis by (simp add: issued_over_def del: upt_Suc)
qed

lemma mint_farming_lines:
  "\<exists>issued. mint_farming_check = Some (map (\<lambda>c. IssuanceLine c 1000 issued) [0, 1000, 1000000, 1000000000])"
proof -
  let ?p = "\<lparr>em_e0 = 1000000, em_e_tail = 250000, em_half_life = 126144000\<rparr>"
  have "em_half_life ?p \<noteq> 0" "em_e_tail ?p \<le> em_e0 ?p" by (simp_all add: word_le_nat_alt)
  note em = emission_at_eq [OF this]
  have "\<exists>e. emission_at ?p h = Some e \<and> unat e \<le> 1000000" for h
    using em [of h] emission_nat_bounds(2) [of 250000 1000000 126144000 "unat h"] by auto
  then obtain i where "issued_over ?p 1000 = Some i" using issued_over_eq [of ?p 1000000 1000] by auto
  moreover have "u64_of_f64 (f64_mul (Fin 4) (Fin 31536000)) = 126144000" by (simp add: f64_exact_numeral)
  ultimately show ?thesis
    by (simp add: mint_farming_check_def issuance_lines_def checkpoints_per_year_eq em_new_def del: f64_mul.simps u64_of_f64.simps)
qed

section \<open>Properties\<close>

text \<open>Proof of work alone never suffices in the simulation's model: for every difficulty, not only for the
  five in the table, the verdict is that honest users are too slow (from 23 bits on) or that the attacker's state
  growth is too high (below); no difficulty is reported workable.\<close>

lemma spam_verdict_exact:
  assumes "unat bits < 2 ^ 31"
  shows "\<exists>h t b. spam_row bits = SpamLine bits h t b (if 23 \<le> bits then HonestTooSlow else SpamStateTooHigh)"
proof (cases "23 \<le> unat bits")
  case True
  then show ?thesis using honest_too_slow [OF True]
    by (simp add: spam_row_def spam_verdict_def Let_def word_le_nat_alt)
next
  case False
  then show ?thesis using honest_fast [of "unat bits"] spam_state_high [of "unat bits"]
    by (simp add: spam_row_def spam_verdict_def Let_def word_le_nat_alt)
qed

text \<open>C34. The simulation runs to its end without a panic, with the floating-point rounding of every step.  None of the five
  difficulties is workable: the verdict is that honest users are too slow from 23 bits on and that spam state is too high below; the
  emission parameters that it derives from its targets are exactly 6341958, 1585489 and 126144000; the six
  years of its table have emissions between tail and start and inflation between 0.35 and 2 per cent, and from
  line to line neither rises; the issuance lines carry one figure for every transaction count.\<close>

theorem sim_main_report:
  "\<exists>spam years revenue issued. sim_main = Some (AssumptionLine (Fin (10 ^ 6)) (Fin (10 ^ 9)) 128 # spam
      @ (ParamsLine 6341958 1585489 126144000 31536000 100000000 # years @ revenue)
      @ map (\<lambda>c. IssuanceLine c 1000 issued) [0, 1000, 1000000, 1000000000])
    \<and> list_all2 (\<lambda>bits l. \<exists>h t b. l = SpamLine bits h t b (if 23 \<le> bits then HonestTooSlow else SpamStateTooHigh)) [8, 12, 16, 20, 24] spam
    \<and> list_all2 (\<lambda>y l. \<exists>e r. l = YearLine y e (Fin r) \<and> 1585489 \<le> e \<and> e \<le> 6341958 \<and> 35 / 100 \<le> r \<and> r \<le> 2)
        [0, 1, 2, 4, 8, 20] years
    \<and> sorted_wrt falls years"
proof -
  obtain years revenue where em: "emission_analysis = Some (ParamsLine 6341958 1585489 126144000 31536000 100000000 # years @ revenue)"
      "list_all2 (year_line (10 ^ 16)) shown_years years" "sorted_wrt falls years" using emission_analysis_lines by blast
  obtain issued where mint: "mint_farming_check = Some (map (\<lambda>c. IssuanceLine c 1000 issued) [0, 1000, 1000000, 1000000000])"
    using mint_farming_lines by blast
  have line: "\<exists>e r. l = YearLine y e (Fin r) \<and> 1585489 \<le> e \<and> e \<le> 6341958 \<and> 35 / 100 \<le> r \<and> r \<le> 2" if l: "year_line (10 ^ 16) y l" for y l
  proof -
    obtain e s where e: "l = YearLine y e (Fin (infl (unat e) s))" "unat e = year_emission (unat y)" "10 ^ 16 \<le> s" "s \<le> 14221 * 10 ^ 12"
      using l by (auto simp: year_line_def)
    note E = year_emission_bounds [of "unat y", folded e(2)]
    show ?thesis using e(1) E infl_bounds [OF E e(3,4)] by (simp add: word_le_nat_alt)
  qed
  have "list_all2 (\<lambda>y l. \<exists>e r. l = YearLine y e (Fin r) \<and> 1585489 \<le> e \<and> e \<le> 6341958 \<and> 35 / 100 \<le> r \<and> r \<le> 2) shown_years years"
    using em(2) by (rule list_all2_mono) (rule line)
  moreover have "list_all2 (\<lambda>bits l. \<exists>h t b. l = SpamLine bits h t b (if 23 \<le> bits then HonestTooSlow else SpamStateTooHigh))
      [8, 12, 16, 20, 24] (map spam_row [8, 12, 16, 20, 24])"
    by (simp only: list.map list_all2_Cons list_all2_Nil) (intro conjI TrueI spam_verdict_exact; simp)
  moreover have "spam_analysis = AssumptionLine (Fin (10 ^ 6)) (Fin (10 ^ 9)) 128 # map spam_row [8, 12, 16, 20, 24]"
    by (simp add: spam_analysis_def PHONE_HASHES_PER_SEC_def GPU_HASHES_PER_SEC_def STATE_BYTES_PER_TX_def)
  ultimately show ?thesis
    using em(3) unfolding sim_main_def em(1) mint shown_years_def bind.bind_lunit Let_def
    by (intro exI [of _ "map spam_row [8, 12, 16, 20, 24]"] exI [of _ years] exI [of _ revenue] exI [of _ issued] conjI) simp_all
qed

text \<open>The mint-farming claim of the simulation holds of the ledger: on every chain with positive validator
  weight the supply is the genesis supply and the figure that the simulation computes for the chain's
  parameters and height, so two chains with the same genesis notes, parameters and height have the same supply,
  whatever transactions they carry.\<close>

theorem issuance_independent_of_txs:
  assumes "chain B V gs L hist" and "length (lg_validators L) < 2 ^ 64" and "0 < validator_weight L"
    and "chain B' V' gs L' hist'" and "length (lg_validators L') < 2 ^ 64" and "0 < validator_weight L'"
    and "lg_emission L' = lg_emission L" and "lg_height L' = lg_height L"
  shows "\<exists>issued. issuance_lines (lg_emission L) (lg_height L) counts = Some (map (\<lambda>c. IssuanceLine c (lg_height L) issued) counts)
    \<and> unat (total_supply L) = sum_list (map (\<lambda>g. unat (snd g)) gs) + unat issued \<and> total_supply L' = total_supply L"
proof -
  let ?G = "sum_list (map (\<lambda>g. unat (snd g)) gs)"
  obtain issued where i: "issued_over (lg_emission L) (lg_height L) = Some issued"
      "add_or_panic (word_of_nat ?G) issued = Some (lg_supply L)"
    using chain_audit [OF assms(1-3)] by (auto simp: audit_supply_def issued_over_def bind_eq_Some_conv simp del: upt_Suc)
  have G: "?G \<le> unat (lg_supply L)" using chain_supply [OF assms(1,2)] by simp
  then have "unat (word_of_nat ?G :: u64) = ?G" using unat_u64_less [of "lg_supply L"] by (intro unat_word_of_nat_less) simp
  then have "unat (total_supply L) = ?G + unat issued" using add_or_panic_unat [OF i(2)] by (simp add: total_supply_def)
  moreover have "unat (lg_supply L') = unat (lg_supply L)"
    using chain_supply [OF assms(1,2)] chain_supply [OF assms(4,5)] assms(3,6-8) by simp
  then have "total_supply L' = total_supply L" by (simp add: total_supply_def word_unat_eq_iff)
  ultimately show ?thesis using i(1) by (auto simp: issuance_lines_def)
qed

lemma issuance_independent_of_txs_witness:
  "\<exists>L L' tx. chain zero_hash (dev_verify zero_hash) sample_notes L [tx] \<and> chain zero_hash (dev_verify zero_hash) sample_notes L' []
     \<and> unat (lg_height L) = 1 \<and> unat (lg_height L') = 1 \<and> total_supply L' = total_supply L"
proof -
  obtain L S where L: "apply_checkpoint zero_hash sample_ledger [sample_ledger_tx] (dev_verify zero_hash) = Some (L, S)"
      "chain zero_hash (dev_verify zero_hash) sample_notes L [sample_ledger_tx]" by (rule sample_step)
  obtain L' S' where L': "apply_checkpoint zero_hash sample_ledger [] (dev_verify zero_hash) = Some (L', S')"
    using checkpoint_total [of sample_ledger "[]" zero_hash "dev_verify zero_hash"]
    by (auto simp: sample_ledger_simps sample_emission_def quota_reduced_def qr_new_def)
  have "accepted_by [] S' = []" by (simp add: accepted_by_def)
  then have chain': "chain zero_hash (dev_verify zero_hash) sample_notes L' []"
    using chain_step [OF chain_genesis [OF sample_genesis] _ L'] by simp
  note eqs = checkpoint_supply(1-3) [OF L(1)] checkpoint_supply(1-3) [OF L']
  have h: "unat (lg_height L) = 1" "unat (lg_height L') = 1" using eqs by (simp_all add: sample_ledger_simps)
  then have "lg_height L' = lg_height L" by (simp add: word_unat_eq_iff)
  then have "total_supply L' = total_supply L"
    using issuance_independent_of_txs [OF L(2) _ _ chain', of "[]"] eqs by (auto simp: sample_ledger_simps validator_weight_def)
  then show ?thesis using L(2) chain' h by blast
qed

end
