(* ===== verification/Circuit_Bench.thy ===== *)
theory Circuit_Bench
  imports Float64
begin

text \<open>
  \<^verbatim>\<open>bench/circuit-bench\<close>: the proving benchmark.  The STARK library, the serialiser and the
  random generator are the parameter \<open>stark_lib\<close>, one field for each call of the source; the
  monotonic clock is the parameter \<open>clock\<close>, whose \<open>i\<close>-th reading is in nanoseconds, and the state
  of a run is the number of readings made.  A panic is \<open>None\<close>.  A printed line keeps its values and
  drops its wording and column widths.
\<close>

section \<open>The library\<close>

record ('rng, 'perm, 'hash, 'compress, 'mmcs, 'cmmcs, 'fri, 'dft, 'pcs, 'challenger, 'config, 'input, 'trace, 'proof, 'err) stark_lib =
  seed_from_u64 :: "u64 \<Rightarrow> 'rng"
  perm_from_rng_128 :: "'rng \<Rightarrow> 'perm \<times> 'rng"
  hash_new :: "'perm \<Rightarrow> 'hash"
  compress_new :: "'perm \<Rightarrow> 'compress"
  val_mmcs_new :: "'hash \<Rightarrow> 'compress \<Rightarrow> nat \<Rightarrow> 'mmcs"
  challenge_mmcs_new :: "'mmcs \<Rightarrow> 'cmmcs"
  fri_new_benchmark :: "'cmmcs \<Rightarrow> 'fri"
  dft_default :: "'dft"
  pcs_new :: "'dft \<Rightarrow> 'mmcs \<Rightarrow> 'fri \<Rightarrow> 'pcs"
  challenger_new :: "'perm \<Rightarrow> 'challenger"
  config_new :: "'pcs \<Rightarrow> 'challenger \<Rightarrow> 'config"
  rng_random :: "'rng \<Rightarrow> 'input \<times> 'rng"
  generate_trace_rows :: "'input list \<Rightarrow> nat \<Rightarrow> 'trace"
  stark_prove :: "'config \<Rightarrow> 'trace \<Rightarrow> 'proof option"
  stark_verify :: "'config \<Rightarrow> 'proof \<Rightarrow> 'err + unit"
  to_allocvec :: "'proof \<Rightarrow> 'err + bytes"

section \<open>One measurement\<close>

definition HASHES_PER_SPEND :: nat where "HASHES_PER_SPEND = 40"

record BenchResult =
  br_num_hashes :: nat
  br_prove_ms :: nat
  br_verify_ms :: nat
  br_proof_bytes :: nat

definition config where
  "config S rng =
     (let (perm, rng) = perm_from_rng_128 S rng;
          hash = hash_new S perm;
          compress = compress_new S perm;
          val_mmcs = val_mmcs_new S hash compress 0;
          challenge_mmcs = challenge_mmcs_new S val_mmcs;
          fri_params = fri_new_benchmark S challenge_mmcs;
          pcs = pcs_new S (dft_default S) val_mmcs fri_params
      in (config_new S pcs (challenger_new S perm), rng))"

text \<open>\<^verbatim>\<open>Instant::elapsed\<close> saturates at zero, and \<^verbatim>\<open>as_millis\<close> drops the fraction.\<close>

definition elapsed_ms :: "nat \<Rightarrow> nat \<Rightarrow> nat" where
  "elapsed_ms t now = (now - t) div 1000000"

text \<open>The inputs of the trace: the generator is drawn from in order.\<close>

fun draw where
  "draw S rng 0 = []"
| "draw S rng (Suc n) = (let (x, rng) = rng_random S rng in x # draw S rng n)"

definition bench_run where
  "bench_run S (clock :: nat \<Rightarrow> nat) i num_hashes =
     do { let rng = seed_from_u64 S 1;
          let (cfg, rng) = config S rng;
          let fri_log_blowup = 1;
          let inputs = draw S rng num_hashes;
          let trace = generate_trace_rows S inputs fri_log_blowup;
          let t0 = clock i;
          proof \<leftarrow> stark_prove S cfg trace;
          let prove_ms = elapsed_ms t0 (clock (i + 1));
          proof_vec \<leftarrow> expect (to_allocvec S proof);
          let t1 = clock (i + 2);
          _ \<leftarrow> expect (stark_verify S cfg proof);
          let verify_ms = elapsed_ms t1 (clock (i + 3));
          Some (\<lparr>br_num_hashes = num_hashes, br_prove_ms = prove_ms, br_verify_ms = verify_ms,
                 br_proof_bytes = length proof_vec\<rparr>, i + 4) }"

section \<open>The sweep\<close>

datatype BenchLine =
    ResultLine nat nat nat nat
  | RawLine f64 nat
  | FindingsLine nat f64

definition f64_of_nat :: "nat \<Rightarrow> f64" where
  "f64_of_nat n = f64_round (of_nat n)"

text \<open>The loop over the sizes, with the last quotient, the last result and the clock.\<close>

fun bench_loop where
  "bench_loop S clock i per_hash_ms last_r [] = Some ([], per_hash_ms, last_r)"
| "bench_loop S clock i per_hash_ms last_r (n # ns) =
     do { (r, i) \<leftarrow> bench_run S clock i n;
          (rows, per_hash_ms, last_r) \<leftarrow>
            bench_loop S clock i (f64_div (f64_of_nat (br_prove_ms r)) (f64_of_nat (br_num_hashes r))) (Some r) ns;
          Some (ResultLine (br_num_hashes r) (br_prove_ms r) (br_verify_ms r) (br_proof_bytes r div 1024) # rows,
                per_hash_ms, last_r) }"

definition bench_sizes :: "nat list" where
  "bench_sizes = [16, 64, 256, 1024, 4096]"

definition bench_main where
  "bench_main S clock =
     do { (rows, per_hash_ms, last_r) \<leftarrow> bench_loop S clock 0 (Fin 0) None bench_sizes;
          Some (rows @ (case last_r of
              Some r \<Rightarrow> [RawLine per_hash_ms (br_proof_bytes r div 1024),
                         FindingsLine (br_proof_bytes r div 1024) (f64_mul per_hash_ms (f64_of_nat HASHES_PER_SPEND))]
            | None \<Rightarrow> [])) }"

section \<open>When a measurement returns\<close>

text \<open>The configuration and the proof of the workload of a size, as the run computes them.\<close>

definition bench_config where
  "bench_config S = fst (config S (seed_from_u64 S 1))"

definition bench_proof where
  "bench_proof S n =
     stark_prove S (bench_config S) (generate_trace_rows S (draw S (snd (config S (seed_from_u64 S 1))) n) 1)"

definition bench_passes where
  "bench_passes S n =
     (\<exists>p bs. bench_proof S n = Some p \<and> to_allocvec S p = Inr bs \<and> stark_verify S (bench_config S) p = Inr ())"

definition proof_size where
  "proof_size S n =
     (case bench_proof S n of Some p \<Rightarrow> (case to_allocvec S p of Inr bs \<Rightarrow> length bs | Inl e \<Rightarrow> 0) | None \<Rightarrow> 0)"

lemma bench_run_passes:
  "bench_passes S n \<Longrightarrow> bench_run S clock i n =
     Some (\<lparr>br_num_hashes = n, br_prove_ms = elapsed_ms (clock i) (clock (i + 1)),
            br_verify_ms = elapsed_ms (clock (i + 2)) (clock (i + 3)), br_proof_bytes = proof_size S n\<rparr>, i + 4)"
  by (auto simp: bench_run_def bench_passes_def bench_proof_def bench_config_def proof_size_def expect_def split: prod.splits)

lemma bench_run_panics: "\<not> bench_passes S n \<Longrightarrow> bench_run S clock i n = None"
  by (auto simp: bench_run_def bench_passes_def bench_proof_def bench_config_def expect_def Let_def
      split: prod.splits sum.splits Option.bind_splits)

lemma bench_loop_None_iff:
  "bench_loop S clock i q r ns = None \<longleftrightarrow> (\<exists>n \<in> set ns. \<not> bench_passes S n)"
proof (induction ns arbitrary: i q r)
  case (Cons n ns)
  have "bench_loop S clock i q r (n # ns) = None \<longleftrightarrow>
      (case bench_run S clock i n of None \<Rightarrow> True | Some (r, j) \<Rightarrow>
         bench_loop S clock j (f64_div (f64_of_nat (br_prove_ms r)) (f64_of_nat (br_num_hashes r))) (Some r) ns = None)"
    by (auto split: Option.bind_splits option.splits prod.splits)
  with Cons show ?case
    by (cases "bench_passes S n") (simp_all add: bench_run_passes bench_run_panics)
qed simp

text \<open>The benchmark panics exactly when a proof of its workload cannot be made, serialised or verified.\<close>

lemma bench_main_None_iff:
  "bench_main S clock = None \<longleftrightarrow> (\<exists>n \<in> set bench_sizes. \<not> bench_passes S n)"
  by (auto simp: bench_main_def simp flip: bench_loop_None_iff [of S clock 0 "Fin 0" None] split: Option.bind_splits)

section \<open>The extrapolation is exact\<close>

text \<open>
  The last size is a power of two: up to a prove time of \<open>2 ^ 53 div 40\<close> milliseconds neither the
  quotient per hash nor its product with \<^verbatim>\<open>HASHES_PER_SPEND\<close> is rounded.
\<close>

lemma f64_of_nat_exact: "n \<le> 2 ^ 53 \<Longrightarrow> f64_of_nat n = Fin (of_nat n)"
  using f64_round_int [of "int n"] by (simp add: f64_of_nat_def)

lemma representable_quotient: "n \<le> 2 ^ 53 \<Longrightarrow> k \<le> 1074 \<Longrightarrow> representable (of_nat n / 2 ^ k)"
  unfolding representable_def by (rule exI [of _ "int n"], rule exI [of _ "- int k"]) (simp add: power_int_minus divide_inverse)

lemma f64_round_quotient:
  assumes "n \<le> 2 ^ 53" and "k \<le> 1074"
  shows "f64_round (of_nat n / 2 ^ k) = Fin (of_nat n / 2 ^ k)"
proof -
  have "(of_nat n :: rat) / 2 ^ k \<le> of_nat n" using divide_left_mono [of 1 "2 ^ k" "of_nat n :: rat"] by simp
  also have "(of_nat n :: rat) \<le> of_nat (2 ^ 53)" using assms(1) by (simp only: of_nat_le_iff)
  finally have "f64_round (of_nat n / 2 ^ k) = Fin (round_rat (of_nat n / 2 ^ k))"
    by (intro f64_round_small) auto
  then show ?thesis
    using round_rat_representable [OF representable_quotient [OF assms]] by simp
qed

lemma extrapolation_exact:
  assumes "40 * ms \<le> 2 ^ 53"
  shows "f64_div (f64_of_nat ms) (f64_of_nat 4096) = Fin (of_nat ms / 4096)"
    and "f64_mul (Fin (of_nat ms / 4096)) (f64_of_nat HASHES_PER_SPEND) = Fin (of_nat (40 * ms) / 4096)"
  using f64_round_quotient [of ms 12] f64_round_quotient [of "40 * ms" 12] assms
  by (simp_all add: f64_of_nat_exact HASHES_PER_SPEND_def field_simps)

lemma bench_main_report:
  assumes passes: "\<forall>n \<in> set bench_sizes. bench_passes S n" and ms: "40 * elapsed_ms (clock 16) (clock 17) \<le> 2 ^ 53"
  shows "bench_main S clock =
    Some (map (\<lambda>k. ResultLine (bench_sizes ! k) (elapsed_ms (clock (4 * k)) (clock (4 * k + 1)))
                 (elapsed_ms (clock (4 * k + 2)) (clock (4 * k + 3))) (proof_size S (bench_sizes ! k) div 1024)) [0 ..< 5]
      @ [RawLine (Fin (of_nat (elapsed_ms (clock 16) (clock 17)) / 4096)) (proof_size S 4096 div 1024),
         FindingsLine (proof_size S 4096 div 1024) (Fin (of_nat (40 * elapsed_ms (clock 16) (clock 17)) / 4096))])"
proof -
  have five: "[0 ..< 5] = [0, 1, 2, 3, 4 :: nat]" by (simp add: upt_rec)
  have "bench_run S clock i n = Some (\<lparr>br_num_hashes = n, br_prove_ms = elapsed_ms (clock i) (clock (i + 1)),
      br_verify_ms = elapsed_ms (clock (i + 2)) (clock (i + 3)), br_proof_bytes = proof_size S n\<rparr>, i + 4)"
    if "n \<in> {16, 64, 256, 1024, 4096}" for i n
    using passes that by (intro bench_run_passes) (auto simp: bench_sizes_def)
  then show ?thesis
    using extrapolation_exact [OF ms] unfolding five by (simp add: bench_main_def bench_sizes_def)
qed

section \<open>The test\<close>

definition small_proof_roundtrips where
  "small_proof_roundtrips S clock =
     do { (r, _) \<leftarrow> bench_run S clock 0 4;
          assert (br_proof_bytes r > 0);
          assert (br_num_hashes r = 4) }"

text \<open>It passes exactly when a proof of four permutations is made, serialised to at least one byte and verified.\<close>

lemma small_proof_roundtrips_iff:
  "small_proof_roundtrips S clock = Some () \<longleftrightarrow> bench_passes S 4 \<and> 0 < proof_size S 4"
  by (cases "bench_passes S 4") (auto simp: small_proof_roundtrips_def bench_run_passes bench_run_panics assert_def)

end
