(* ===== verification/Ledger_Tests.thy ===== *)
theory Ledger_Tests
  imports Lifecycle
begin

text \<open>
  The test module of \<^verbatim>\<open>crates/state\<close>: its fixtures and its tests as definitions over the model, where
  a test that panics or fails an assertion is \<open>None\<close>.  BLAKE3 stays a parameter, so that a test
  becomes a statement on every hash function with 32-byte digests.
\<close>

section \<open>Fixtures\<close>

definition state_params :: "EmissionParams option" where
  "state_params = em_new 1000 100 50"

definition state_validators :: "ValidatorInfo list" where
  "state_validators = [\<lparr>vi_weight = 1, vi_addr_tag = replicate 32 200\<rparr>]"

definition state_genesis :: "blake3 \<Rightarrow> Ledger option" where
  "state_genesis B =
     do { params \<leftarrow> state_params;
          genesis B params state_validators 0 [(Commitment (replicate 32 1), 5000)] }"

definition state_dev_tx :: "blake3 \<Rightarrow> Anchor \<Rightarrow> u8 \<Rightarrow> u8 \<Rightarrow> TxV1 option" where
  "state_dev_tx B anchor nf_a nf_b =
     do { let enc = \<lparr>eo_bytes = replicate ENC_OUTPUT_LEN 0\<rparr>;
          let nfs = [Nullifier (replicate 32 nf_a), Nullifier (replicate 32 nf_b)];
          let cms = [Commitment (replicate 32 10), Commitment (replicate 32 11)];
          let tx = \<lparr>tx_anchor = anchor, tx_nullifiers = nfs, tx_commitments = cms, tx_enc_outputs = [enc, enc],
                    tx_antispam = LanePow \<lparr>pow_nonce = 0\<rparr>, tx_proof = replicate PROOF_BUCKET 0\<rparr>;
          let pi = \<lparr>pi_anchor = anchor, pi_nullifiers = nfs, pi_commitments = cms,
                    pi_binding_digest = binding_digest B tx, pi_mint_value = 0\<rparr>;
          let proof = vec_resize PROOF_BUCKET 0 (hash_parts B DEV_PROOF [pi_encode pi]);
          let tx = tx\<lparr>tx_proof := proof\<rparr>;
          sol \<leftarrow> solve B (binding_digest B tx) 0;
          Some (tx\<lparr>tx_antispam := LanePow sol\<rparr>) }"

definition state_quota_tx :: "blake3 \<Rightarrow> Anchor \<Rightarrow> u8 \<Rightarrow> u8 \<Rightarrow> QuotaNote \<Rightarrow> u64 \<Rightarrow> u64 \<Rightarrow> TxV1 option" where
  "state_quota_tx B anchor nf_a nf_b qn epoch k =
     do { let enc = \<lparr>eo_bytes = replicate ENC_OUTPUT_LEN 0\<rparr>;
          let nfs = [Nullifier (replicate 32 nf_a), Nullifier (replicate 32 nf_b)];
          let cms = [Commitment (replicate 32 20), Commitment (replicate 32 21)];
          let tx = \<lparr>tx_anchor = anchor, tx_nullifiers = nfs, tx_commitments = cms, tx_enc_outputs = [enc, enc],
                    tx_antispam = LanePow \<lparr>pow_nonce = 0\<rparr>, tx_proof = replicate PROOF_BUCKET 0\<rparr>;
          let binding = binding_digest B tx;
          rp \<leftarrow> expect (signal B qn epoch k binding);
          let tx = tx\<lparr>tx_antispam := LaneQuota rp\<rparr>;
          let pi = \<lparr>pi_anchor = anchor, pi_nullifiers = nfs, pi_commitments = cms,
                    pi_binding_digest = binding, pi_mint_value = 0\<rparr>;
          let proof = vec_resize PROOF_BUCKET 0 (hash_parts B DEV_PROOF [pi_encode pi]);
          Some (tx\<lparr>tx_proof := proof\<rparr>) }"

section \<open>Tests\<close>

definition quota_lane_admits_then_rejects_slot_reuse :: "blake3 \<Rightarrow> unit option" where
  "quota_lane_admits_then_rejects_slot_reuse B =
     do { led \<leftarrow> state_genesis B;
          let qn = \<lparr>qn_stake = 5000, qn_quota_key = replicate 32 77\<rparr>;
          tx \<leftarrow> state_quota_tx B (current_anchor B led) 1 2 qn (current_epoch led) 0;
          (led, s) \<leftarrow> apply_checkpoint B led [tx] (dev_verify B);
          assert (cs_accepted s = 1);
          tx2 \<leftarrow> state_quota_tx B (current_anchor B led) 3 4 qn (current_epoch led) 0;
          (led, s2) \<leftarrow> apply_checkpoint B led [tx2] (dev_verify B);
          assert (cs_accepted s2 = 0);
          r \<leftarrow> index_or_panic (cs_rejected s2) 0;
          assert (snd r = QuotaRejected) }"

definition quota_wrong_epoch_rejected :: "blake3 \<Rightarrow> unit option" where
  "quota_wrong_epoch_rejected B =
     do { led \<leftarrow> state_genesis B;
          let qn = \<lparr>qn_stake = 5000, qn_quota_key = replicate 32 88\<rparr>;
          tx \<leftarrow> state_quota_tx B (current_anchor B led) 5 6 qn 999 0;
          (led, s) \<leftarrow> apply_checkpoint B led [tx] (dev_verify B);
          assert (cs_accepted s = 0);
          r \<leftarrow> index_or_panic (cs_rejected s) 0;
          assert (snd r = QuotaRejected) }"

definition reward_minting_increases_supply_and_audits :: "blake3 \<Rightarrow> unit option" where
  "reward_minting_increases_supply_and_audits B =
     do { led \<leftarrow> state_genesis B;
          assert (total_supply led = 5000);
          (led, s1) \<leftarrow> apply_checkpoint B led [] (dev_verify B);
          assert (cs_height s1 = 1);
          params \<leftarrow> state_params;
          e \<leftarrow> emission_at params 1;
          expected \<leftarrow> add_or_panic 5000 e;
          assert (cs_total_supply s1 = expected);
          (led, _) \<leftarrow> apply_checkpoint B led [] (dev_verify B);
          ok \<leftarrow> audit_supply led 5000;
          assert ok }"

definition double_spend_rejected_within_and_across_checkpoints :: "blake3 \<Rightarrow> unit option" where
  "double_spend_rejected_within_and_across_checkpoints B =
     do { led \<leftarrow> state_genesis B;
          tx \<leftarrow> state_dev_tx B (current_anchor B led) 1 2;
          (led, summary) \<leftarrow> apply_checkpoint B led [tx, tx] (dev_verify B);
          assert (cs_accepted summary = 1);
          assert (cs_rejected summary = [(1, DoubleSpend)]);
          tx2 \<leftarrow> state_dev_tx B (current_anchor B led) 1 2;
          (led, summary2) \<leftarrow> apply_checkpoint B led [tx2] (dev_verify B);
          assert (cs_accepted summary2 = 0);
          assert (cs_rejected summary2 = [(0, DoubleSpend)]) }"

definition stale_anchor_rejected :: "blake3 \<Rightarrow> unit option" where
  "stale_anchor_rejected B =
     do { led \<leftarrow> state_genesis B;
          tx \<leftarrow> state_dev_tx B \<lparr>anc_height = 999, anc_root = replicate 32 42\<rparr> 1 2;
          (led, summary) \<leftarrow> apply_checkpoint B led [tx] (dev_verify B);
          assert (cs_rejected summary = [(0, StaleOrUnknownAnchor)]) }"

definition replay_build :: "blake3 \<Rightarrow> bytes option" where
  "replay_build B =
     do { led \<leftarrow> state_genesis B;
          let a = current_anchor B led;
          t1 \<leftarrow> state_dev_tx B a 1 2;
          t2 \<leftarrow> state_dev_tx B a 3 4;
          (led, _) \<leftarrow> apply_checkpoint B led [t1, t2] (dev_verify B);
          Some (anc_root (current_anchor B led)) }"

definition deterministic_replay :: "blake3 \<Rightarrow> unit option" where
  "deterministic_replay B =
     do { r1 \<leftarrow> replay_build B; r2 \<leftarrow> replay_build B; assert (r1 = r2) }"

text \<open>
  The store lives in a file: \<open>after db\<close> is the database library once the file holds \<open>db\<close>, so that the
  second \<^verbatim>\<open>Store::open\<close> sees what the first process wrote.
\<close>

definition persist_and_restore_roundtrips ::
  "blake3 \<Rightarrow> ('db, 'txn, 'snap) redb \<Rightarrow> ('db \<Rightarrow> ('db, 'txn, 'snap) redb) \<Rightarrow> (Nullifier set \<Rightarrow> Nullifier list) \<Rightarrow> string \<Rightarrow> unit option" where
  "persist_and_restore_roundtrips B R after iter path =
     do { led \<leftarrow> state_genesis B;
          t1 \<leftarrow> state_dev_tx B (current_anchor B led) 1 2;
          (led, _) \<leftarrow> apply_checkpoint B led [t1] (dev_verify B);
          t2 \<leftarrow> state_dev_tx B (current_anchor B led) 3 4;
          (led, _) \<leftarrow> apply_checkpoint B led [t2] (dev_verify B);
          let (root, height, sup) = (anc_root (current_anchor B led), lg_height led, total_supply led);
          store \<leftarrow> expect (store_open R path);
          file \<leftarrow> expect (persist R iter led store);
          store \<leftarrow> expect (store_open (after file) path);
          params \<leftarrow> state_params;
          restored \<leftarrow> expect (restore B (after file) store params state_validators 0);
          assert (lg_height restored = height);
          assert (total_supply restored = sup);
          assert (anc_root (current_anchor B restored) = root);
          assert (nullifier_seen restored (Nullifier (replicate 32 1)));
          assert (nullifier_seen restored (Nullifier (replicate 32 3)));
          assert (\<not> nullifier_seen restored (Nullifier (replicate 32 9)));
          t3 \<leftarrow> state_dev_tx B (current_anchor B restored) 1 2;
          (restored, summary) \<leftarrow> apply_checkpoint B restored [t3] (dev_verify B);
          assert (cs_accepted summary = 0);
          r \<leftarrow> index_or_panic (cs_rejected summary) 0;
          assert (snd r = DoubleSpend) }"

section \<open>Transactions with a forged development proof\<close>

text \<open>The shape of every test transaction: valid for the development verifier, spending nothing real.\<close>

definition forged_tx :: "blake3 \<Rightarrow> Anchor \<Rightarrow> Nullifier list \<Rightarrow> Commitment list \<Rightarrow> bytes \<Rightarrow> AntiSpam \<Rightarrow> TxV1" where
  "forged_tx B anchor nfs cms e a =
     (let tx = \<lparr>tx_anchor = anchor, tx_nullifiers = nfs, tx_commitments = cms, tx_enc_outputs = [\<lparr>eo_bytes = e\<rparr>, \<lparr>eo_bytes = e\<rparr>],
                tx_antispam = a, tx_proof = []\<rparr>
      in tx\<lparr>tx_proof := vec_resize PROOF_BUCKET 0 (dev_tag B (to_public_inputs B tx))\<rparr>)"

lemma forged_tx_simps [simp]:
  "tx_anchor (forged_tx B anchor nfs cms e a) = anchor" "tx_nullifiers (forged_tx B anchor nfs cms e a) = nfs"
  "tx_commitments (forged_tx B anchor nfs cms e a) = cms" "tx_antispam (forged_tx B anchor nfs cms e a) = a"
  "tx_enc_outputs (forged_tx B anchor nfs cms e a) = [\<lparr>eo_bytes = e\<rparr>, \<lparr>eo_bytes = e\<rparr>]"
  by (simp_all add: forged_tx_def Let_def)

lemma forged_tx_valid:
  assumes "digest32 B" and "nf_bytes n0 < nf_bytes n1"
    and "\<And>rp. a = LaneQuota rp \<Longrightarrow> rp_x rp = message_x B (binding_digest B (forged_tx B anchor [n0, n1] cms e a))"
  shows "validate_stateless B (forged_tx B anchor [n0, n1] cms e a) (dev_verify B) 0 = Inr ()"
proof -
  have "to_public_inputs B (forged_tx B anchor [n0, n1] cms e a)
      = to_public_inputs B \<lparr>tx_anchor = anchor, tx_nullifiers = [n0, n1], tx_commitments = cms,
          tx_enc_outputs = [\<lparr>eo_bytes = e\<rparr>, \<lparr>eo_bytes = e\<rparr>], tx_antispam = a, tx_proof = []\<rparr>"
    by (simp add: to_public_inputs_def binding_digest_def binding_parts_def)
  then have "dev_verify B (to_public_inputs B (forged_tx B anchor [n0, n1] cms e a)) (tx_proof (forged_tx B anchor [n0, n1] cms e a)) = Inr ()"
    using assms(1) by (simp add: dev_verify_Inr_iff dev_proof_eq forged_tx_def Let_def)
  moreover have "length (tx_proof (forged_tx B anchor [n0, n1] cms e a)) = PROOF_BUCKET"
    using assms(1) by (simp add: forged_tx_def Let_def dev_proof_eq length_dev_tag) (simp add: PROOF_BUCKET_def)
  ultimately show ?thesis using assms(2,3) by (simp add: validate_stateless_ok_iff split: AntiSpam.split)
qed

lemma forged_tx_wf:
  assumes "wf_anchor anchor" and "wf_nf n0" and "wf_nf n1" and "wf_cm c0" and "wf_cm c1" and "length e = ENC_OUTPUT_LEN"
    and "wf_antispam a"
  shows "wf_tx_body (forged_tx B anchor [n0, n1] [c0, c1] e a)"
  using assms by (simp add: wf_tx_body_def interface_consts)

lemma state_dev_tx_eq:
  "state_dev_tx B anchor nf_a nf_b = Some (forged_tx B anchor [Nullifier (replicate 32 nf_a), Nullifier (replicate 32 nf_b)]
     [Commitment (replicate 32 10), Commitment (replicate 32 11)] (replicate ENC_OUTPUT_LEN 0) (LanePow \<lparr>pow_nonce = 0\<rparr>))"
  by (simp add: state_dev_tx_def forged_tx_def dev_tag_def to_public_inputs_def binding_digest_def binding_parts_def Let_def)

lemma state_quota_tx_eq:
  assumes "k < quota qn"
  obtains rp where "state_quota_tx B anchor nf_a nf_b qn epoch k = Some (forged_tx B anchor
      [Nullifier (replicate 32 nf_a), Nullifier (replicate 32 nf_b)]
      [Commitment (replicate 32 20), Commitment (replicate 32 21)] (replicate ENC_OUTPUT_LEN 0) (LaneQuota rp))"
    "rp_epoch rp = epoch" "rp_rate_nullifier rp = rate_nullifier B qn epoch k" "uint (rp_y rp) < p61"
    "rp_x rp = message_x B (binding_digest B (forged_tx B anchor
      [Nullifier (replicate 32 nf_a), Nullifier (replicate 32 nf_b)]
      [Commitment (replicate 32 20), Commitment (replicate 32 21)] (replicate ENC_OUTPUT_LEN 0) (LaneQuota rp)))"
proof -
  define m where "m = binding_digest B \<lparr>tx_anchor = anchor, tx_nullifiers = [Nullifier (replicate 32 nf_a), Nullifier (replicate 32 nf_b)],
    tx_commitments = [Commitment (replicate 32 20), Commitment (replicate 32 21)],
    tx_enc_outputs = [\<lparr>eo_bytes = replicate ENC_OUTPUT_LEN 0\<rparr>, \<lparr>eo_bytes = replicate ENC_OUTPUT_LEN 0\<rparr>],
    tx_antispam = LanePow \<lparr>pow_nonce = 0\<rparr>, tx_proof = replicate PROOF_BUCKET 0\<rparr>"
  obtain rp where rp: "signal B qn epoch k m = Inr rp" using assms by (simp add: signal_Inr_iff)
  show thesis
  proof (rule that [of rp])
    show "state_quota_tx B anchor nf_a nf_b qn epoch k = Some (forged_tx B anchor
      [Nullifier (replicate 32 nf_a), Nullifier (replicate 32 nf_b)]
      [Commitment (replicate 32 20), Commitment (replicate 32 21)] (replicate ENC_OUTPUT_LEN 0) (LaneQuota rp))"
      using rp unfolding m_def
      by (simp add: state_quota_tx_def forged_tx_def dev_tag_def to_public_inputs_def binding_digest_def binding_parts_def Let_def)
  qed (use rp in \<open>auto simp: signal_Inr_iff m_def binding_digest_def binding_parts_def gf61.rep_add\<close>)
qed

section \<open>Ledgers of the tests\<close>

text \<open>The verdicts of a checkpoint without quota transactions, as a function.\<close>

fun pow_verdicts :: "(Anchor \<Rightarrow> bool) \<Rightarrow> (TxV1 \<Rightarrow> bool) \<Rightarrow> Nullifier set \<Rightarrow> TxV1 list \<Rightarrow> RejectReason option list" where
  "pow_verdicts a s spent [] = []"
| "pow_verdicts a s spent (tx # txs) =
     (if \<not> a (tx_anchor tx) then Some StaleOrUnknownAnchor # pow_verdicts a s spent txs
      else if \<not> s tx then Some StatelessInvalid # pow_verdicts a s spent txs
      else if set (tx_nullifiers tx) \<inter> spent \<noteq> {} then Some DoubleSpend # pow_verdicts a s spent txs
      else None # pow_verdicts a s (spent \<union> set (tx_nullifiers tx)) txs)"

lemma judge_pow:
  "judge a s e spent txs vs \<Longrightarrow> \<forall>tx \<in> set txs. \<exists>sol. tx_antispam tx = LanePow sol \<Longrightarrow> vs = pow_verdicts a s spent txs"
  by (induction rule: judge.induct) auto

text \<open>A ledger reached by \<open>n\<close> checkpoints from a genesis with the schedule and the one validator of the tests.\<close>

definition fixture :: "blake3 \<Rightarrow> (Commitment \<times> u64) list \<Rightarrow> nat \<Rightarrow> Ledger \<Rightarrow> bool" where
  "fixture B gs n L \<longleftrightarrow> (\<exists>hist. chain B (dev_verify B) gs L hist) \<and> unat (lg_height L) = n
     \<and> lg_emission L = sample_emission \<and> length (lg_validators L) = 1 \<and> validator_weight L = 1 \<and> lg_difficulty_bits L = 0
     \<and> quota_reduced (lg_quota L) \<and> unat (lg_supply L) \<le> 1000000 + 1000 * n"

definition test_tx :: "TxV1 \<Rightarrow> bool" where
  "test_tx tx \<longleftrightarrow> wf_tx_body tx \<and> (\<forall>rp. tx_antispam tx = LaneQuota rp \<longrightarrow> uint (rp_y rp) < p61)"

lemma fixture_checkpoint:
  assumes fx: "fixture B gs n L" and "n < 100" and txs: "\<forall>tx \<in> set txs. test_tx tx"
  obtains L' S vs where "apply_checkpoint B L txs (dev_verify B) = Some (L', S)" "fixture B gs (Suc n) L'"
    "judge (lg_anchor_valid L) (\<lambda>tx. validate_stateless B tx (dev_verify B) 0 = Inr ()) (lg_height L' div EPOCH_LENGTH)
       (lg_nullifiers L) txs vs"
    "cs_rejected S = rejections 0 vs" "cs_accepted S = length (accepted_txs vs txs)"
    "lg_nullifiers L' = lg_nullifiers L \<union> set (concat (map tx_nullifiers (accepted_txs vs txs)))"
    "cs_height S = lg_height L'" "cs_total_supply S = lg_supply L'"
    "unat (lg_supply L') = unat (lg_supply L) + emission_or_0 sample_emission (Suc n)"
    "cs_anchor S = current_anchor B L'"
proof -
  have L: "unat (lg_height L) = n" "lg_emission L = sample_emission" "length (lg_validators L) = 1" "validator_weight L = 1"
      "lg_difficulty_bits L = 0" "quota_reduced (lg_quota L)" "unat (lg_supply L) \<le> 1000000 + 1000 * n"
    using fx by (auto simp: fixture_def)
  obtain hist where chain: "chain B (dev_verify B) gs L hist" using fx by (auto simp: fixture_def)
  note inv = chain_inv [OF chain]
  obtain L' S where step: "apply_checkpoint B L txs (dev_verify B) = Some (L', S)"
    using checkpoint_total [of L txs B "dev_verify B"] L assms(2) txs by (auto simp: sample_emission_def test_tx_def)
  obtain nh st where st: "process_txs B (dev_verify B) L nh 0 txs (staging_init L) = Some st" "lg_quota L' = st_quota st"
      "lg_difficulty_bits L' = lg_difficulty_bits L" "cs_height S = nh" "lg_height L' = nh" "cs_total_supply S = lg_supply L'"
    by (rule checkpoint_steps [OF step])
  have red: "quota_reduced (lg_quota L')"
    using process_txs_total [of "staging_init L" txs B "dev_verify B" L nh 0] L(6) txs st(1,2)
    by (auto simp: staging_init_def test_tx_def)
  obtain vs ns where spec: "checkpoint_spec B (stateless_ok B (dev_verify B) L) (view L) txs vs ns (view L')"
      "cs_rejected S = rejections 0 vs" "cs_accepted S = length (accepted_txs vs txs)" "cs_anchor S = current_anchor B L'"
    using checkpoint_refines [OF step inv] by blast
  note sup = checkpoint_supply [OF step]
  have "unat (lg_height L') = Suc n" using sup(3) L(1,3) by simp
  moreover have grow: "unat (lg_supply L') = unat (lg_supply L) + emission_or_0 sample_emission (Suc n)"
    using sup(5) L calculation by simp
  moreover have "emission_or_0 sample_emission (Suc n) \<le> 1000"
    using emission_at_eq [of sample_emission "word_of_nat (Suc n)"] emission_nat_bounds(2) [of 100 1000]
    by (auto simp: emission_or_0_def sample_emission_def)
  moreover have "\<exists>hist. chain B (dev_verify B) gs L' hist"
    using chain_step [OF chain _ step] txs by (auto simp: test_tx_def)
  ultimately have fx': "fixture B gs (Suc n) L'" using L red st(3) sup(1,2) by (simp add: fixture_def validator_weight_def)
  have valid: "lg_anchor_valid L = (\<lambda>a. a \<in> set (ct_anchors (lg_tree L)))"
    by (auto simp: lg_anchor_valid_def ct_anchor_valid_def list_ex_iff fun_eq_iff)
  have "judge (lg_anchor_valid L) (stateless_ok B (dev_verify B) L) (lg_height L' div EPOCH_LENGTH) (lg_nullifiers L) txs vs"
      "lg_nullifiers L' = lg_nullifiers L \<union> set (concat (map tx_nullifiers (accepted_txs vs txs)))"
    using spec(1) fx' by (simp_all add: checkpoint_spec_def view_def valid fixture_def)
  with that [OF step fx' _ spec(2,3) _ _ st(6) grow spec(4)] st(4,5) L(5) show thesis by simp
qed

lemma fixture_pow:
  assumes "fixture B gs n L" and "n < 100" and "\<forall>tx \<in> set txs. wf_tx_body tx \<and> (\<exists>sol. tx_antispam tx = LanePow sol)"
    and vs: "vs = pow_verdicts (lg_anchor_valid L) (\<lambda>tx. validate_stateless B tx (dev_verify B) 0 = Inr ()) (lg_nullifiers L) txs"
  obtains L' S where "apply_checkpoint B L txs (dev_verify B) = Some (L', S)" "fixture B gs (Suc n) L'"
    "cs_rejected S = rejections 0 vs" "cs_accepted S = length (accepted_txs vs txs)"
    "lg_nullifiers L' = lg_nullifiers L \<union> set (concat (map tx_nullifiers (accepted_txs vs txs)))"
    "cs_anchor S = current_anchor B L'"
proof -
  have txs: "\<forall>tx \<in> set txs. test_tx tx" using assms(3) by (auto simp: test_tx_def)
  obtain L' S vs' where step: "apply_checkpoint B L txs (dev_verify B) = Some (L', S)" "fixture B gs (Suc n) L'"
    "judge (lg_anchor_valid L) (\<lambda>tx. validate_stateless B tx (dev_verify B) 0 = Inr ()) (lg_height L' div EPOCH_LENGTH)
       (lg_nullifiers L) txs vs'"
    "cs_rejected S = rejections 0 vs'" "cs_accepted S = length (accepted_txs vs' txs)"
    "lg_nullifiers L' = lg_nullifiers L \<union> set (concat (map tx_nullifiers (accepted_txs vs' txs)))" "cs_anchor S = current_anchor B L'"
    by (rule fixture_checkpoint [OF assms(1,2) txs])
  moreover have "vs' = vs" using judge_pow [OF step(3)] assms(3) by (simp add: vs)
  ultimately show thesis using that by simp
qed

text \<open>A checkpoint with one quota transaction follows the registry.\<close>

lemma fixture_quota:
  assumes fx: "fixture B gs n L" and "n < 100" and tx: "test_tx tx" "tx_antispam tx = LaneQuota rp"
    and ok: "lg_anchor_valid L (tx_anchor tx)" "validate_stateless B tx (dev_verify B) 0 = Inr ()" "set (tx_nullifiers tx) \<inter> lg_nullifiers L = {}"
  obtains L' S reg verdict where "apply_checkpoint B L [tx] (dev_verify B) = Some (L', S)" "fixture B gs (Suc n) L'"
    "quota_check (word_of_nat (Suc n)) (LaneQuota rp) (lg_quota L) = Some (reg, verdict)" "lg_quota L' = reg"
    "cs_accepted S = (if verdict then 1 else 0)" "cs_rejected S = (if verdict then [] else [(0, QuotaRejected)])"
    "lg_nullifiers L' = (if verdict then lg_nullifiers L \<union> set (tx_nullifiers tx) else lg_nullifiers L)"
proof -
  obtain L' S vs where step: "apply_checkpoint B L [tx] (dev_verify B) = Some (L', S)" "fixture B gs (Suc n) L'"
    by (rule fixture_checkpoint [OF fx assms(2), of "[tx]"]) (use tx(1) in simp)
  obtain nh st where st: "process_txs B (dev_verify B) L nh 0 [tx] (staging_init L) = Some st" "lg_height L' = nh"
      "lg_nullifiers L' = lg_nullifiers L \<union> set (st_staged_nf st)" "lg_quota L' = st_quota st"
      "cs_accepted S = st_accepted st" "cs_rejected S = st_rejected st"
    by (rule checkpoint_steps [OF step(1)])
  have un: "unat nh = Suc n" using step(2) st(2) by (simp add: fixture_def)
  have "word_of_nat (unat nh) = nh" by simp
  then have nh: "nh = word_of_nat (Suc n)" by (simp only: un)
  have d: "lg_difficulty_bits L = 0" using fx by (simp add: fixture_def)
  have "\<not> list_ex (\<lambda>nf. nf \<in> lg_nullifiers L \<or> nf \<in> st_seen (staging_init L)) (tx_nullifiers tx)"
    using ok(3) by (auto simp: list_ex_iff staging_init_def)
  then obtain reg verdict where q: "quota_check nh (LaneQuota rp) (lg_quota L) = Some (reg, verdict)"
      "st = (if verdict then accept tx (staging_init L\<lparr>st_quota := reg\<rparr>) else reject 0 QuotaRejected (staging_init L\<lparr>st_quota := reg\<rparr>))"
    using st(1) ok d tx(2)
    by (auto simp: process_tx_def lg_anchor_valid_def bind_eq_Some_conv staging_init_def split: if_splits)
  with that [OF step, of reg verdict] st nh show thesis by (simp add: accept_def reject_def staging_init_def)
qed

lemma state_genesis_ok:
  obtains L where "state_genesis B = Some L" "fixture B sample_notes 0 L" "lg_nullifiers L = {}" "lg_quota L = qr_new"
    "lg_supply L = 5000" "lg_height L = 0" "lg_validators L = state_validators" "length (ct_leaves (lg_tree L)) = 1"
proof -
  obtain L where L: "genesis B sample_emission state_validators 0 sample_notes = Some L"
    by (simp add: genesis_def sample_notes_def add_or_panic_def)
  have f: "lg_nullifiers L = {}" "lg_quota L = qr_new" "lg_supply L = 5000" "lg_height L = 0" "lg_difficulty_bits L = 0"
      "lg_emission L = sample_emission" "lg_validators L = state_validators"
    using L by (auto simp: genesis_def sample_notes_def add_or_panic_def)
  moreover have "\<exists>hist. chain B (dev_verify B) sample_notes L hist" using chain_genesis [OF L] by blast
  ultimately have "fixture B sample_notes 0 L"
    by (simp add: fixture_def validator_weight_def state_validators_def quota_reduced_def qr_new_def)
  moreover have "state_genesis B = Some L"
    using L by (simp add: state_genesis_def state_params_def em_new_def sample_emission_def sample_notes_def)
  moreover have "length (ct_leaves (lg_tree L)) = 1"
    using genesis_view(1) [OF L] by (simp add: view_def sample_notes_def)
  ultimately show thesis using that f by blast
qed

lemma fixture_anchor:
  "fixture B gs n L \<Longrightarrow> lg_anchor_valid L (current_anchor B L)"
  "fixture B gs n L \<Longrightarrow> digest32 B \<Longrightarrow> wf_anchor (current_anchor B L)"
  using anchor_of_inv chain_inv unfolding fixture_def by blast+

text \<open>The transactions of the tests, by the marks of their nullifiers.\<close>

definition state_tx :: "blake3 \<Rightarrow> Anchor \<Rightarrow> u8 \<Rightarrow> u8 \<Rightarrow> TxV1" where
  "state_tx B anchor a b = the (state_dev_tx B anchor a b)"

lemma state_tx:
  "state_dev_tx B anchor a b = Some (state_tx B anchor a b)"
  "tx_anchor (state_tx B anchor a b) = anchor"
  "tx_nullifiers (state_tx B anchor a b) = [Nullifier (replicate 32 a), Nullifier (replicate 32 b)]"
  "\<exists>sol. tx_antispam (state_tx B anchor a b) = LanePow sol"
  "digest32 B \<Longrightarrow> a < b \<Longrightarrow> validate_stateless B (state_tx B anchor a b) (dev_verify B) 0 = Inr ()"
  "wf_anchor anchor \<Longrightarrow> wf_tx_body (state_tx B anchor a b)"
  by (auto simp: state_tx_def state_dev_tx_eq replicate_less wf_nf_def wf_cm_def wf_antispam_def intro: forged_tx_valid forged_tx_wf)

section \<open>The tests pass\<close>

lemma stale_anchor_test: "stale_anchor_rejected B = Some ()"
proof -
  obtain L where L: "state_genesis B = Some L" "fixture B sample_notes 0 L" "lg_height L = 0" by (rule state_genesis_ok)
  let ?a = "\<lparr>anc_height = 999, anc_root = replicate 32 42\<rparr>" and ?ok = "\<lambda>tx. validate_stateless B tx (dev_verify B) 0 = Inr ()"
  let ?t = "state_tx B ?a 1 2"
  have txs: "\<forall>tx \<in> set [?t]. wf_tx_body tx \<and> (\<exists>sol. tx_antispam tx = LanePow sol)"
    by (simp add: state_tx wf_anchor_def)
  have "ledger_inv B L" using L(2) chain_inv unfolding fixture_def by blast
  then have "map (\<lambda>a. unat (anc_height a)) (ct_anchors (lg_tree L)) = [0]" using L(3) by (simp add: ledger_inv_def)
  then have "\<not> lg_anchor_valid L ?a" by (auto simp: lg_anchor_valid_def ct_anchor_valid_def list_ex_iff)
  then have vs: "[Some StaleOrUnknownAnchor] = pow_verdicts (lg_anchor_valid L) ?ok (lg_nullifiers L) [?t]"
    by (simp add: state_tx)
  obtain L' S where "apply_checkpoint B L [?t] (dev_verify B) = Some (L', S)" "cs_rejected S = rejections 0 [Some StaleOrUnknownAnchor]"
    by (rule fixture_pow [OF L(2) _ txs vs]) simp
  then show ?thesis using L(1) by (simp add: stale_anchor_rejected_def state_tx)
qed

lemma double_spend_test:
  assumes B: "digest32 B"
  shows "double_spend_rejected_within_and_across_checkpoints B = Some ()"
proof -
  obtain L where L: "state_genesis B = Some L" "fixture B sample_notes 0 L" "lg_nullifiers L = {}" by (rule state_genesis_ok)
  let ?ok = "\<lambda>tx. validate_stateless B tx (dev_verify B) 0 = Inr ()"
  let ?t = "state_tx B (current_anchor B L) 1 2"
  have txs: "\<forall>tx \<in> set [?t, ?t]. wf_tx_body tx \<and> (\<exists>sol. tx_antispam tx = LanePow sol)"
    by (simp add: state_tx fixture_anchor(2) [OF L(2) B])
  have vs: "[None, Some DoubleSpend] = pow_verdicts (lg_anchor_valid L) ?ok (lg_nullifiers L) [?t, ?t]"
    using B by (simp add: state_tx L(3) fixture_anchor(1) [OF L(2)])
  obtain L1 S where 1: "apply_checkpoint B L [?t, ?t] (dev_verify B) = Some (L1, S)" "fixture B sample_notes (Suc 0) L1"
      "cs_rejected S = rejections 0 [None, Some DoubleSpend]" "cs_accepted S = length (accepted_txs [None, Some DoubleSpend] [?t, ?t])"
      "lg_nullifiers L1 = lg_nullifiers L \<union> set (concat (map tx_nullifiers (accepted_txs [None, Some DoubleSpend] [?t, ?t])))"
    by (rule fixture_pow [OF L(2) _ txs vs]) simp
  let ?t2 = "state_tx B (current_anchor B L1) 1 2"
  have txs2: "\<forall>tx \<in> set [?t2]. wf_tx_body tx \<and> (\<exists>sol. tx_antispam tx = LanePow sol)"
    by (simp add: state_tx fixture_anchor(2) [OF 1(2) B])
  have vs2: "[Some DoubleSpend] = pow_verdicts (lg_anchor_valid L1) ?ok (lg_nullifiers L1) [?t2]"
    using B by (simp add: state_tx 1(5) fixture_anchor(1) [OF 1(2)])
  obtain L2 S2 where 2: "apply_checkpoint B L1 [?t2] (dev_verify B) = Some (L2, S2)"
      "cs_rejected S2 = rejections 0 [Some DoubleSpend]" "cs_accepted S2 = length (accepted_txs [Some DoubleSpend] [?t2])"
    by (rule fixture_pow [OF 1(2) _ txs2 vs2]) simp
  show ?thesis
    using L(1) 1(1,3,4) 2 by (simp add: double_spend_rejected_within_and_across_checkpoints_def state_tx)
qed

lemma deterministic_replay_test:
  assumes B: "digest32 B"
  shows "deterministic_replay B = Some ()"
proof -
  obtain L where L: "state_genesis B = Some L" "fixture B sample_notes 0 L" by (rule state_genesis_ok)
  let ?t = "state_tx B (current_anchor B L)"
  have txs: "\<forall>tx \<in> set [?t 1 2, ?t 3 4]. wf_tx_body tx \<and> (\<exists>sol. tx_antispam tx = LanePow sol)"
    by (simp add: state_tx fixture_anchor(2) [OF L(2) B])
  obtain L1 S where "apply_checkpoint B L [?t 1 2, ?t 3 4] (dev_verify B) = Some (L1, S)"
    by (rule fixture_pow [OF L(2) _ txs refl]) simp
  then have "replay_build B = Some (anc_root (current_anchor B L1))" using L(1) by (simp add: replay_build_def state_tx)
  then show ?thesis by (simp add: deterministic_replay_def)
qed

lemma sample_emission_1: "emission_at sample_emission 1 = Some 991"
  by (simp add: emission_at_def sample_emission_def sub_or_panic_def decay_factor_def SCALE_def add_or_panic_def)

lemma reward_minting_test: "reward_minting_increases_supply_and_audits B = Some ()"
proof -
  obtain L where L: "state_genesis B = Some L" "fixture B sample_notes 0 L" "lg_supply L = 5000" by (rule state_genesis_ok)
  have none: "\<forall>tx \<in> set []. test_tx tx" by simp
  obtain L1 S1 where 1: "apply_checkpoint B L [] (dev_verify B) = Some (L1, S1)" "fixture B sample_notes (Suc 0) L1"
      "cs_height S1 = lg_height L1" "cs_total_supply S1 = lg_supply L1"
      "unat (lg_supply L1) = unat (lg_supply L) + emission_or_0 sample_emission (Suc 0)"
    by (rule fixture_checkpoint [OF L(2) _ none]) simp
  obtain L2 S2 where 2: "apply_checkpoint B L1 [] (dev_verify B) = Some (L2, S2)" "fixture B sample_notes (Suc (Suc 0)) L2"
    by (rule fixture_checkpoint [OF 1(2) _ none]) simp
  have "unat (lg_height L1) = unat (1 :: u64)" using 1(2) by (simp add: fixture_def)
  then have "lg_height L1 = 1" by (rule word_unat_eq_iff [THEN iffD2])
  have "unat (lg_supply L1) = unat (5991 :: u64)" using 1(5) by (simp add: emission_or_0_def sample_emission_1 L(3))
  then have "lg_supply L1 = 5991" by (rule word_unat_eq_iff [THEN iffD2])
  moreover have "audit_supply L2 5000 = Some True"
    using 2(2) chain_audit [of B "dev_verify B" sample_notes L2] by (auto simp: fixture_def sample_notes_def)
  ultimately show ?thesis
    using L(1,3) 1(1,3,4) 2(1) \<open>lg_height L1 = 1\<close> sample_emission_1
    by (simp add: reward_minting_increases_supply_and_audits_def total_supply_def state_params_def em_new_def sample_emission_def add_or_panic_def)
qed

text \<open>A quota transaction of the tests is well-formed and valid for the current anchor.\<close>

lemma state_quota_tx:
  assumes fx: "fixture B gs n L" and B: "digest32 B" and "k < quota qn" and "a < b"
  obtains tx rp where "state_quota_tx B (current_anchor B L) a b qn epoch k = Some tx" "tx_antispam tx = LaneQuota rp"
    "rp_epoch rp = epoch" "rp_rate_nullifier rp = rate_nullifier B qn epoch k"
    "tx_nullifiers tx = [Nullifier (replicate 32 a), Nullifier (replicate 32 b)]"
    "test_tx tx" "lg_anchor_valid L (tx_anchor tx)" "validate_stateless B tx (dev_verify B) 0 = Inr ()"
proof -
  let ?tx = "\<lambda>rp. forged_tx B (current_anchor B L) [Nullifier (replicate 32 a), Nullifier (replicate 32 b)]
      [Commitment (replicate 32 20), Commitment (replicate 32 21)] (replicate ENC_OUTPUT_LEN 0) (LaneQuota rp)"
  obtain rp where rp: "state_quota_tx B (current_anchor B L) a b qn epoch k = Some (?tx rp)" "rp_epoch rp = epoch"
      "rp_rate_nullifier rp = rate_nullifier B qn epoch k" "uint (rp_y rp) < p61" "rp_x rp = message_x B (binding_digest B (?tx rp))"
    by (rule state_quota_tx_eq [OF assms(3)])
  have "wf_tx_body (?tx rp)"
    using rp(3) B fixture_anchor(2) [OF fx B]
    by (intro forged_tx_wf) (simp_all add: wf_nf_def wf_cm_def wf_antispam_def rate_nullifier_def)
  then have "test_tx (?tx rp)" using rp(4) by (simp add: test_tx_def)
  moreover have "validate_stateless B (?tx rp) (dev_verify B) 0 = Inr ()"
    using rp(5) B assms(4) by (intro forged_tx_valid) (auto simp: replicate_less)
  ultimately show thesis using that [OF rp(1) _ rp(2,3)] fixture_anchor(1) [OF fx] by simp
qed

lemma quota_wrong_epoch_test:
  assumes B: "digest32 B"
  shows "quota_wrong_epoch_rejected B = Some ()"
proof -
  obtain L where L: "state_genesis B = Some L" "fixture B sample_notes 0 L" "lg_nullifiers L = {}" by (rule state_genesis_ok)
  let ?qn = "\<lparr>qn_stake = 5000, qn_quota_key = replicate 32 88\<rparr>"
  have q: "0 < quota ?qn" and less: "(5 :: u8) < 6" by (simp_all add: quota_def STAKE_PER_SLOT_def)
  obtain tx rp where tx: "state_quota_tx B (current_anchor B L) 5 6 ?qn 999 0 = Some tx" "tx_antispam tx = LaneQuota rp"
      "rp_epoch rp = 999" "test_tx tx" "lg_anchor_valid L (tx_anchor tx)" "validate_stateless B tx (dev_verify B) 0 = Inr ()"
    by (rule state_quota_tx [OF L(2) B q less])
  have fresh: "set (tx_nullifiers tx) \<inter> lg_nullifiers L = {}" by (simp add: L(3))
  obtain L1 S reg v where 1: "apply_checkpoint B L [tx] (dev_verify B) = Some (L1, S)"
      "quota_check (word_of_nat (Suc 0)) (LaneQuota rp) (lg_quota L) = Some (reg, v)"
      "cs_accepted S = (if v then 1 else 0)" "cs_rejected S = (if v then [] else [(0, QuotaRejected)])"
    by (rule fixture_quota [OF L(2) _ tx(4,2,5,6) fresh]) simp
  have "\<not> v" using 1(2) by (simp add: quota_check_def tx(3) EPOCH_LENGTH_def)
  then show ?thesis using L(1) tx(1) 1(1,3,4) by (simp add: quota_wrong_epoch_rejected_def Let_def index_or_panic_def)
qed

lemma quota_slot_reuse_test:
  assumes B: "digest32 B"
  shows "quota_lane_admits_then_rejects_slot_reuse B = Some ()"
proof -
  obtain L where L: "state_genesis B = Some L" "fixture B sample_notes 0 L" "lg_nullifiers L = {}" "lg_quota L = qr_new" "lg_height L = 0"
    by (rule state_genesis_ok)
  let ?qn = "\<lparr>qn_stake = 5000, qn_quota_key = replicate 32 77\<rparr>"
  have q: "0 < quota ?qn" and less: "(1 :: u8) < 2" "(3 :: u8) < 4" by (simp_all add: quota_def STAKE_PER_SLOT_def)
  obtain tx rp where tx: "state_quota_tx B (current_anchor B L) 1 2 ?qn 0 0 = Some tx" "tx_antispam tx = LaneQuota rp"
      "rp_epoch rp = 0" "rp_rate_nullifier rp = rate_nullifier B ?qn 0 0"
      "tx_nullifiers tx = [Nullifier (replicate 32 1), Nullifier (replicate 32 2)]"
      "test_tx tx" "lg_anchor_valid L (tx_anchor tx)" "validate_stateless B tx (dev_verify B) 0 = Inr ()"
    by (rule state_quota_tx [OF L(2) B q less(1)])
  have fresh: "set (tx_nullifiers tx) \<inter> lg_nullifiers L = {}" by (simp add: L(3))
  obtain L1 S reg v where 1: "apply_checkpoint B L [tx] (dev_verify B) = Some (L1, S)" "fixture B sample_notes (Suc 0) L1"
      "quota_check (word_of_nat (Suc 0)) (LaneQuota rp) (lg_quota L) = Some (reg, v)" "lg_quota L1 = reg"
      "cs_accepted S = (if v then 1 else 0)"
      "lg_nullifiers L1 = (if v then lg_nullifiers L \<union> set (tx_nullifiers tx) else lg_nullifiers L)"
    by (rule fixture_quota [OF L(2) _ tx(6,2,7,8) fresh]) simp
  have v: v and seen: "qr_seen reg (0, rate_nullifier B ?qn 0 0) \<noteq> None"
    using 1(3) by (auto simp: quota_check_def tx(3,4) EPOCH_LENGTH_def L(4) qr_new_def admit_fresh)
  obtain tx2 rp2 where tx2: "state_quota_tx B (current_anchor B L1) 3 4 ?qn 0 0 = Some tx2" "tx_antispam tx2 = LaneQuota rp2"
      "rp_epoch rp2 = 0" "rp_rate_nullifier rp2 = rate_nullifier B ?qn 0 0"
      "tx_nullifiers tx2 = [Nullifier (replicate 32 3), Nullifier (replicate 32 4)]"
      "test_tx tx2" "lg_anchor_valid L1 (tx_anchor tx2)" "validate_stateless B tx2 (dev_verify B) 0 = Inr ()"
    by (rule state_quota_tx [OF 1(2) B q less(2)])
  have fresh2: "set (tx_nullifiers tx2) \<inter> lg_nullifiers L1 = {}" by (simp add: 1(6) L(3) tx(5) tx2(5))
  obtain L2 S2 reg2 v2 where 2: "apply_checkpoint B L1 [tx2] (dev_verify B) = Some (L2, S2)"
      "quota_check (word_of_nat (Suc (Suc 0))) (LaneQuota rp2) (lg_quota L1) = Some (reg2, v2)"
      "cs_accepted S2 = (if v2 then 1 else 0)" "cs_rejected S2 = (if v2 then [] else [(0, QuotaRejected)])"
    by (rule fixture_quota [OF 1(2) _ tx2(6,2,7,8) fresh2]) simp
  have "\<not> v2" using 2(2) seen
    by (auto simp: quota_check_def tx2(3,4) EPOCH_LENGTH_def 1(4) admit_AdmitOk_iff bind_eq_Some_conv)
  moreover have "unat (lg_height L1) = unat (1 :: u64)" using 1(2) by (simp add: fixture_def)
  then have "lg_height L1 = 1" by (rule word_unat_eq_iff [THEN iffD2])
  ultimately show ?thesis using L(1,5) tx(1) 1(1,5) v tx2(1) 2(1,3,4)
    by (simp add: quota_lane_admits_then_rejects_slot_reuse_def Let_def index_or_panic_def current_epoch_def EPOCH_LENGTH_def)
qed

section \<open>Reading a reopened file\<close>

lemma restore_contents:
  assumes "redb_ok R c wc sc" "readable R db" "redb_ok R2 c wc sc" "readable R2 db2" "c db2 = c db"
  shows "restore B R2 db2 em vs d = restore B R db em vs d"
proof -
  have "load_leaves R2 db2 = load_leaves R db"
  proof -
    obtain xs where xs: "sorted_wrt (<) (map fst xs)" "map_of xs = tb_leaves (c db)"
        "load_leaves R db = (if \<forall>x \<in> set xs. length (snd x) = 32 then Inr (map snd xs) else Inl (Db ''bad leaf length''))"
      using load_leaves_readable [OF assms(1,2)] by blast
    obtain ys where ys: "sorted_wrt (<) (map fst ys)" "map_of ys = tb_leaves (c db2)"
        "load_leaves R2 db2 = (if \<forall>x \<in> set ys. length (snd x) = 32 then Inr (map snd ys) else Inl (Db ''bad leaf length''))"
      using load_leaves_readable [OF assms(3,4)] by blast
    have "xs = ys" using sorted_alist_ext [OF xs(1) ys(1)] xs(2) ys(2) assms(5) by simp
    then show ?thesis using xs(3) ys(3) by simp
  qed
  moreover have "load_nullifiers R2 db2 = load_nullifiers R db"
  proof -
    obtain xs where xs: "sorted_wrt (<) (map fst xs)" "map_of xs = tb_nfs (c db)"
        "load_nullifiers R db = (if \<forall>x \<in> set xs. length (fst x) = 32 then Inr (map (\<lambda>x. Nullifier (fst x)) xs)
           else Inl (Db ''bad nullifier length''))"
      using load_nullifiers_readable [OF assms(1,2)] by blast
    obtain ys where ys: "sorted_wrt (<) (map fst ys)" "map_of ys = tb_nfs (c db2)"
        "load_nullifiers R2 db2 = (if \<forall>x \<in> set ys. length (fst x) = 32 then Inr (map (\<lambda>x. Nullifier (fst x)) ys)
           else Inl (Db ''bad nullifier length''))"
      using load_nullifiers_readable [OF assms(3,4)] by blast
    have "xs = ys" using sorted_alist_ext [OF xs(1) ys(1)] xs(2) ys(2) assms(5) by simp
    then show ?thesis using xs(3) ys(3) by simp
  qed
  ultimately show ?thesis
    by (simp add: restore_def load_tree_def meta_readable [OF assms(1,2)] meta_readable [OF assms(3,4)] assms(5))
qed

text \<open>One accepted transaction of the tests: the ledger grows by its nullifiers and by at most three leaves.\<close>

lemma state_tx_accepted:
  assumes fx: "fixture B gs n L" and n: "n < 100" and B: "digest32 B" and "a < b"
    and fresh: "{Nullifier (replicate 32 a), Nullifier (replicate 32 b)} \<inter> lg_nullifiers L = {}"
  obtains L' S where "apply_checkpoint B L [state_tx B (current_anchor B L) a b] (dev_verify B) = Some (L', S)"
    "fixture B gs (Suc n) L'" "lg_nullifiers L' = lg_nullifiers L \<union> {Nullifier (replicate 32 a), Nullifier (replicate 32 b)}"
    "lg_validators L' = lg_validators L" "length (ct_leaves (lg_tree L')) \<le> length (ct_leaves (lg_tree L)) + 3"
proof -
  let ?t = "state_tx B (current_anchor B L) a b" and ?ok = "\<lambda>tx. validate_stateless B tx (dev_verify B) 0 = Inr ()"
  have txs: "\<forall>tx \<in> set [?t]. wf_tx_body tx \<and> (\<exists>sol. tx_antispam tx = LanePow sol)"
    by (simp add: state_tx fixture_anchor(2) [OF fx B])
  have vs: "[None] = pow_verdicts (lg_anchor_valid L) ?ok (lg_nullifiers L) [?t]"
    using B fresh \<open>a < b\<close> by (simp add: state_tx fixture_anchor(1) [OF fx])
  obtain L' S where step: "apply_checkpoint B L [?t] (dev_verify B) = Some (L', S)" "fixture B gs (Suc n) L'"
      "lg_nullifiers L' = lg_nullifiers L \<union> set (concat (map tx_nullifiers (accepted_txs [None] [?t])))"
    by (rule fixture_pow [OF fx n txs vs])
  have one: "length (lg_validators L) = 1" and "ledger_inv B L" using fx chain_inv by (auto simp: fixture_def)
  then have "length (ct_leaves (lg_tree L')) \<le> length (ct_leaves (lg_tree L)) + 3"
    using checkpoint_growth [OF step(1)] txs by simp
  then show thesis using that [OF step(1,2)] step(3) checkpoint_supply(2) [OF step(1)] one by (simp add: state_tx)
qed

lemma restarted_rejects_replay:
  assumes fx: "fixture B gs n L" and n: "n < 100" and "a < b" and B: "digest32 B"
    and seen: "Nullifier (replicate 32 a) \<in> lg_nullifiers L"
  shows "\<exists>L' S. apply_checkpoint B (restarted B L) [state_tx B (current_anchor B L) a b] (dev_verify B) = Some (L', S)
    \<and> cs_accepted S = 0 \<and> cs_rejected S = [(0, DoubleSpend)]"
proof -
  let ?R = "restarted B L" and ?t = "state_tx B (current_anchor B L) a b"
  have lane: "\<exists>sol. tx_antispam ?t = LanePow sol" by (rule state_tx)
  have R: "lg_height ?R = lg_height L" "lg_emission ?R = lg_emission L" "lg_validators ?R = lg_validators L"
      "lg_supply ?R = lg_supply L" "lg_quota ?R = qr_new" "lg_nullifiers ?R = lg_nullifiers L"
      "lg_difficulty_bits ?R = lg_difficulty_bits L" "ct_anchor_valid (lg_tree ?R) (current_anchor B L)"
    by (simp_all add: restarted_def ct_anchor_valid_def)
  obtain L' S where step: "apply_checkpoint B ?R [?t] (dev_verify B) = Some (L', S)"
    using checkpoint_total [of ?R "[?t]" B "dev_verify B"] fx n lane
    by (auto simp: R fixture_def sample_emission_def quota_reduced_def qr_new_def)
  obtain nh st where st: "process_txs B (dev_verify B) ?R nh 0 [?t] (staging_init ?R) = Some st"
      "cs_accepted S = st_accepted st" "cs_rejected S = st_rejected st"
    by (rule checkpoint_steps [OF step])
  have "process_tx B (dev_verify B) ?R nh 0 ?t (staging_init ?R) = Some (reject 0 DoubleSpend (staging_init ?R))"
    using fx seen assms(3) B by (simp add: process_tx_def R state_tx fixture_def)
  then have "st = reject 0 DoubleSpend (staging_init ?R)" using st(1) by simp
  then show ?thesis using step st(2,3) by (simp add: reject_def staging_init_def)
qed

lemma persist_restore_test:
  assumes B: "digest32 B" and ok: "redb_ok R c wc sc" "\<forall>file. redb_ok (after file) c wc sc"
    and iter: "\<forall>N. finite N \<longrightarrow> set (iter N) = N" and fs: "files_ok R after c ex wx paths" and path: "path \<in> paths"
  shows "persist_and_restore_roundtrips B R after iter path = Some ()"
proof -
  obtain L where L: "state_genesis B = Some L" "fixture B sample_notes 0 L" "lg_nullifiers L = {}"
      "lg_validators L = state_validators" "length (ct_leaves (lg_tree L)) = 1"
    by (rule state_genesis_ok)
  let ?n = "\<lambda>i. Nullifier (replicate 32 i)"
  have less: "(1 :: u8) < 2" "(3 :: u8) < 4" by simp_all
  have f1: "{?n 1, ?n 2} \<inter> lg_nullifiers L = {}" by (simp add: L(3))
  obtain L1 S1 where 1: "apply_checkpoint B L [state_tx B (current_anchor B L) 1 2] (dev_verify B) = Some (L1, S1)"
      "fixture B sample_notes (Suc 0) L1" "lg_nullifiers L1 = lg_nullifiers L \<union> {?n 1, ?n 2}" "lg_validators L1 = lg_validators L"
      "length (ct_leaves (lg_tree L1)) \<le> length (ct_leaves (lg_tree L)) + 3"
    by (rule state_tx_accepted [OF L(2) _ B less(1) f1]) simp
  have f2: "{?n 3, ?n 4} \<inter> lg_nullifiers L1 = {}" by (simp add: 1(3) L(3))
  obtain L2 S2 where 2: "apply_checkpoint B L1 [state_tx B (current_anchor B L1) 3 4] (dev_verify B) = Some (L2, S2)"
      "fixture B sample_notes (Suc (Suc 0)) L2" "lg_nullifiers L2 = lg_nullifiers L1 \<union> {?n 3, ?n 4}" "lg_validators L2 = lg_validators L1"
      "length (ct_leaves (lg_tree L2)) \<le> length (ct_leaves (lg_tree L1)) + 3"
    by (rule state_tx_accepted [OF 1(2) _ B less(2) f2]) simp
  obtain hist where chain: "chain B (dev_verify B) sample_notes L2 hist" using 2(2) by (auto simp: fixture_def)
  have "length (ct_leaves (lg_tree L2)) \<le> 2 ^ 64" using 2(5) 1(5) L(5) by simp
  note sto = chain_storable [OF chain B sample_chain_shapes(1) this]
  have works: "redb_works R ex wx" "\<And>file. redb_works (after file) ex wx" using fs by (simp_all add: files_ok_def)
  obtain db where db: "store_open R path = Inr db" "c db = no_tables" using files_open(1) [OF fs path ok] by blast
  obtain fl where fl: "persist R iter L2 db = Inr fl" "ex fl = UNIV"
    using commit_checkpoint_works [OF works(1)] by (fastforce simp: persist_def Let_def)
  obtain store where st: "store_open (after fl) path = Inr store" "c store = c fl" "ex store = UNIV"
    using files_open(2) [OF fs path ok] by blast
  have f: "store_open R path = Inr db" "tb_leaves (c db) = Map.empty" "tb_nfs (c db) = Map.empty"
      "persist R iter L2 db = Inr fl" "readable R fl" "store_open (after fl) path = Inr store" "readable (after fl) store" "c store = c fl"
    using db fl st redb_worksE(7) [OF works(1) fl(2)] redb_worksE(7) [OF works(2) st(3)] by (simp_all add: no_tables_def)
  have "superseded (c db) L2" by (simp add: superseded_def f(2,3))
  moreover have "set (iter (lg_nullifiers L2)) = lg_nullifiers L2" using iter by (simp add: 2(3) 1(3) L(3))
  ultimately have "restore B R fl (lg_emission L2) (lg_validators L2) (lg_difficulty_bits L2) = Inr (restarted B L2)"
    by (rule restore_after_persist [OF ok(1) sto(2,1) _ _ f(4,5)])
  then have rest: "restore B (after fl) store sample_emission state_validators 0 = Inr (restarted B L2)"
    using restore_contents [OF ok(1) f(5) _ f(7,8)] ok(2) 2(2,4) 1(4) L(4) by (simp add: fixture_def)
  have "ct_root B (lg_tree (restarted B L2)) = ct_root B (lg_tree L2)"
    by (rule note_tree.root_cong) (use sto(2) in \<open>simp_all add: restarted_def wf_tree_def\<close>)
  then have anchor: "current_anchor B (restarted B L2) = current_anchor B L2" by (simp add: current_anchor_def restarted_def)
  obtain L3 S3 where 3: "apply_checkpoint B (restarted B L2) [state_tx B (current_anchor B L2) 1 2] (dev_verify B) = Some (L3, S3)"
      "cs_accepted S3 = 0" "cs_rejected S3 = [(0, DoubleSpend)]"
    using restarted_rejects_replay [OF 2(2) _ less(1) B] by (auto simp: 2(3) 1(3))
  have nfs: "lg_nullifiers (restarted B L2) = {?n 1, ?n 2, ?n 3, ?n 4}" "lg_height (restarted B L2) = lg_height L2"
      "lg_supply (restarted B L2) = lg_supply L2"
    by (auto simp: restarted_def 2(3) 1(3) L(3))
  have "state_params = Some sample_emission" by (simp add: state_params_def em_new_def sample_emission_def)
  note facts = this L(1) 1(1) 2(1) f(1,4,6) rest 3 anchor nfs
  show ?thesis
    unfolding persist_and_restore_roundtrips_def state_tx nullifier_seen_def total_supply_def index_or_panic_def
    by (simp add: facts)
qed

section \<open>The suite\<close>

definition state_tests ::
  "blake3 \<Rightarrow> ('db, 'txn, 'snap) redb \<Rightarrow> ('db \<Rightarrow> ('db, 'txn, 'snap) redb) \<Rightarrow> (Nullifier set \<Rightarrow> Nullifier list) \<Rightarrow> string \<Rightarrow> unit option list" where
  "state_tests B R after iter path =
     [quota_lane_admits_then_rejects_slot_reuse B, quota_wrong_epoch_rejected B, reward_minting_increases_supply_and_audits B,
      double_spend_rejected_within_and_across_checkpoints B, stale_anchor_rejected B,
      persist_and_restore_roundtrips B R after iter path, deterministic_replay B]"

lemma state_tests_ok:
  assumes "digest32 B" and "redb_ok R c wc sc" and "\<forall>file. redb_ok (after file) c wc sc"
    and "\<forall>N. finite N \<longrightarrow> set (iter N) = N" and "files_ok R after c ex wx paths" and "path \<in> paths"
  shows "list_all (\<lambda>t. t = Some ()) (state_tests B R after iter path)"
  using persist_restore_test [OF assms] assms(1)
  by (simp add: state_tests_def quota_slot_reuse_test quota_wrong_epoch_test reward_minting_test double_spend_test stale_anchor_test
      deterministic_replay_test)

end
