(* ===== verification/Consensus_Tests.thy ===== *)
theory Consensus_Tests
  imports Ledger_Tests Consensus
begin

unbundle bit_operations_syntax

text \<open>
  The test module of \<^verbatim>\<open>crates/consensus\<close>, as definitions over the model of the cluster; a test that panics
  or fails an assertion is \<open>None\<close>.  The tests pass when the binding digests of the transactions of one round are
  distinct, which is the only thing they ask of the hash.
\<close>

section \<open>Fixtures\<close>

definition consensus_params :: "EmissionParams option" where
  "consensus_params = em_new 1000 100 50"

definition consensus_validators :: "ValidatorInfo list" where
  "consensus_validators = [\<lparr>vi_weight = 1, vi_addr_tag = replicate 32 7\<rparr>]"

definition test_cluster :: "blake3 \<Rightarrow> nat \<Rightarrow> Cluster option" where
  "test_cluster B n =
     do { params \<leftarrow> consensus_params;
          cluster_new B n params consensus_validators 0 [(Commitment (replicate 32 1), 1000000)] }"

definition cluster_dev_tx :: "blake3 \<Rightarrow> Anchor \<Rightarrow> u8 \<Rightarrow> u8 \<Rightarrow> u8 \<Rightarrow> TxV1 option" where
  "cluster_dev_tx B anchor nf_a nf_b salt =
     do { let enc = \<lparr>eo_bytes = replicate ENC_OUTPUT_LEN salt\<rparr>;
          let nfs = [Nullifier (replicate 32 nf_a), Nullifier (replicate 32 nf_b)];
          let cms = [Commitment (replicate 32 salt), Commitment (replicate 32 (salt XOR 0xF0))];
          let tx = \<lparr>tx_anchor = anchor, tx_nullifiers = nfs, tx_commitments = cms, tx_enc_outputs = [enc, enc],
                    tx_antispam = LanePow \<lparr>pow_nonce = 0\<rparr>, tx_proof = replicate PROOF_BUCKET 0\<rparr>;
          let pi = \<lparr>pi_anchor = anchor, pi_nullifiers = nfs, pi_commitments = cms,
                    pi_binding_digest = binding_digest B tx, pi_mint_value = 0\<rparr>;
          let proof = vec_resize PROOF_BUCKET 0 (hash_parts B DEV_PROOF [pi_encode pi]);
          let tx = tx\<lparr>tx_proof := proof\<rparr>;
          sol \<leftarrow> solve B (binding_digest B tx) 0;
          Some (tx\<lparr>tx_antispam := LanePow sol\<rparr>) }"

section \<open>Tests\<close>

definition all_replicas_agree_and_audit :: "blake3 \<Rightarrow> unit option" where
  "all_replicas_agree_and_audit B =
     do { c \<leftarrow> test_cluster B 5;
          a \<leftarrow> cl_anchor B c;
          t1 \<leftarrow> cluster_dev_tx B a 1 2 10;
          t2 \<leftarrow> cluster_dev_tx B a 3 4 11;
          (c, outcome) \<leftarrow> commit_round B c [t1, t2] (dev_verify B);
          assert (ro_agreed outcome);
          assert (ro_accepted outcome = 2);
          ok \<leftarrow> cl_audit c;
          assert ok }"

definition submission_order_does_not_change_committed_state :: "blake3 \<Rightarrow> unit option" where
  "submission_order_does_not_change_committed_state B =
     do { let a_tx = (\<lambda>anchor. cluster_dev_tx B anchor 1 2 20);
          let b_tx = (\<lambda>anchor. cluster_dev_tx B anchor 3 4 21);
          c1 \<leftarrow> test_cluster B 1;
          an1 \<leftarrow> cl_anchor B c1;
          ta \<leftarrow> a_tx an1; tb \<leftarrow> b_tx an1;
          (c1, o1) \<leftarrow> commit_round B c1 [ta, tb] (dev_verify B);
          c2 \<leftarrow> test_cluster B 1;
          an2 \<leftarrow> cl_anchor B c2;
          tb \<leftarrow> b_tx an2; ta \<leftarrow> a_tx an2;
          (c2, o2) \<leftarrow> commit_round B c2 [tb, ta] (dev_verify B);
          assert (ro_root o1 = ro_root o2);
          assert (ro_accepted o1 = ro_accepted o2) }"

definition double_spend_has_exactly_one_winner_networkwide :: "blake3 \<Rightarrow> unit option" where
  "double_spend_has_exactly_one_winner_networkwide B =
     do { c \<leftarrow> test_cluster B 4;
          a \<leftarrow> cl_anchor B c;
          conflict_a \<leftarrow> cluster_dev_tx B a 9 10 30;
          conflict_b \<leftarrow> cluster_dev_tx B a 9 11 31;
          (c, outcome) \<leftarrow> commit_round B c [conflict_a, conflict_b] (dev_verify B);
          assert (ro_agreed outcome);
          assert (ro_accepted outcome = 1);
          assert (length (ro_rejected outcome) = 1);
          r \<leftarrow> index_or_panic (ro_rejected outcome) 0;
          assert (snd r = DoubleSpend) }"

definition spent_nullifier_cannot_be_replayed_next_round :: "blake3 \<Rightarrow> unit option" where
  "spent_nullifier_cannot_be_replayed_next_round B =
     do { c \<leftarrow> test_cluster B 3;
          a \<leftarrow> cl_anchor B c;
          t1 \<leftarrow> cluster_dev_tx B a 40 41 50;
          (c, first) \<leftarrow> commit_round B c [t1] (dev_verify B);
          assert (ro_accepted first = 1);
          assert (ro_agreed first);
          a2 \<leftarrow> cl_anchor B c;
          t2 \<leftarrow> cluster_dev_tx B a2 40 41 50;
          (c, replay) \<leftarrow> commit_round B c [t2] (dev_verify B);
          assert (ro_accepted replay = 0);
          r \<leftarrow> index_or_panic (ro_rejected replay) 0;
          assert (snd r = DoubleSpend);
          assert (ro_agreed replay) }"

definition partition_then_heal_converges :: "blake3 \<Rightarrow> unit option" where
  "partition_then_heal_converges B =
     do { healed \<leftarrow> test_cluster B 1;
          ha \<leftarrow> cl_anchor B healed;
          t1 \<leftarrow> cluster_dev_tx B ha 60 61 70;
          t2 \<leftarrow> cluster_dev_tx B ha 62 63 71;
          (healed, merged) \<leftarrow> commit_round B healed [t1, t2] (dev_verify B);
          assert (ro_accepted merged = 2);
          mirror \<leftarrow> test_cluster B 1;
          ma \<leftarrow> cl_anchor B mirror;
          t2 \<leftarrow> cluster_dev_tx B ma 62 63 71;
          t1 \<leftarrow> cluster_dev_tx B ma 60 61 70;
          (mirror, mirror_out) \<leftarrow> commit_round B mirror [t2, t1] (dev_verify B);
          assert (ro_root merged = ro_root mirror_out) }"

definition byzantine_invalid_proof_is_dropped_without_breaking_agreement :: "blake3 \<Rightarrow> unit option" where
  "byzantine_invalid_proof_is_dropped_without_breaking_agreement B =
     do { c \<leftarrow> test_cluster B 3;
          a \<leftarrow> cl_anchor B c;
          good \<leftarrow> cluster_dev_tx B a 80 81 90;
          bad \<leftarrow> cluster_dev_tx B a 82 83 91;
          p0 \<leftarrow> index_or_panic (tx_proof bad) 0;
          let bad = bad\<lparr>tx_proof := (tx_proof bad)[0 := p0 XOR 0xFF]\<rparr>;
          (c, outcome) \<leftarrow> commit_round B c [good, bad] (dev_verify B);
          assert (ro_agreed outcome);
          assert (ro_accepted outcome = 1);
          assert (list_ex (\<lambda>(_, r). r = StatelessInvalid) (ro_rejected outcome)) }"

section \<open>The transactions\<close>

definition cluster_tx :: "blake3 \<Rightarrow> Anchor \<Rightarrow> u8 \<Rightarrow> u8 \<Rightarrow> u8 \<Rightarrow> TxV1" where
  "cluster_tx B anchor a b salt = the (cluster_dev_tx B anchor a b salt)"

lemma cluster_dev_tx_eq:
  "cluster_dev_tx B anchor a b salt = Some (forged_tx B anchor [Nullifier (replicate 32 a), Nullifier (replicate 32 b)]
     [Commitment (replicate 32 salt), Commitment (replicate 32 (salt XOR 0xF0))] (replicate ENC_OUTPUT_LEN salt) (LanePow \<lparr>pow_nonce = 0\<rparr>))"
  by (simp add: cluster_dev_tx_def forged_tx_def dev_tag_def to_public_inputs_def binding_digest_def binding_parts_def Let_def)

lemma cluster_tx:
  "cluster_dev_tx B anchor a b salt = Some (cluster_tx B anchor a b salt)"
  "tx_anchor (cluster_tx B anchor a b salt) = anchor"
  "tx_nullifiers (cluster_tx B anchor a b salt) = [Nullifier (replicate 32 a), Nullifier (replicate 32 b)]"
  "\<exists>sol. tx_antispam (cluster_tx B anchor a b salt) = LanePow sol"
  "digest32 B \<Longrightarrow> a < b \<Longrightarrow> validate_stateless B (cluster_tx B anchor a b salt) (dev_verify B) 0 = Inr ()"
  "wf_anchor anchor \<Longrightarrow> wf_tx_body (cluster_tx B anchor a b salt)"
  by (auto simp: cluster_tx_def cluster_dev_tx_eq replicate_less wf_nf_def wf_cm_def wf_antispam_def intro: forged_tx_valid forged_tx_wf)

section \<open>Clusters of the tests\<close>

definition cluster_notes :: "(Commitment \<times> u64) list" where
  "cluster_notes = [(Commitment (replicate 32 1), 1000000)]"

definition replicas :: "blake3 \<Rightarrow> nat \<Rightarrow> nat \<Rightarrow> Ledger \<Rightarrow> Cluster \<Rightarrow> bool" where
  "replicas B n h L cl \<longleftrightarrow> 0 < n \<and> fixture B cluster_notes h L \<and> cl = \<lparr>cl_replicas = replicate n L, cl_genesis_supply = 1000000\<rparr>"

text \<open>All clusters start from one ledger.\<close>

lemma test_cluster_ok:
  obtains L where "\<forall>n > 0. \<exists>cl. test_cluster B n = Some cl \<and> replicas B n 0 L cl" "lg_nullifiers L = {}"
proof -
  obtain L where L: "genesis B sample_emission consensus_validators 0 cluster_notes = Some L"
    by (simp add: genesis_def cluster_notes_def add_or_panic_def)
  have f: "lg_nullifiers L = {}" "lg_quota L = qr_new" "lg_supply L = 1000000" "lg_height L = 0" "lg_difficulty_bits L = 0"
      "lg_emission L = sample_emission" "lg_validators L = consensus_validators"
    using L by (auto simp: genesis_def cluster_notes_def add_or_panic_def)
  moreover have "\<exists>hist. chain B (dev_verify B) cluster_notes L hist" using chain_genesis [OF L] by blast
  ultimately have "fixture B cluster_notes 0 L"
    by (simp add: fixture_def validator_weight_def consensus_validators_def quota_reduced_def qr_new_def)
  moreover have "test_cluster B n = Some \<lparr>cl_replicas = replicate n L, cl_genesis_supply = 1000000\<rparr>" for n
    using L by (simp add: test_cluster_def consensus_params_def em_new_def sample_emission_def cluster_new_def cluster_notes_def
        sum_or_panic_def add_or_panic_def those_replicate_Some)
  ultimately show thesis using that [of L] f(1) by (simp add: replicas_def)
qed

lemma replicas_anchor: "replicas B n h L cl \<Longrightarrow> cl_anchor B cl = Some (current_anchor B L)"
  by (auto simp: replicas_def cl_anchor_def index_or_panic_def)

lemma commit_round_eq:
  assumes "cl_replicas cl = replicate n L" and "0 < n" and "apply_checkpoint B L (commit_order B submitted) V = Some (L', S)"
  shows "commit_round B cl submitted V = Some (cl\<lparr>cl_replicas := replicate n L'\<rparr>,
    \<lparr>ro_height = cs_height S, ro_root = anc_root (cs_anchor S), ro_accepted = cs_accepted S, ro_rejected = cs_rejected S,
     ro_total_supply = cs_total_supply S, ro_agreed = True\<rparr>)"
  using assms by (simp add: commit_round_def those_replicate_Some index_or_panic_def Let_def list_all_iff summaries_agree_def)

text \<open>A round of a test: the verdicts on the committed order decide the outcome.\<close>

lemma test_round:
  assumes cl: "replicas B n h L cl" and h: "h < 100" and ord: "commit_order B submitted = txs"
    and txs: "\<forall>tx \<in> set txs. wf_tx_body tx \<and> (\<exists>sol. tx_antispam tx = LanePow sol)"
    and vs: "vs = pow_verdicts (lg_anchor_valid L) (\<lambda>tx. validate_stateless B tx (dev_verify B) 0 = Inr ()) (lg_nullifiers L) txs"
  obtains cl' L' out where "commit_round B cl submitted (dev_verify B) = Some (cl', out)" "replicas B n (Suc h) L' cl'"
    "ro_agreed out" "ro_accepted out = length (accepted_txs vs txs)" "ro_rejected out = rejections 0 vs"
    "lg_nullifiers L' = lg_nullifiers L \<union> set (concat (map tx_nullifiers (accepted_txs vs txs)))"
proof -
  have fx: "fixture B cluster_notes h L" "cl_replicas cl = replicate n L" "0 < n" using cl by (auto simp: replicas_def)
  obtain L' S where step: "apply_checkpoint B L txs (dev_verify B) = Some (L', S)" "fixture B cluster_notes (Suc h) L'"
      "cs_rejected S = rejections 0 vs" "cs_accepted S = length (accepted_txs vs txs)"
      "lg_nullifiers L' = lg_nullifiers L \<union> set (concat (map tx_nullifiers (accepted_txs vs txs)))"
    by (rule fixture_pow [OF fx(1) h txs vs])
  have "replicas B n (Suc h) L' (cl\<lparr>cl_replicas := replicate n L'\<rparr>)" using cl step(2) by (auto simp: replicas_def)
  then show thesis using that [OF commit_round_eq [OF fx(2,3)]] step ord by simp
qed

text \<open>The committed order of two transactions with different digests.\<close>

lemma commit_order_two:
  assumes "binding_digest B t1 \<noteq> binding_digest B t2"
  shows "commit_order B [t1, t2] = (if binding_digest B t1 < binding_digest B t2 then [t1, t2] else [t2, t1])"
  using assms by (auto simp: commit_order_def)

lemma commit_order_one: "commit_order B [t] = [t]"
  by (simp add: commit_order_def)

lemma replicas_audit: "replicas B n h L cl \<Longrightarrow> cl_audit cl = Some True"
  using chain_audit [of B "dev_verify B" cluster_notes L]
  by (auto simp: replicas_def fixture_def cl_audit_def cluster_notes_def intro: audit_replicas_replicate)

section \<open>The tests pass\<close>

text \<open>The pairs of transactions that one round of a test submits, by nullifier marks and salt.\<close>

definition round_pairs :: "((u8 \<times> u8 \<times> u8) \<times> u8 \<times> u8 \<times> u8) list" where
  "round_pairs = [((1, 2, 10), 3, 4, 11), ((1, 2, 20), 3, 4, 21), ((9, 10, 30), 9, 11, 31), ((60, 61, 70), 62, 63, 71),
     ((80, 81, 90), 82, 83, 91)]"

definition round_digests_differ :: "blake3 \<Rightarrow> bool" where
  "round_digests_differ B \<longleftrightarrow> (\<forall>cl a. test_cluster B 1 = Some cl \<longrightarrow> cl_anchor B cl = Some a \<longrightarrow>
     (\<forall>((n1, n2, s), m1, m2, t) \<in> set round_pairs.
        binding_digest B (cluster_tx B a n1 n2 s) \<noteq> binding_digest B (cluster_tx B a m1 m2 t)))"

lemma round_digests:
  assumes "round_digests_differ B" and "\<forall>n > 0. \<exists>cl. test_cluster B n = Some cl \<and> replicas B n 0 L cl"
    and "((n1, n2, s), m1, m2, t) \<in> set round_pairs"
  shows "binding_digest B (cluster_tx B (current_anchor B L) n1 n2 s) \<noteq> binding_digest B (cluster_tx B (current_anchor B L) m1 m2 t)"
proof -
  obtain cl where "test_cluster B 1 = Some cl" "replicas B 1 0 L cl" using assms(2) zero_less_one by blast
  then show ?thesis using assms(1,3) replicas_anchor unfolding round_digests_differ_def by fastforce
qed

lemma replicas_fixture: "replicas B n h L cl \<Longrightarrow> fixture B cluster_notes h L"
  by (simp add: replicas_def)

text \<open>A round with two valid transactions: both are accepted unless they share a nullifier.\<close>

lemma two_valid_txs:
  assumes cl: "replicas B n h L cl" and h: "h < 100" and B: "digest32 B" and new: "lg_nullifiers L = {}"
    and less: "a1 < b1" "a2 < b2"
    and t: "t1 = cluster_tx B (current_anchor B L) a1 b1 s1" "t2 = cluster_tx B (current_anchor B L) a2 b2 s2"
    and digest: "binding_digest B t1 \<noteq> binding_digest B t2"
  obtains cl' L' out where "commit_round B cl [t1, t2] (dev_verify B) = Some (cl', out)" "replicas B n (Suc h) L' cl'" "ro_agreed out"
    "ro_accepted out = (if {a1, b1} \<inter> {a2, b2} = {} then 2 else 1)"
    "ro_rejected out = (if {a1, b1} \<inter> {a2, b2} = {} then [] else [(1, DoubleSpend)])"
proof -
  define txs where "txs = commit_order B [t1, t2]"
  note fx = replicas_fixture [OF cl]
  let ?vs = "if {a1, b1} \<inter> {a2, b2} = {} then [None, None] else [None, Some DoubleSpend]"
  have two: "txs = [t1, t2] \<or> txs = [t2, t1]" using commit_order_two [OF digest] by (auto simp: txs_def)
  then have wf: "\<forall>tx \<in> set txs. wf_tx_body tx \<and> (\<exists>sol. tx_antispam tx = LanePow sol)"
    using fixture_anchor(2) [OF fx B] by (auto simp: t cluster_tx)
  have vs: "?vs = pow_verdicts (lg_anchor_valid L) (\<lambda>tx. validate_stateless B tx (dev_verify B) 0 = Inr ()) (lg_nullifiers L) txs"
    using two fixture_anchor(1) [OF fx] B less by (auto simp: t cluster_tx new)
  obtain cl' L' out where r: "commit_round B cl [t1, t2] (dev_verify B) = Some (cl', out)" "replicas B n (Suc h) L' cl'" "ro_agreed out"
      "ro_accepted out = length (accepted_txs ?vs txs)" "ro_rejected out = rejections 0 ?vs"
    by (rule test_round [OF cl h txs_def [symmetric] wf vs])
  show thesis using that [OF r(1-3)] r(4,5) two by auto
qed

lemma all_replicas_agree_test:
  assumes B: "digest32 B" and D: "round_digests_differ B"
  shows "all_replicas_agree_and_audit B = Some ()"
proof -
  obtain L where L: "\<forall>n > 0. \<exists>cl. test_cluster B n = Some cl \<and> replicas B n 0 L cl" "lg_nullifiers L = {}" by (rule test_cluster_ok)
  then obtain cl where cl: "test_cluster B 5 = Some cl" "replicas B 5 0 L cl" by (meson zero_less_numeral)
  have d: "binding_digest B (cluster_tx B (current_anchor B L) 1 2 10) \<noteq> binding_digest B (cluster_tx B (current_anchor B L) 3 4 11)"
    by (rule round_digests [OF D L(1)]) (simp add: round_pairs_def)
  have less: "(1 :: u8) < 2" "(3 :: u8) < 4" by simp_all
  obtain cl' L' out where r: "commit_round B cl [cluster_tx B (current_anchor B L) 1 2 10, cluster_tx B (current_anchor B L) 3 4 11] (dev_verify B) = Some (cl', out)"
      "replicas B 5 (Suc 0) L' cl'" "ro_agreed out" "ro_accepted out = (if {1, 2} \<inter> {3, 4 :: u8} = {} then 2 else 1)"
    by (rule two_valid_txs [OF cl(2) _ B L(2) less refl refl d]) simp
  show ?thesis
    using cl(1) r replicas_anchor [OF cl(2)] replicas_audit [OF r(2)] by (simp add: all_replicas_agree_and_audit_def cluster_tx)
qed

lemma one_winner_test:
  assumes B: "digest32 B" and D: "round_digests_differ B"
  shows "double_spend_has_exactly_one_winner_networkwide B = Some ()"
proof -
  obtain L where L: "\<forall>n > 0. \<exists>cl. test_cluster B n = Some cl \<and> replicas B n 0 L cl" "lg_nullifiers L = {}" by (rule test_cluster_ok)
  then obtain cl where cl: "test_cluster B 4 = Some cl" "replicas B 4 0 L cl" by (meson zero_less_numeral)
  have d: "binding_digest B (cluster_tx B (current_anchor B L) 9 10 30) \<noteq> binding_digest B (cluster_tx B (current_anchor B L) 9 11 31)"
    by (rule round_digests [OF D L(1)]) (simp add: round_pairs_def)
  have less: "(9 :: u8) < 10" "(9 :: u8) < 11" by simp_all
  obtain cl' L' out where r: "commit_round B cl [cluster_tx B (current_anchor B L) 9 10 30, cluster_tx B (current_anchor B L) 9 11 31] (dev_verify B) = Some (cl', out)"
      "ro_agreed out" "ro_accepted out = (if {9, 10} \<inter> {9, 11 :: u8} = {} then 2 else 1)"
      "ro_rejected out = (if {9, 10} \<inter> {9, 11 :: u8} = {} then [] else [(1, DoubleSpend)])"
    by (rule two_valid_txs [OF cl(2) _ B L(2) less refl refl d]) simp
  show ?thesis
    using cl(1) r replicas_anchor [OF cl(2)]
    by (simp add: double_spend_has_exactly_one_winner_networkwide_def cluster_tx index_or_panic_def)
qed

lemma commit_order_swap:
  assumes "binding_digest B t1 \<noteq> binding_digest B t2"
  shows "commit_order B [t2, t1] = commit_order B [t1, t2]"
  using assms by (auto simp: commit_order_def)

text \<open>The committed order is all that a round depends on.\<close>

lemma commit_round_swap:
  "binding_digest B t1 \<noteq> binding_digest B t2 \<Longrightarrow> commit_round B cl [t2, t1] V = commit_round B cl [t1, t2] V"
  by (simp add: commit_round_def commit_order_swap)

lemma submission_order_test:
  assumes B: "digest32 B" and D: "round_digests_differ B"
  shows "submission_order_does_not_change_committed_state B = Some ()"
proof -
  obtain L where L: "\<forall>n > 0. \<exists>cl. test_cluster B n = Some cl \<and> replicas B n 0 L cl" "lg_nullifiers L = {}" by (rule test_cluster_ok)
  then obtain cl where cl: "test_cluster B 1 = Some cl" "replicas B 1 0 L cl" by (meson zero_less_one)
  let ?t1 = "cluster_tx B (current_anchor B L) 1 2 20" and ?t2 = "cluster_tx B (current_anchor B L) 3 4 21"
  have d: "binding_digest B ?t1 \<noteq> binding_digest B ?t2" by (rule round_digests [OF D L(1)]) (simp add: round_pairs_def)
  have less: "(1 :: u8) < 2" "(3 :: u8) < 4" by simp_all
  obtain cl' out where r: "commit_round B cl [?t1, ?t2] (dev_verify B) = Some (cl', out)"
    by (rule two_valid_txs [OF cl(2) _ B L(2) less refl refl d]) simp
  show ?thesis
    using cl(1) r replicas_anchor [OF cl(2)] commit_round_swap [OF d]
    by (simp add: submission_order_does_not_change_committed_state_def cluster_tx)
qed

lemma partition_heal_test:
  assumes B: "digest32 B" and D: "round_digests_differ B"
  shows "partition_then_heal_converges B = Some ()"
proof -
  obtain L where L: "\<forall>n > 0. \<exists>cl. test_cluster B n = Some cl \<and> replicas B n 0 L cl" "lg_nullifiers L = {}" by (rule test_cluster_ok)
  then obtain cl where cl: "test_cluster B 1 = Some cl" "replicas B 1 0 L cl" by (meson zero_less_one)
  let ?t1 = "cluster_tx B (current_anchor B L) 60 61 70" and ?t2 = "cluster_tx B (current_anchor B L) 62 63 71"
  have d: "binding_digest B ?t1 \<noteq> binding_digest B ?t2" by (rule round_digests [OF D L(1)]) (simp add: round_pairs_def)
  have less: "(60 :: u8) < 61" "(62 :: u8) < 63" by simp_all
  obtain cl' out where r: "commit_round B cl [?t1, ?t2] (dev_verify B) = Some (cl', out)"
      "ro_accepted out = (if {60, 61} \<inter> {62, 63 :: u8} = {} then 2 else 1)"
    by (rule two_valid_txs [OF cl(2) _ B L(2) less refl refl d]) simp
  show ?thesis
    using cl(1) r replicas_anchor [OF cl(2)] commit_round_swap [OF d] by (simp add: partition_then_heal_converges_def cluster_tx)
qed

lemma replay_test:
  assumes B: "digest32 B"
  shows "spent_nullifier_cannot_be_replayed_next_round B = Some ()"
proof -
  obtain L where L: "\<forall>n > 0. \<exists>cl. test_cluster B n = Some cl \<and> replicas B n 0 L cl" "lg_nullifiers L = {}" by (rule test_cluster_ok)
  then obtain cl where cl: "test_cluster B 3 = Some cl" "replicas B 3 0 L cl" by (meson zero_less_numeral)
  let ?ok = "\<lambda>tx. validate_stateless B tx (dev_verify B) 0 = Inr ()" and ?t = "\<lambda>L. cluster_tx B (current_anchor B L) 40 41 50"
  have wf: "\<forall>tx \<in> set [?t L']. wf_tx_body tx \<and> (\<exists>sol. tx_antispam tx = LanePow sol)" if "replicas B 3 h L' c" for L' h c
    using fixture_anchor(2) [OF replicas_fixture [OF that] B] by (simp add: cluster_tx)
  have vs1: "[None] = pow_verdicts (lg_anchor_valid L) ?ok (lg_nullifiers L) [?t L]"
    using B fixture_anchor(1) [OF replicas_fixture [OF cl(2)]] by (simp add: cluster_tx L(2))
  obtain cl1 L1 o1 where 1: "commit_round B cl [?t L] (dev_verify B) = Some (cl1, o1)" "replicas B 3 (Suc 0) L1 cl1" "ro_agreed o1"
      "ro_accepted o1 = length (accepted_txs [None] [?t L])"
      "lg_nullifiers L1 = lg_nullifiers L \<union> set (concat (map tx_nullifiers (accepted_txs [None] [?t L])))"
    by (rule test_round [OF cl(2) _ commit_order_one wf [OF cl(2)] vs1]) simp
  have vs2: "[Some DoubleSpend] = pow_verdicts (lg_anchor_valid L1) ?ok (lg_nullifiers L1) [?t L1]"
    using B fixture_anchor(1) [OF replicas_fixture [OF 1(2)]] by (simp add: cluster_tx 1(5))
  obtain cl2 o2 where 2: "commit_round B cl1 [?t L1] (dev_verify B) = Some (cl2, o2)" "ro_agreed o2"
      "ro_accepted o2 = length (accepted_txs [Some DoubleSpend] [?t L1])" "ro_rejected o2 = rejections 0 [Some DoubleSpend]"
    by (rule test_round [OF 1(2) _ commit_order_one wf [OF 1(2)] vs2]) simp
  show ?thesis
    using cl(1) replicas_anchor [OF cl(2)] 1(1,3,4) replicas_anchor [OF 1(2)] 2
    by (simp add: spent_nullifier_cannot_be_replayed_next_round_def cluster_tx index_or_panic_def)
qed

text \<open>A flipped byte of the development proof is found.\<close>

lemma flipped_proof_invalid:
  assumes B: "digest32 B" and p: "tx_proof t = p # ps" and ok: "validate_stateless B t (dev_verify B) 0 = Inr ()"
  shows "validate_stateless B (t\<lparr>tx_proof := (tx_proof t)[0 := p XOR 0xFF]\<rparr>) (dev_verify B) 0 \<noteq> Inr ()"
proof
  let ?t = "t\<lparr>tx_proof := (tx_proof t)[0 := p XOR 0xFF]\<rparr>"
  assume bad: "validate_stateless B ?t (dev_verify B) 0 = Inr ()"
  have pi: "to_public_inputs B ?t = to_public_inputs B t" by (simp add: to_public_inputs_def binding_digest_def binding_parts_def)
  have forged: "validate_stateless B u (dev_verify B) 0 = Inr () \<Longrightarrow> tx_proof u = dev_tag B (to_public_inputs B u) @ replicate 160 0" for u
    using B by (simp add: validate_stateless_ok_iff dev_verify_Inr_iff)
  have "tx_proof ?t = tx_proof t" using forged [OF bad] forged [OF ok] unfolding pi by (rule trans [OF _ sym])
  then have "p XOR 0xFF = p" by (simp add: p)
  then have "bit (p XOR 0xFF) 0 = bit p 0" by simp
  then show False by (simp add: bit_simps)
qed

lemma byzantine_test:
  assumes B: "digest32 B" and D: "round_digests_differ B"
  shows "byzantine_invalid_proof_is_dropped_without_breaking_agreement B = Some ()"
proof -
  obtain L where L: "\<forall>n > 0. \<exists>cl. test_cluster B n = Some cl \<and> replicas B n 0 L cl" "lg_nullifiers L = {}" by (rule test_cluster_ok)
  then obtain cl where cl: "test_cluster B 3 = Some cl" "replicas B 3 0 L cl" by (meson zero_less_numeral)
  let ?ok = "\<lambda>tx. validate_stateless B tx (dev_verify B) 0 = Inr ()"
  define good t where "good = cluster_tx B (current_anchor B L) 80 81 90" and "t = cluster_tx B (current_anchor B L) 82 83 91"
  have ok: "?ok good" "?ok t" using B by (simp_all add: good_def t_def cluster_tx)
  then obtain p ps where p: "tx_proof t = p # ps" by (cases "tx_proof t") (auto simp: validate_stateless_ok_iff PROOF_BUCKET_def)
  define bad where "bad = t\<lparr>tx_proof := (tx_proof t)[0 := p XOR 0xFF]\<rparr>"
  have invalid: "\<not> ?ok bad" unfolding bad_def by (rule flipped_proof_invalid [OF B p ok(2)])
  have "binding_digest B good \<noteq> binding_digest B t"
    unfolding good_def t_def by (rule round_digests [OF D L(1)]) (simp add: round_pairs_def)
  then have d: "binding_digest B good \<noteq> binding_digest B bad" by (simp add: bad_def binding_digest_def binding_parts_def)
  define txs where "txs = commit_order B [good, bad]"
  have two: "txs = [good, bad] \<or> txs = [bad, good]" using commit_order_two [OF d] by (auto simp: txs_def)
  note fx = replicas_fixture [OF cl(2)]
  have "wf_tx_body good" "wf_tx_body bad" "\<exists>sol. tx_antispam good = LanePow sol" "\<exists>sol. tx_antispam bad = LanePow sol"
    using fixture_anchor(2) [OF fx B] cluster_tx(4,6) by (simp_all add: good_def bad_def t_def wf_tx_body_def)
  then have wf: "\<forall>tx \<in> set txs. wf_tx_body tx \<and> (\<exists>sol. tx_antispam tx = LanePow sol)" using two by auto
  have anchors: "tx_anchor good = current_anchor B L" "tx_anchor bad = current_anchor B L"
    by (simp_all add: good_def bad_def t_def cluster_tx)
  define vs where "vs = (if txs = [good, bad] then [None, Some StatelessInvalid] else [Some StatelessInvalid, None])"
  have vs: "vs = pow_verdicts (lg_anchor_valid L) ?ok (lg_nullifiers L) txs"
    using two fixture_anchor(1) [OF fx] ok(1) invalid by (auto simp: vs_def anchors L(2))
  obtain cl' L' out where r: "commit_round B cl [good, bad] (dev_verify B) = Some (cl', out)" "ro_agreed out"
      "ro_accepted out = length (accepted_txs vs txs)" "ro_rejected out = rejections 0 vs"
    by (rule test_round [OF cl(2) _ txs_def [symmetric] wf vs]) simp
  have "ro_accepted out = 1" "list_ex (\<lambda>(_, r). r = StatelessInvalid) (ro_rejected out)"
    using r(3,4) two by (auto simp: vs_def)
  then show ?thesis
    using cl(1) replicas_anchor [OF cl(2)] r(1,2) p
    by (simp add: byzantine_invalid_proof_is_dropped_without_breaking_agreement_def cluster_tx index_or_panic_def
        flip: good_def t_def) (simp add: bad_def)
qed

section \<open>The suite\<close>

definition consensus_tests :: "blake3 \<Rightarrow> unit option list" where
  "consensus_tests B =
     [all_replicas_agree_and_audit B, submission_order_does_not_change_committed_state B,
      double_spend_has_exactly_one_winner_networkwide B, spent_nullifier_cannot_be_replayed_next_round B,
      partition_then_heal_converges B, byzantine_invalid_proof_is_dropped_without_breaking_agreement B]"

lemma consensus_tests_ok:
  "digest32 B \<Longrightarrow> round_digests_differ B \<Longrightarrow> list_all (\<lambda>t. t = Some ()) (consensus_tests B)"
  by (simp add: consensus_tests_def all_replicas_agree_test submission_order_test one_winner_test replay_test partition_heal_test byzantine_test)

end
