(* ===== verification/Tx_Tests.thy ===== *)
theory Tx_Tests
  imports Ledger
begin

unbundle bit_operations_syntax

text \<open>
  The test module of \<^verbatim>\<open>crates/tx\<close> over the model of the codec and of stateless validation; a test that panics
  or fails an assertion is \<open>None\<close>.  Its fixture \<^verbatim>\<open>sample_tx\<close> is \<open>sample_tx\<close> of theory \<open>Tx\<close>.
\<close>

section \<open>Fixtures and tests\<close>

definition sample_quota_tx :: TxV1 where
  "sample_quota_tx = sample_tx\<lparr>tx_antispam := LaneQuota
     \<lparr>rp_epoch = 5, rp_rate_nullifier = replicate 32 9, rp_x = 123, rp_y = 456\<rparr>\<rparr>"

definition codec_roundtrip :: "TxV1 \<Rightarrow> unit option" where
  "codec_roundtrip tx =
     do { let bs = tx_encode tx;
          assert (length bs = tx_encoded_len);
          tx' \<leftarrow> expect (tx_decode bs);
          assert (tx' = tx) }"

definition codec_roundtrip_pow :: "unit option" where
  "codec_roundtrip_pow = codec_roundtrip sample_tx"

definition codec_roundtrip_quota :: "unit option" where
  "codec_roundtrip_quota = codec_roundtrip sample_quota_tx"

definition both_lanes_same_size :: "unit option" where
  "both_lanes_same_size = assert (length (tx_encode sample_tx) = length (tx_encode sample_quota_tx))"

definition all_txs_same_size :: "unit option" where
  "all_txs_same_size =
     (let a = sample_tx;
          b = sample_tx\<lparr>tx_anchor := (tx_anchor sample_tx)\<lparr>anc_height := - 1\<rparr>,
                        tx_nullifiers := [Nullifier (replicate 32 9), Nullifier (replicate 32 10)]\<rparr>
      in assert (length (tx_encode a) = length (tx_encode b)))"

definition antispam_body_excluded_from_binding :: "blake3 \<Rightarrow> unit option" where
  "antispam_body_excluded_from_binding B = assert (binding_digest B sample_tx = binding_digest B sample_quota_tx)"

text \<open>The two altered transactions: the first byte of the first commitment, of the second ciphertext.\<close>

definition flip_bit0 :: "bytes \<Rightarrow> bytes" where
  "flip_bit0 bs = bs[0 := bs ! 0 XOR 1]"

definition other_commitment :: TxV1 where
  "other_commitment = sample_tx\<lparr>tx_commitments := (tx_commitments sample_tx)
     [0 := Commitment (flip_bit0 (cm_bytes (tx_commitments sample_tx ! 0)))]\<rparr>"

definition other_output :: TxV1 where
  "other_output = sample_tx\<lparr>tx_enc_outputs := (tx_enc_outputs sample_tx)
     [1 := \<lparr>eo_bytes = flip_bit0 (eo_bytes (tx_enc_outputs sample_tx ! 1))\<rparr>]\<rparr>"

definition malleability_any_byte_flip_changes_binding :: "blake3 \<Rightarrow> unit option" where
  "malleability_any_byte_flip_changes_binding B =
     do { let base = binding_digest B sample_tx;
          assert (base \<noteq> binding_digest B other_commitment);
          assert (base \<noteq> binding_digest B other_output) }"

definition decode_rejects_trailing_bytes :: "unit option" where
  "decode_rejects_trailing_bytes = assert (tx_decode (tx_encode sample_tx @ [0]) = Inl TxMalformed)"

definition decode_rejects_truncation :: "unit option" where
  "decode_rejects_truncation =
     (let bs = tx_encode sample_tx in assert (tx_decode (take (length bs - 1) bs) = Inl TxMalformed))"

definition decode_rejects_nonzero_pow_padding :: "unit option" where
  "decode_rejects_nonzero_pow_padding =
     do { let bs = tx_encode sample_tx;
          let body_start = tx_encoded_len - PROOF_BUCKET - ANTISPAM_BODY_LEN;
          _ \<leftarrow> index_or_panic bs (body_start + 20);
          assert (tx_decode (bs[body_start + 20 := 1]) = Inl TxMalformed) }"

definition unsorted_nullifiers_rejected :: "blake3 \<Rightarrow> unit option" where
  "unsorted_nullifiers_rejected B =
     (let tx = sample_tx\<lparr>tx_nullifiers := [Nullifier (replicate 32 5), Nullifier (replicate 32 1)]\<rparr>
      in assert (validate_stateless B tx (dev_verify B) 0 = Inl NullifierOrder))"

section \<open>The tests pass\<close>

lemma wf_test_txs: "wf_tx sample_quota_tx" "wf_tx (sample_tx\<lparr>tx_anchor := (tx_anchor sample_tx)\<lparr>anc_height := h\<rparr>,
    tx_nullifiers := [Nullifier (replicate 32 a), Nullifier (replicate 32 b)]\<rparr>)"
  using wf_tx_sample by (simp_all add: sample_quota_tx_def sample_tx_def wf_defs tx_consts)

lemma codec_roundtrip_ok: "wf_tx tx \<Longrightarrow> codec_roundtrip tx = Some ()"
  by (simp add: codec_roundtrip_def tx_decode_encode)

lemma not_decoded:
  assumes "\<And>tx. tx_decode bs \<noteq> Inr tx"
  shows "tx_decode bs = Inl TxMalformed"
  using assms tx_decode_error by (cases "tx_decode bs") auto

lemma wrong_length: "length bs \<noteq> tx_encoded_len \<Longrightarrow> tx_decode bs = Inl TxMalformed"
  using tx_codec.enc_dec [of bs] tx_decode_encode(2) by (intro not_decoded) blast

lemma padding_byte_rejected:
  assumes "length bs = 2964" and "hd (drop 2715 bs) = POW_TAG" and "8 \<le> i" and "i < 56" and "v \<noteq> 0"
  shows "tx_decode (bs[2716 + i := v]) = Inl TxMalformed"
proof (rule not_decoded)
  fix tx
  let ?b = "take 56 (drop 2716 (bs[2716 + i := v]))"
  have "length ?b = 56" using assms(1) by simp
  moreover have "?b ! i = v" using assms(1,4) by simp
  ultimately have "drop 8 ?b ! (i - 8) = v" "i - 8 < length (drop 8 ?b)" using assms(3,4) by simp_all
  then have "v \<in> set (drop 8 ?b)" by (metis nth_mem)
  moreover have "hd (drop 2715 (bs[2716 + i := v])) = POW_TAG" using assms(1,2) by (simp add: hd_drop_conv_nth)
  ultimately have "from_wire (hd (drop 2715 (bs[2716 + i := v]))) ?b = Inl TxMalformed"
    using assms(5) unfolding from_wire_def by auto
  then show "tx_decode (bs[2716 + i := v]) \<noteq> Inr tx" by (simp add: tx_decode_Inr_iff)
qed

lemma sample_encoding: "length (tx_encode sample_tx) = 2964" "hd (drop 2715 (tx_encode sample_tx)) = POW_TAG"
proof -
  show "length (tx_encode sample_tx) = 2964" by (simp add: tx_decode_encode(2) tx_encoded_len_def tx_consts)
  have "tx_decode (tx_encode sample_tx) = Inr sample_tx" by (simp add: tx_decode_encode(1))
  then show "hd (drop 2715 (tx_encode sample_tx)) = POW_TAG"
    unfolding tx_decode_Inr_iff by (auto simp: from_wire_def sample_tx_def split: if_splits)
qed

lemma tx_decode_tests:
  "codec_roundtrip_pow = Some ()" "codec_roundtrip_quota = Some ()" "both_lanes_same_size = Some ()" "all_txs_same_size = Some ()"
  "decode_rejects_trailing_bytes = Some ()" "decode_rejects_truncation = Some ()" "decode_rejects_nonzero_pow_padding = Some ()"
proof -
  show "codec_roundtrip_pow = Some ()" "codec_roundtrip_quota = Some ()"
    by (simp_all add: codec_roundtrip_pow_def codec_roundtrip_quota_def codec_roundtrip_ok wf_test_txs)
  show "both_lanes_same_size = Some ()" by (simp add: both_lanes_same_size_def tx_decode_encode(2) wf_test_txs)
  show "all_txs_same_size = Some ()"
    unfolding all_txs_same_size_def Let_def tx_decode_encode(2) [OF wf_tx_sample] tx_decode_encode(2) [OF wf_test_txs(2)] by simp
  show "decode_rejects_trailing_bytes = Some ()" by (simp add: decode_rejects_trailing_bytes_def wrong_length tx_decode_encode(2))
  have "tx_encoded_len = 2964" by (simp add: tx_encoded_len_def tx_consts)
  then show "decode_rejects_truncation = Some ()" by (simp add: decode_rejects_truncation_def wrong_length tx_decode_encode(2))
  have "tx_encoded_len - PROOF_BUCKET - ANTISPAM_BODY_LEN = 2716" by (simp add: tx_encoded_len_def tx_consts)
  then show "decode_rejects_nonzero_pow_padding = Some ()"
    using padding_byte_rejected [OF sample_encoding, of 20 1]
    by (simp add: decode_rejects_nonzero_pow_padding_def Let_def index_or_panic_def sample_encoding(1))
qed

lemma tx_hash_tests:
  "antispam_body_excluded_from_binding B = Some ()" "unsorted_nullifiers_rejected B = Some ()"
proof -
  show "antispam_body_excluded_from_binding B = Some ()"
    by (simp add: antispam_body_excluded_from_binding_def sample_quota_tx_def binding_digest_def binding_parts_def)
  have "replicate 32 1 < replicate 32 (5 :: u8)" by (rule replicate_less) simp_all
  then show "unsorted_nullifiers_rejected B = Some ()"
    by (simp add: unsorted_nullifiers_rejected_def validate_stateless_def sample_tx_def PROOF_BUCKET_def order_less_imp_le)
qed

text \<open>The malleability test fails only on a hash that collides on the two messages it compares.\<close>

lemma malleability_test:
  assumes "malleability_any_byte_flip_changes_binding B \<noteq> Some ()"
  shows "\<exists>tx \<in> {other_commitment, other_output}.
    collision_at B TX_BINDING (absorb_parts (binding_parts sample_tx)) (absorb_parts (binding_parts tx))"
proof -
  have flip: "flip_bit0 bs \<noteq> bs" if "bs \<noteq> []" for bs
  proof
    assume "flip_bit0 bs = bs"
    then have "bs ! 0 XOR 1 = bs ! 0" using that by (metis flip_bit0_def length_greater_0_conv nth_list_update_eq)
    then have "bit (bs ! 0 XOR 1) 0 = bit (bs ! 0) 0" by simp
    then show False by (simp add: bit_simps)
  qed
  have wf: "wf_tx_body sample_tx" "wf_tx_body other_commitment" "wf_tx_body other_output"
    by (simp_all add: other_commitment_def other_output_def flip_bit0_def sample_tx_def wf_defs tx_consts)
  have "binding_parts sample_tx \<noteq> binding_parts other_commitment" "binding_parts sample_tx \<noteq> binding_parts other_output"
    using flip [of "replicate 32 3"] flip [of "replicate 1273 7"]
    by (auto simp: binding_parts_def other_commitment_def other_output_def sample_tx_def)
  moreover have "binding_digest B sample_tx = binding_digest B other_commitment \<or> binding_digest B sample_tx = binding_digest B other_output"
    using assms by (auto simp: malleability_any_byte_flip_changes_binding_def assert_def split: if_splits)
  ultimately show ?thesis
    using hash_parts_binding [of B TX_BINDING "binding_parts sample_tx"] binding_parts_short wf
    unfolding binding_digest_def by blast
qed

section \<open>The suite\<close>

definition tx_tests :: "blake3 \<Rightarrow> unit option list" where
  "tx_tests B =
     [codec_roundtrip_pow, codec_roundtrip_quota, both_lanes_same_size, all_txs_same_size, antispam_body_excluded_from_binding B,
      malleability_any_byte_flip_changes_binding B, decode_rejects_trailing_bytes, decode_rejects_truncation,
      decode_rejects_nonzero_pow_padding, unsorted_nullifiers_rejected B]"

lemma tx_tests_ok:
  assumes "\<forall>tx \<in> {other_commitment, other_output}.
    \<not> collision_at B TX_BINDING (absorb_parts (binding_parts sample_tx)) (absorb_parts (binding_parts tx))"
  shows "list_all (\<lambda>t. t = Some ()) (tx_tests B)"
  using malleability_test [of B] assms by (auto simp: tx_tests_def tx_decode_tests tx_hash_tests)

end
