(* ===== verification/Component_Tests.thy ===== *)
theory Component_Tests
  imports Emission Quota Commitment_Tree
begin

text \<open>
  The test modules of \<^verbatim>\<open>crates/emission\<close>, \<^verbatim>\<open>crates/antispam-quota\<close> and \<^verbatim>\<open>crates/tree\<close>; a test that panics or
  fails an assertion is \<open>None\<close>.  The loops of the tests are functions over the values they run through.
\<close>

section \<open>Emission\<close>

definition emission_params :: "EmissionParams option" where
  "emission_params = em_new 1000000 10000 100"

definition starts_at_e0_and_decays_to_tail :: "unit option" where
  "starts_at_e0_and_decays_to_tail =
     do { p \<leftarrow> emission_params;
          e \<leftarrow> emission_at p 0;
          assert (e = 1000000);
          mid \<leftarrow> emission_at p 100;
          let expected = 10000 + (1000000 - 10000) div 2;
          assert (\<bar>sint mid - expected\<bar> < 5000);
          far \<leftarrow> emission_at p 10000;
          assert (far \<ge> em_e_tail p);
          assert (far < 12000) }"

fun monotonic_loop :: "EmissionParams \<Rightarrow> u64 \<Rightarrow> u64 list \<Rightarrow> unit option" where
  "monotonic_loop p prev [] = Some ()"
| "monotonic_loop p prev (h # hs) =
     do { e \<leftarrow> emission_at p h;
          assert (e \<le> prev);
          assert (e \<ge> em_e_tail p);
          monotonic_loop p e hs }"

definition monotonic_non_increasing :: "unit option" where
  "monotonic_non_increasing =
     do { p \<leftarrow> emission_params; monotonic_loop p (- 1) (map word_of_nat [0 ..< 2000]) }"

fun distribute_loop :: "(u64 \<times> u64 list) list \<Rightarrow> unit option" where
  "distribute_loop [] = Some ()"
| "distribute_loop ((tot, weights) # cases) =
     do { shares \<leftarrow> distribute tot weights;
          s \<leftarrow> sum_or_panic (map rs_amount shares);
          assert (s = tot);
          distribute_loop cases }"

definition distribute_sums_exactly :: "unit option" where
  "distribute_sums_exactly =
     distribute_loop (List.product [0, 1, 7, 1000000, 999999] [[1, 1, 1], [10, 1], [3, 5, 7, 11], [1]])"

definition equal_weights_equal_shares_modulo_remainder :: "unit option" where
  "equal_weights_equal_shares_modulo_remainder =
     do { shares \<leftarrow> distribute 100 [1, 1, 1, 1];
          s \<leftarrow> sum_or_panic (map rs_amount shares);
          assert (s = 100);
          assert (list_all (\<lambda>s. rs_amount s = 25) shares) }"

definition descriptor_is_auditable :: "unit option" where
  "descriptor_is_auditable =
     do { p \<leftarrow> emission_params;
          d \<leftarrow> reward_descriptor p 50 [2, 1];
          e \<leftarrow> emission_at p 50;
          assert (rd_total d = e);
          s \<leftarrow> sum_or_panic (map rs_amount (rd_shares d));
          assert (s = rd_total d) }"

section \<open>Quota\<close>

definition quota_note :: "u64 \<Rightarrow> QuotaNote" where
  "quota_note stake = \<lparr>qn_stake = stake, qn_quota_key = replicate 32 42\<rparr>"

definition quota_scales_with_stake_and_floors_at_one :: "unit option" where
  "quota_scales_with_stake_and_floors_at_one =
     do { assert (quota (quota_note 0) = 1);
          assert (quota (quota_note 500) = 1);
          assert (quota (quota_note 10000) = 10) }"

text \<open>\<^verbatim>\<open>format!("tx-{k}")\<close> for a digit.\<close>

definition tx_message :: "u64 \<Rightarrow> bytes" where
  "tx_message k = [116, 120, 45, 48 + ucast k]"

fun honest_loop :: "blake3 \<Rightarrow> QuotaNote \<Rightarrow> QuotaRegistry \<Rightarrow> u64 list \<Rightarrow> QuotaRegistry option" where
  "honest_loop B n reg [] = Some reg"
| "honest_loop B n reg (k # ks) =
     do { p \<leftarrow> expect (signal B n 7 k (tx_message k));
          (reg, v) \<leftarrow> admit reg p;
          assert (v = AdmitOk);
          honest_loop B n reg ks }"

definition honest_usage_within_quota_is_admitted :: "blake3 \<Rightarrow> unit option" where
  "honest_usage_within_quota_is_admitted B =
     do { let n = quota_note 3000;
          reg \<leftarrow> honest_loop B n qr_new [0, 1, 2];
          assert (case signal B n 7 3 (tx_message 3) of Inl (QuotaExceeded _ _) \<Rightarrow> True | _ \<Rightarrow> False) }"

definition same_slot_same_message_is_a_benign_duplicate :: "blake3 \<Rightarrow> unit option" where
  "same_slot_same_message_is_a_benign_duplicate B =
     do { p \<leftarrow> expect (signal B (quota_note 5000) 1 0 [104, 101, 108, 108, 111]);
          (reg, v) \<leftarrow> admit qr_new p;
          assert (v = AdmitOk);
          (reg, v) \<leftarrow> admit reg p;
          assert (v = Duplicate) }"

definition pay_alice :: bytes where "pay_alice = [112, 97, 121, 32, 97, 108, 105, 99, 101]"
definition pay_bob :: bytes where "pay_bob = [112, 97, 121, 32, 98, 111, 98]"

definition slot_reuse_for_two_messages_recovers_the_secret :: "blake3 \<Rightarrow> unit option" where
  "slot_reuse_for_two_messages_recovers_the_secret B =
     do { let n = quota_note 5000;
          p1 \<leftarrow> expect (signal B n 9 0 pay_alice);
          p2 \<leftarrow> expect (signal B n 9 0 pay_bob);
          (reg, v) \<leftarrow> admit qr_new p1;
          assert (v = AdmitOk);
          (reg, v) \<leftarrow> admit reg p2;
          case v of Slash s \<Rightarrow> assert (s = quota_secret B n) | _ \<Rightarrow> None }"

definition different_epochs_reset_quota_and_dont_collide :: "blake3 \<Rightarrow> unit option" where
  "different_epochs_reset_quota_and_dont_collide B =
     do { let n = quota_note 1000;
          p1 \<leftarrow> expect (signal B n 1 0 [109]);
          (reg, v) \<leftarrow> admit qr_new p1;
          assert (v = AdmitOk);
          p2 \<leftarrow> expect (signal B n 2 0 [109]);
          (reg, v) \<leftarrow> admit reg p2;
          assert (v = AdmitOk) }"

definition staker :: "u8 \<Rightarrow> QuotaNote" where
  "staker b = \<lparr>qn_stake = 2000, qn_quota_key = replicate 32 b\<rparr>"

definition distinct_stakers_do_not_interfere :: "blake3 \<Rightarrow> unit option" where
  "distinct_stakers_do_not_interfere B =
     do { p1 \<leftarrow> expect (signal B (staker 1) 5 0 [120]);
          (reg, v) \<leftarrow> admit qr_new p1;
          assert (v = AdmitOk);
          p2 \<leftarrow> expect (signal B (staker 2) 5 0 [121]);
          (reg, v) \<leftarrow> admit reg p2;
          assert (v = AdmitOk) }"

definition field_inverse_is_correct :: "unit option" where
  "field_inverse_is_correct =
     assert (list_all (\<lambda>a. field_mul a (field_inv a) = 1) [1, 2, 3, 1234567, P - 1])"

section \<open>The tree\<close>

definition tree_cm :: "u8 \<Rightarrow> Commitment" where
  "tree_cm b = Commitment (replicate 32 b)"

fun roundtrip_loop :: "blake3 \<Rightarrow> CommitmentTree \<Rightarrow> bytes \<Rightarrow> (u64 \<times> Commitment) list \<Rightarrow> unit option" where
  "roundtrip_loop B t root [] = Some ()"
| "roundtrip_loop B t root ((pos, leaf) # ps) =
     do { w \<leftarrow> ct_witness B t pos;
          assert (verify_path B leaf w root);
          assert (\<not> verify_path B (tree_cm 99) w root);
          roundtrip_loop B t root ps }"

definition witness_roundtrip_small :: "blake3 \<Rightarrow> unit option" where
  "witness_roundtrip_small B =
     (let t = ct_new B;
          (t, p0) = ct_append t (tree_cm 1);
          (t, p1) = ct_append t (tree_cm 2);
          (t, p2) = ct_append t (tree_cm 3);
          root = ct_root B t
      in roundtrip_loop B t root [(p0, tree_cm 1), (p1, tree_cm 2), (p2, tree_cm 3)])"

definition witness_survives_appends :: "blake3 \<Rightarrow> unit option" where
  "witness_survives_appends B =
     (let t = ct_new B;
          (t, p0) = ct_append t (tree_cm 1);
          (t, anchor) = ct_seal B t 0;
          (t, _) = ct_append t (tree_cm 2);
          (t, _) = ct_append t (tree_cm 3);
          snapshot = fst (ct_append (ct_new B) (tree_cm 1))
      in do { w \<leftarrow> ct_witness B snapshot p0;
              assert (verify_path B (tree_cm 1) w (anc_root anchor)) })"

definition anchor_window_eviction :: "blake3 \<Rightarrow> unit option" where
  "anchor_window_eviction B =
     (let t = fst (ct_append (ct_new B) (tree_cm 1));
          (t, old) = ct_seal B t 0
      in do { assert (ct_anchor_valid t old);
              let (t, recent) = ct_seal B t (ANCHOR_WINDOW - 1);
              assert (ct_anchor_valid t old);
              assert (ct_anchor_valid t recent);
              let (t, _) = ct_seal B t ANCHOR_WINDOW;
              assert (\<not> ct_anchor_valid t old) })"

definition test_leaf :: "blake3 \<Rightarrow> nat \<Rightarrow> Commitment" where
  "test_leaf B i = Commitment (hash_parts B ''test.leaf'' [u64_to_le_bytes (word_of_nat i)])"

fun witnesses_loop :: "blake3 \<Rightarrow> CommitmentTree \<Rightarrow> bytes \<Rightarrow> Commitment list \<Rightarrow> nat list \<Rightarrow> unit option" where
  "witnesses_loop B t root leaves [] = Some ()"
| "witnesses_loop B t root leaves (pos # ps) =
     do { w \<leftarrow> ct_witness B t (word_of_nat pos);
          leaf \<leftarrow> index_or_panic leaves pos;
          assert (verify_path B leaf w root);
          witnesses_loop B t root leaves ps }"

definition all_witnesses_verify :: "blake3 \<Rightarrow> nat \<Rightarrow> unit option" where
  "all_witnesses_verify B n =
     (let leaves = map (test_leaf B) [0 ..< n];
          t = fold (\<lambda>leaf t. fst (ct_append t leaf)) leaves (ct_new B)
      in witnesses_loop B t (ct_root B t) leaves [0 ..< n])"

section \<open>The emission tests pass\<close>

definition emission_test_schedule :: EmissionParams where
  "emission_test_schedule = \<lparr>em_e0 = 1000000, em_e_tail = 10000, em_half_life = 100\<rparr>"

lemma emission_params_eq: "emission_params = Some emission_test_schedule"
  by (simp add: emission_params_def em_new_def emission_test_schedule_def)

lemma emission_test_values:
  "emission_at emission_test_schedule 0 = Some 1000000" "emission_at emission_test_schedule 100 = Some 505000"
  "emission_at emission_test_schedule 10000 = Some 10000"
  by (simp_all add: emission_at_def emission_test_schedule_def sub_or_panic_def decay_factor_def SCALE_def add_or_panic_def word_le_nat_alt)

lemma decay_test: "starts_at_e0_and_decays_to_tail = Some ()"
  by (simp add: starts_at_e0_and_decays_to_tail_def emission_params_eq emission_test_values) (simp add: emission_test_schedule_def)

lemma monotonic_loop_ok:
  assumes p: "em_half_life p \<noteq> 0" "em_e_tail p \<le> em_e0 p"
    and "sorted hs" "\<forall>h \<in> set hs. h < 2 ^ 64" "\<forall>h \<in> set hs. \<forall>e. emission_at p (word_of_nat h) = Some e \<longrightarrow> e \<le> prev"
  shows "monotonic_loop p prev (map word_of_nat hs) = Some ()"
  using assms(3-5)
proof (induction hs arbitrary: prev)
  case (Cons h hs)
  let ?E = "emission_nat (unat (em_e0 p)) (unat (em_e_tail p)) (unat (em_half_life p))"
  have at: "\<exists>e. emission_at p (word_of_nat i) = Some e \<and> unat e = ?E i" if "i < 2 ^ 64" for i
    using emission_at_eq [OF p, of "word_of_nat i"] that by (simp add: unat_word_of_nat_less)
  obtain e where e: "emission_at p (word_of_nat h) = Some e" "unat e = ?E h" using at [of h] Cons.prems(2) by auto
  have "em_e_tail p \<le> e" using emission_nat_bounds(1) p(2) by (simp add: word_le_nat_alt e(2))
  moreover have "f \<le> e" if "i \<in> set hs" "emission_at p (word_of_nat i) = Some f" for i f
  proof -
    have "unat f = ?E i" using at [of i] that Cons.prems(2) by auto
    moreover have "0 < unat (em_half_life p)" using p(1) by (simp add: unat_gt_0)
    ultimately show ?thesis using that(1) Cons.prems(1) emission_nat_antimono by (simp add: word_le_nat_alt e(2))
  qed
  ultimately show ?case using Cons e(1) by simp
qed simp

lemma monotonic_test: "monotonic_non_increasing = Some ()"
proof -
  have "monotonic_loop emission_test_schedule (- 1) (map word_of_nat [0 ..< 2000]) = Some ()"
    by (rule monotonic_loop_ok) (auto simp: emission_test_schedule_def)
  then show ?thesis by (simp only: monotonic_non_increasing_def emission_params_eq bind.bind_lunit)
qed

lemma distribute_sum:
  assumes "length ws < 2 ^ 64" and "0 < sum_list (map unat ws)"
  obtains shares where "distribute tot ws = Some shares" "sum_or_panic (map rs_amount shares) = Some tot"
    "map (\<lambda>s. unat (rs_amount s)) shares = map (share_amount tot ws) [0 ..< length ws]"
proof -
  obtain shares where s: "distribute tot ws = Some shares"
      "map (\<lambda>s. unat (rs_amount s)) shares = map (share_amount tot ws) [0 ..< length ws]"
    using distribute_eq [OF assms] by blast
  have "sum_list (map unat (map rs_amount shares)) = unat tot"
    using sum_share_amount [OF assms(2)] s(2) by (simp add: comp_def)
  then have "sum_or_panic (map rs_amount shares) = Some tot" by (simp add: sum_or_panic_Some_iff)
  then show thesis using that s by blast
qed

lemma distribute_loop_ok:
  "\<forall>(tot, ws) \<in> set cases. length ws < 2 ^ 64 \<and> 0 < sum_list (map unat ws) \<Longrightarrow> distribute_loop cases = Some ()"
proof (induction cases rule: distribute_loop.induct)
  case (2 tot ws cases)
  obtain shares where "distribute tot ws = Some shares" "sum_or_panic (map rs_amount shares) = Some tot"
    using distribute_sum [of ws tot] 2(2) by auto
  then show ?case using 2 by auto
qed simp

lemma distribute_tests:
  "distribute_sums_exactly = Some ()" "equal_weights_equal_shares_modulo_remainder = Some ()" "descriptor_is_auditable = Some ()"
proof -
  show "distribute_sums_exactly = Some ()"
    unfolding distribute_sums_exactly_def by (rule distribute_loop_ok) simp
  have four: "length [1, 1, 1, 1 :: u64] < 2 ^ 64" "0 < sum_list (map unat [1, 1, 1, 1 :: u64])" by simp_all
  obtain shares where s: "distribute 100 [1, 1, 1, 1] = Some shares" "sum_or_panic (map rs_amount shares) = Some 100"
      "map (\<lambda>s. unat (rs_amount s)) shares = map (share_amount 100 [1, 1, 1, 1]) [0 ..< length [1, 1, 1, 1 :: u64]]"
    by (rule distribute_sum [OF four])
  have idx: "[0 ..< length [1, 1, 1, 1 :: u64]] = [0, 1, 2, 3]" by (simp add: upt_rec)
  have "map (\<lambda>s. unat (rs_amount s)) shares = [25, 25, 25, 25]"
    unfolding s(3) idx by (simp add: share_amount_def floor_amount_def floor_total_def)
  then have "set (map (\<lambda>s. unat (rs_amount s)) shares) = set [25, 25, 25, 25]" by (simp only:)
  then have "\<forall>s \<in> set shares. unat (rs_amount s) = 25" by auto
  then have "list_all (\<lambda>s. rs_amount s = 25) shares" by (auto simp: list_all_iff word_eq_iff_unsigned [where ?'a = nat])
  then show "equal_weights_equal_shares_modulo_remainder = Some ()"
    using s(1,2) by (simp add: equal_weights_equal_shares_modulo_remainder_def)
  obtain e where e: "emission_at emission_test_schedule 50 = Some e"
    using emission_at_eq [of emission_test_schedule 50] by (auto simp: emission_test_schedule_def)
  have two: "length [2, 1 :: u64] < 2 ^ 64" "0 < sum_list (map unat [2, 1 :: u64])" by simp_all
  obtain sh where "distribute e [2, 1] = Some sh" "sum_or_panic (map rs_amount sh) = Some e" by (rule distribute_sum [OF two])
  then show "descriptor_is_auditable = Some ()" using e by (simp add: descriptor_is_auditable_def emission_params_eq reward_descriptor_def)
qed

section \<open>The quota tests pass\<close>

lemma quota_positive [simp]: "0 < quota n"
proof -
  have "(0 :: u64) < 1" "1 \<le> quota n" by (simp_all add: quota_def)
  then show ?thesis by (rule less_le_trans)
qed

text \<open>The share that an honest signal carries.\<close>

definition share :: "blake3 \<Rightarrow> QuotaNote \<Rightarrow> u64 \<Rightarrow> u64 \<Rightarrow> bytes \<Rightarrow> RateProof" where
  "share B n epoch k m = \<lparr>rp_epoch = epoch, rp_rate_nullifier = rate_nullifier B n epoch k, rp_x = message_x B m,
     rp_y = field_add (quota_secret B n) (field_mul (quota_slope B n epoch) (message_x B m))\<rparr>"

lemma share_simps [simp]:
  "rp_epoch (share B n epoch k m) = epoch" "rp_rate_nullifier (share B n epoch k m) = rate_nullifier B n epoch k"
  by (simp_all add: share_def)

lemma signal_share [simp]: "k < quota n \<Longrightarrow> signal B n epoch k m = Inr (share B n epoch k m)"
  by (simp add: signal_Inr_iff share_def)

lemma honest_loop_ok:
  assumes "distinct (map (rate_nullifier B n 7) ks)" and "\<forall>k \<in> set ks. k < quota n"
    and "\<forall>k \<in> set ks. qr_seen reg (7, rate_nullifier B n 7 k) = None"
  shows "\<exists>reg'. honest_loop B n reg ks = Some reg'"
  using assms
proof (induction ks arbitrary: reg)
  case (Cons k ks)
  let ?p = "share B n 7 k (tx_message k)"
  let ?reg = "reg\<lparr>qr_seen := (qr_seen reg)((7, rate_nullifier B n 7 k) \<mapsto> (rp_x ?p, rp_y ?p))\<rparr>"
  have "rate_nullifier B n 7 j \<noteq> rate_nullifier B n 7 k" if "j \<in> set ks" for j
    using Cons.prems(1) imageI [OF that, of "rate_nullifier B n 7"] by auto
  then have "\<forall>j \<in> set ks. qr_seen ?reg (7, rate_nullifier B n 7 j) = None" using Cons.prems(3) by simp
  then have "\<exists>reg'. honest_loop B n ?reg ks = Some reg'" using Cons.prems by (intro Cons.IH) auto
  then show ?case using Cons.prems by (simp add: admit_fresh)
qed simp

lemma quota_arithmetic_tests: "quota_scales_with_stake_and_floors_at_one = Some ()" "field_inverse_is_correct = Some ()"
proof -
  show "quota_scales_with_stake_and_floors_at_one = Some ()"
    by (simp add: quota_scales_with_stake_and_floors_at_one_def quota_def quota_note_def STAKE_PER_SLOT_def)
  have "\<forall>a \<in> set [1, 2, 3, 1234567, P - 1]. a \<noteq> 0 \<and> a < P" by (simp add: P_def)
  then have "list_all (\<lambda>a. field_mul a (field_inv a) = 1) [1, 2, 3, 1234567, P - 1]"
    using field_inv_correct unfolding list_all_iff by blast
  then show "field_inverse_is_correct = Some ()" by (simp only: field_inverse_is_correct_def assert_True)
qed

lemma registry_tests:
  "same_slot_same_message_is_a_benign_duplicate B = Some ()" "different_epochs_reset_quota_and_dont_collide B = Some ()"
  "rate_nullifier B (staker 1) 5 0 \<noteq> rate_nullifier B (staker 2) 5 0 \<Longrightarrow> distinct_stakers_do_not_interfere B = Some ()"
  by (simp_all add: same_slot_same_message_is_a_benign_duplicate_def different_epochs_reset_quota_and_dont_collide_def
      distinct_stakers_do_not_interfere_def admit_def qr_new_def)

lemma honest_usage_test:
  assumes "distinct (map (rate_nullifier B (quota_note 3000) 7) [0, 1, 2])"
  shows "honest_usage_within_quota_is_admitted B = Some ()"
proof -
  have q: "quota (quota_note 3000) = 3" by (simp add: quota_def quota_note_def STAKE_PER_SLOT_def)
  obtain reg where "honest_loop B (quota_note 3000) qr_new [0, 1, 2] = Some reg"
    using honest_loop_ok [OF assms, of qr_new] by (auto simp: q qr_new_def simp del: honest_loop.simps)
  moreover have "signal B (quota_note 3000) 7 3 (tx_message 3) = Inl (QuotaExceeded 3 3)" by (simp add: signal_def q)
  ultimately show ?thesis by (simp add: honest_usage_within_quota_is_admitted_def del: honest_loop.simps)
qed

lemma slot_reuse_test:
  assumes "message_x B pay_alice \<noteq> message_x B pay_bob"
  shows "slot_reuse_for_two_messages_recovers_the_secret B = Some ()"
proof -
  let ?n = "quota_note 5000"
  obtain reg where "admit qr_new (share B ?n 9 0 pay_alice) = Some (reg, AdmitOk)"
      "admit reg (share B ?n 9 0 pay_bob) = Some (reg, Slash (quota_secret B ?n))"
    using double_signal_slashed [OF signal_share signal_share assms, where k = 0 and n = ?n and epoch = 9 and reg = qr_new]
    by (auto simp: qr_new_def)
  then show ?thesis by (simp add: slot_reuse_for_two_messages_recovers_the_secret_def)
qed

section \<open>The tree tests pass\<close>

lemma capacity: "n \<le> 1000 \<Longrightarrow> n \<le> 2 ^ TREE_DEPTH" for n :: nat
  by (simp add: TREE_DEPTH_def)

lemma survives_test: "witness_survives_appends B = Some ()"
proof -
  let ?s = "fst (ct_append (ct_new B) (tree_cm 1))"
  have s: "wf_tree B ?s" "length (ct_leaves ?s) \<le> 2 ^ TREE_DEPTH" "unat (0 :: u64) < length (ct_leaves ?s)"
      "cm_bytes (tree_cm 1) = ct_leaves ?s ! unat (0 :: u64)"
    using capacity [of 1] by simp_all
  obtain w where w: "ct_witness B ?s 0 = Some w" "verify_path B (tree_cm 1) w (ct_root B ?s)"
    using note_tree.witness_verifies [OF s] by blast
  have "snd (ct_append (ct_new B) (tree_cm 1)) = 0" by (simp add: ct_append_def Let_def)
  moreover have "anc_root (snd (ct_seal B t h)) = ct_root B t" for t h by (simp add: ct_seal_def Let_def)
  ultimately show ?thesis
    unfolding witness_survives_appends_def Let_def by (simp add: w split_beta)
qed

lemma eviction_test: "anchor_window_eviction B = Some ()"
  by (simp add: anchor_window_eviction_def ct_seal_def ct_append_def ct_new_def ct_anchor_valid_def ANCHOR_WINDOW_def saturating_sub_def Let_def)

lemma witnesses_loop_ok:
  assumes "wf_tree B t" and "ct_leaves t = map cm_bytes leaves" and "length leaves \<le> 1000" and "\<forall>i \<in> set ps. i < length leaves"
  shows "witnesses_loop B t (ct_root B t) leaves ps = Some ()"
  using assms(4)
proof (induction ps)
  case (Cons i ps)
  have i: "i < length leaves" "unat (word_of_nat i :: u64) = i" using Cons.prems assms(3) by (simp_all add: unat_word_of_nat_less)
  have "length (ct_leaves t) \<le> 2 ^ TREE_DEPTH" "unat (word_of_nat i :: u64) < length (ct_leaves t)"
      "cm_bytes (leaves ! i) = ct_leaves t ! unat (word_of_nat i :: u64)"
    using capacity [OF assms(3)] i assms(2) by simp_all
  then obtain w where "ct_witness B t (word_of_nat i) = Some w" "verify_path B (leaves ! i) w (ct_root B t)"
    using note_tree.witness_verifies [OF assms(1)] by blast
  then show ?case using Cons i(1) by (simp add: index_or_panic_def)
qed simp

lemma all_witnesses_test:
  assumes "n < 200"
  shows "all_witnesses_verify B n = Some ()"
proof -
  have fold: "ct_leaves (fold (\<lambda>leaf t. fst (ct_append t leaf)) leaves t) = ct_leaves t @ map cm_bytes leaves
      \<and> wf_tree B (fold (\<lambda>leaf t. fst (ct_append t leaf)) leaves t) = wf_tree B t" for leaves t
    by (induction leaves arbitrary: t) simp_all
  show ?thesis
    unfolding all_witnesses_verify_def Let_def using assms by (intro witnesses_loop_ok) (simp_all add: fold)
qed

text \<open>The small round trip fails only if the hash collides on the nodes of a path for the wrong leaf.\<close>

lemma roundtrip_loop_ok:
  assumes t: "wf_tree B t" "wf_leaves t" "length (ct_leaves t) \<le> 1000" and B: "digest32 B"
    and ps: "\<forall>(pos, leaf) \<in> set ps. unat pos < length (ct_leaves t) \<and> ct_leaves t ! unat pos = cm_bytes leaf \<and> leaf \<noteq> tree_cm 99"
    and fails: "roundtrip_loop B t (ct_root B t) ps \<noteq> Some ()"
  shows "\<exists>(pos, leaf) \<in> set ps. \<exists>(m, m') \<in> set (zip (path_msgs B (cm_bytes (tree_cm 99)) pos (slot_path B t pos))
    (path_msgs B (cm_bytes leaf) pos (slot_path B t pos))). collision_at B MERKLE_NODE m m'"
  using ps fails
proof (induction ps)
  case (Cons p ps)
  obtain pos leaf where p: "p = (pos, leaf)" by fastforce
  let ?w = "\<lparr>mp_position = pos, mp_siblings = slot_path B t pos\<rparr>"
  have pos: "unat pos < length (ct_leaves t)" "ct_leaves t ! unat pos = cm_bytes leaf" "leaf \<noteq> tree_cm 99"
    using Cons.prems(1) by (auto simp: p)
  have w: "ct_witness B t pos = Some ?w" using pos(1) capacity [OF t(3)] by (simp add: ct_witness_eq)
  obtain v where "ct_witness B t pos = Some v" "verify_path B leaf v (ct_root B t)"
    using note_tree.witness_verifies [OF t(1) capacity [OF t(3)] pos(1) pos(2) [symmetric]] by blast
  then have right: "verify_path B leaf ?w (ct_root B t)" using w by simp
  show ?case
  proof (cases "verify_path B (tree_cm 99) ?w (ct_root B t)")
    case True
    then have "path_root B (cm_bytes (tree_cm 99)) pos (slot_path B t pos) = path_root B (cm_bytes leaf) pos (slot_path B t pos)"
      using right by (simp add: verify_path_def)
    moreover have "length (cm_bytes leaf) = 32" using t(2) pos(1,2) unfolding wf_leaves_def list_all_length by metis
    moreover have "cm_bytes (tree_cm 99) \<noteq> cm_bytes leaf" using pos(3) by (metis Commitment.expand)
    ultimately show ?thesis
      using path_root_binding [of B "cm_bytes (tree_cm 99)" pos "slot_path B t pos" "cm_bytes leaf" "slot_path B t pos"]
        slot_path_length32 [OF B t(1,2)] B by (auto simp: p tree_cm_def)
  next
    case False
    then have "roundtrip_loop B t (ct_root B t) ps \<noteq> Some ()" using Cons.prems(2) w right by (simp add: p)
    with Cons.IH Cons.prems(1) show ?thesis by auto
  qed
qed simp

definition roundtrip_tree :: "blake3 \<Rightarrow> CommitmentTree" where
  "roundtrip_tree B = fold (\<lambda>leaf t. fst (ct_append t leaf)) [tree_cm 1, tree_cm 2, tree_cm 3] (ct_new B)"

lemma roundtrip_test:
  assumes "digest32 B" and "witness_roundtrip_small B \<noteq> Some ()"
  shows "\<exists>(pos, leaf) \<in> set [(0, tree_cm 1), (1, tree_cm 2), (2, tree_cm 3)].
    \<exists>(m, m') \<in> set (zip (path_msgs B (cm_bytes (tree_cm 99)) pos (slot_path B (roundtrip_tree B) pos))
      (path_msgs B (cm_bytes leaf) pos (slot_path B (roundtrip_tree B) pos))). collision_at B MERKLE_NODE m m'"
proof (rule roundtrip_loop_ok)
  show "roundtrip_loop B (roundtrip_tree B) (ct_root B (roundtrip_tree B)) [(0, tree_cm 1), (1, tree_cm 2), (2, tree_cm 3)] \<noteq> Some ()"
    using assms(2) by (simp add: witness_roundtrip_small_def roundtrip_tree_def ct_append_def Let_def del: roundtrip_loop.simps)
qed (use assms(1) in \<open>simp_all add: roundtrip_tree_def wf_leaves_def tree_cm_def\<close>)

end
