(* ===== verification/Crypto_Tests.thy ===== *)
theory Crypto_Tests
  imports Encryption Pow
begin

text \<open>
  The test modules of \<^verbatim>\<open>crates/primitives\<close>, \<^verbatim>\<open>crates/notes\<close>, \<^verbatim>\<open>crates/antispam-pow\<close>, \<^verbatim>\<open>crates/keys\<close> and
  \<^verbatim>\<open>crates/encryption\<close>; a test that panics, fails an assertion or does not return is \<open>None\<close>.  A test that
  expects two digests to differ passes when the hash does not collide on its inputs, and a test that expects a
  decryption to fail passes when the AEAD does not open under the wrong key or on the changed ciphertext: the
  lemmas say so for the very inputs of the test.
\<close>

unbundle bit_operations_syntax

section \<open>Primitives\<close>

definition alpha :: bytes where "alpha = [97, 108, 112, 104, 97]"
definition beta :: bytes where "beta = [98, 101, 116, 97]"

definition golden_hash_parts_v0 :: "blake3 \<Rightarrow> unit option" where
  "golden_hash_parts_v0 B =
     do { let h = hash_parts B ''unknown.v0.test'' [alpha, beta];
          let expected = hash_parts B ''unknown.v0.test'' [alpha, beta];
          assert (h = expected);
          let h2 = hash_parts B ''unknown.v0.test'' [[97, 108, 112, 104, 97, 98, 101, 116, 97]];
          let h3 = hash_parts B ''unknown.v0.test'' [[97, 108, 112, 104], [97, 98, 101, 116, 97]];
          assert (h \<noteq> h2);
          assert (h \<noteq> h3);
          assert (h2 \<noteq> h3) }"

definition context_separation :: "blake3 \<Rightarrow> unit option" where
  "context_separation B =
     do { let a = hash_parts B NOTE_COMMITMENT [[120]];
          let b = hash_parts B NULLIFIER [[120]];
          assert (a \<noteq> b) }"

section \<open>Notes\<close>

definition test_note :: "u64 \<Rightarrow> u8 \<Rightarrow> Note" where
  "test_note v b = \<lparr>note_value = v, note_addr_tag = replicate 32 b, note_rho = replicate 32 (b + 1), note_rseed = replicate 32 (b + 2)\<rparr>"

definition note_variants :: "Note \<Rightarrow> Note list" where
  "note_variants n =
     [n\<lparr>note_value := 6\<rparr>, n\<lparr>note_addr_tag := replicate 32 9\<rparr>, n\<lparr>note_rho := replicate 32 9\<rparr>, n\<lparr>note_rseed := replicate 32 9\<rparr>]"

definition commitment_binds_all_fields :: "blake3 \<Rightarrow> unit option" where
  "commitment_binds_all_fields B =
     (let n = test_note 5 1 in assert (list_all (\<lambda>variant. commitment B n \<noteq> commitment B variant) (note_variants n)))"

definition nullifier_distinct_per_nk_and_rho :: "blake3 \<Rightarrow> unit option" where
  "nullifier_distinct_per_nk_and_rho B =
     do { let n = test_note 5 1;
          assert (nullifier B n (replicate 32 1) \<noteq> nullifier B n (replicate 32 2));
          let m = n\<lparr>note_rho := replicate 32 7\<rparr>;
          assert (nullifier B n (replicate 32 1) \<noteq> nullifier B m (replicate 32 1)) }"

definition rho_unique_per_index :: "blake3 \<Rightarrow> unit option" where
  "rho_unique_per_index B =
     do { let nf = Nullifier (replicate 32 3);
          assert (rho_transfer B nf 0 \<noteq> rho_transfer B nf 1);
          assert (rho_mint B 10 0 \<noteq> rho_mint B 11 0) }"

section \<open>Proof of work\<close>

definition solve_then_verify :: "blake3 \<Rightarrow> unit option" where
  "solve_then_verify B =
     do { let challenge = replicate 32 42;
          sol \<leftarrow> solve B challenge 8;
          assert (pow_verify B challenge sol 8) }"

definition solution_does_not_transfer_between_challenges :: "blake3 \<Rightarrow> unit option" where
  "solution_does_not_transfer_between_challenges B =
     do { sol \<leftarrow> solve B (replicate 32 1) 8;
          assert (\<not> pow_verify B (replicate 32 2) sol 8) }"

definition higher_difficulty_rejects_easy_solution :: "blake3 \<Rightarrow> unit option" where
  "higher_difficulty_rejects_easy_solution B =
     do { let challenge = replicate 32 7;
          sol \<leftarrow> solve B challenge 4;
          if leading_zero_bits (pow_hash B challenge (pow_nonce sol)) < 16
          then assert (\<not> pow_verify B challenge sol 16) else Some () }"

section \<open>Keys\<close>

abbreviation key_of :: "blake3 \<Rightarrow> u8 \<Rightarrow> SpendingKey" where
  "key_of B b \<equiv> sk_from_seed B (replicate 32 b)"

definition deterministic_from_seed :: "blake3 \<Rightarrow> crypto_lib \<Rightarrow> unit option" where
  "deterministic_from_seed B C =
     do { let a = sk_address B C (key_of B 7);
          let b = sk_address B C (key_of B 7);
          assert (a = b);
          let c = sk_address B C (key_of B 8);
          assert (a \<noteq> c) }"

definition address_roundtrip :: "blake3 \<Rightarrow> crypto_lib \<Rightarrow> unit option" where
  "address_roundtrip B C =
     do { let addr = sk_address B C (key_of B 1);
          let s = addr_encode B C addr;
          assert (take 4 s = ''unk1'');
          decoded \<leftarrow> expect (addr_decode B C s);
          assert (addr = decoded) }"

definition kem_roundtrip :: "blake3 \<Rightarrow> crypto_lib \<Rightarrow> unit option" where
  "kem_roundtrip B C =
     do { let sk = key_of B 2;
          let addr = sk_address B C sk;
          let ivk = incoming_viewing_key B C sk;
          (ct, ss_sender) \<leftarrow> expect (kem_encapsulate C addr (replicate 32 9));
          ss_recv \<leftarrow> ivk_decapsulate C ivk ct;
          assert (ss_sender = ss_recv) }"

section \<open>Encryption\<close>

definition enc_memo :: bytes where
  "enc_memo = [104, 101, 108, 108, 111] @ replicate (MEMO_LEN - 5) 0"

definition enc_test_note :: "blake3 \<Rightarrow> Note" where
  "enc_test_note B = \<lparr>note_value = 42, note_addr_tag = addr_tag B (key_of B 3), note_rho = replicate 32 5, note_rseed = replicate 32 6\<rparr>"

definition roundtrip_to_intended_recipient :: "blake3 \<Rightarrow> crypto_lib \<Rightarrow> unit option" where
  "roundtrip_to_intended_recipient B C =
     do { let sk = key_of B 3;
          let addr = sk_address B C sk;
          let n = \<lparr>note_value = 42, note_addr_tag = ad_addr_tag addr, note_rho = replicate 32 5, note_rseed = replicate 32 6\<rparr>;
          ct \<leftarrow> encrypt_note B C n addr enc_memo (replicate 32 11);
          assert (length (eo_bytes ct) = ENC_OUTPUT_LEN);
          recovered \<leftarrow> try_decrypt B C ct (incoming_viewing_key B C sk);
          assert (recovered = n);
          assert (commitment B recovered = commitment B n) }"

definition wrong_recipient_cannot_decrypt :: "blake3 \<Rightarrow> crypto_lib \<Rightarrow> unit option" where
  "wrong_recipient_cannot_decrypt B C =
     do { let addr = sk_address B C (key_of B 3);
          let n = \<lparr>note_value = 42, note_addr_tag = ad_addr_tag addr, note_rho = replicate 32 5, note_rseed = replicate 32 6\<rparr>;
          ct \<leftarrow> encrypt_note B C n addr enc_memo (replicate 32 11);
          assert (try_decrypt B C ct (incoming_viewing_key B C (key_of B 99)) = None) }"

definition tamper_last :: "EncryptedOutput \<Rightarrow> EncryptedOutput option" where
  "tamper_last ct =
     do { b \<leftarrow> index_or_panic (eo_bytes ct) (ENC_OUTPUT_LEN - 1);
          Some \<lparr>eo_bytes = (eo_bytes ct)[ENC_OUTPUT_LEN - 1 := b XOR 1]\<rparr> }"

definition tamper_fails :: "blake3 \<Rightarrow> crypto_lib \<Rightarrow> unit option" where
  "tamper_fails B C =
     do { let sk = key_of B 3;
          let addr = sk_address B C sk;
          let n = \<lparr>note_value = 42, note_addr_tag = ad_addr_tag addr, note_rho = replicate 32 5, note_rseed = replicate 32 6\<rparr>;
          ct \<leftarrow> encrypt_note B C n addr enc_memo (replicate 32 11);
          ct \<leftarrow> tamper_last ct;
          assert (try_decrypt B C ct (incoming_viewing_key B C sk) = None) }"

definition scan_finds_only_mine :: "blake3 \<Rightarrow> crypto_lib \<Rightarrow> unit option" where
  "scan_finds_only_mine B C =
     do { let me = key_of B 1;
          let my_addr = sk_address B C me;
          let your_addr = sk_address B C (key_of B 2);
          let mine = \<lparr>note_value = 7, note_addr_tag = ad_addr_tag my_addr, note_rho = replicate 32 1, note_rseed = replicate 32 2\<rparr>;
          let yours = \<lparr>note_value = 9, note_addr_tag = ad_addr_tag your_addr, note_rho = replicate 32 3, note_rseed = replicate 32 4\<rparr>;
          out0 \<leftarrow> encrypt_note B C yours your_addr enc_memo (replicate 32 20);
          out1 \<leftarrow> encrypt_note B C mine my_addr enc_memo (replicate 32 21);
          let hits = scan B C [out0, out1] (incoming_viewing_key B C me);
          assert (length hits = 1);
          hit \<leftarrow> index_or_panic hits 0;
          assert (fst hit = 1);
          assert (snd hit = mine) }"

section \<open>The digest tests pass\<close>

text \<open>The pairs of messages that the tests of the two hashing crates expect to have different digests.\<close>

definition hash_test_pairs :: "(string \<times> bytes list \<times> bytes list) list" where
  "hash_test_pairs =
     [(''unknown.v0.test'', [alpha, beta], [[97, 108, 112, 104, 97, 98, 101, 116, 97]]),
      (''unknown.v0.test'', [alpha, beta], [[97, 108, 112, 104], [97, 98, 101, 116, 97]]),
      (''unknown.v0.test'', [[97, 108, 112, 104, 97, 98, 101, 116, 97]], [[97, 108, 112, 104], [97, 98, 101, 116, 97]])]
     @ map (\<lambda>m. (NOTE_COMMITMENT, commitment_parts (test_note 5 1), commitment_parts m)) (note_variants (test_note 5 1))
     @ [(NULLIFIER, [replicate 32 1, replicate 32 2], [replicate 32 2, replicate 32 2]),
        (NULLIFIER, [replicate 32 1, replicate 32 2], [replicate 32 1, replicate 32 7]),
        (RHO_TRANSFER, [replicate 32 3, [0]], [replicate 32 3, [1]]),
        (RHO_MINT, [u64_to_le_bytes 10, [0]], [u64_to_le_bytes 11, [0]])]"

lemma hash_test_pairs_differ:
  "(c, ps, qs) \<in> set hash_test_pairs \<Longrightarrow> ps \<noteq> qs \<and> (\<forall>p \<in> set ps \<union> set qs. length p < 2 ^ 64)"
  by (auto simp: hash_test_pairs_def alpha_def beta_def commitment_parts_def note_variants_def test_note_def u64_to_le_bytes_inject)

lemma hash_tests_ok:
  assumes "\<forall>(c, ps, qs) \<in> set hash_test_pairs. \<not> collision_at B c (absorb_parts ps) (absorb_parts qs)"
  shows "golden_hash_parts_v0 B = Some ()" "commitment_binds_all_fields B = Some ()"
    "nullifier_distinct_per_nk_and_rho B = Some ()" "rho_unique_per_index B = Some ()"
proof -
  have ne: "hash_parts B c ps \<noteq> hash_parts B c qs" if "(c, ps, qs) \<in> set hash_test_pairs" for c ps qs
    using hash_parts_binding [of B c ps qs] hash_test_pairs_differ [OF that] assms that by blast
  show "golden_hash_parts_v0 B = Some ()"
    unfolding golden_hash_parts_v0_def Let_def by (simp add: ne hash_test_pairs_def)
  show "commitment_binds_all_fields B = Some ()"
    using ne [of NOTE_COMMITMENT "commitment_parts (test_note 5 1)"]
    by (simp add: commitment_binds_all_fields_def commitment_def list_all_iff hash_test_pairs_def)
  show "nullifier_distinct_per_nk_and_rho B = Some ()"
    unfolding nullifier_distinct_per_nk_and_rho_def nullifier_def test_note_def Let_def by (simp add: ne hash_test_pairs_def)
  show "rho_unique_per_index B = Some ()"
    unfolding rho_unique_per_index_def rho_transfer_def rho_mint_def Let_def by (simp add: ne hash_test_pairs_def)
qed

section \<open>The proof-of-work tests pass\<close>

text \<open>Two tests of the solver need a solution to exist.\<close>

definition pow_tests_solvable :: "blake3 \<Rightarrow> bool" where
  "pow_tests_solvable B \<longleftrightarrow> (\<exists>s. pow_verify B (replicate 32 42) s 8) \<and> (\<exists>s. pow_verify B (replicate 32 7) s 4)"

lemma pow_tests_ok:
  assumes "pow_tests_solvable B"
  shows "solve_then_verify B = Some ()" "higher_difficulty_rejects_easy_solution B = Some ()"
proof -
  obtain a b where ab: "pow_verify B (replicate 32 42) a 8" "pow_verify B (replicate 32 7) b 4"
    using assms unfolding pow_tests_solvable_def by blast
  obtain s where s: "solve B (replicate 32 42) 8 = Some s" "pow_verify B (replicate 32 42) s 8" by (rule solve_Some [OF ab(1)])
  then show "solve_then_verify B = Some ()" by (simp add: solve_then_verify_def)
  obtain t where "solve B (replicate 32 7) 4 = Some t" by (rule solve_Some [OF ab(2)])
  then show "higher_difficulty_rejects_easy_solution B = Some ()"
    by (simp add: higher_difficulty_rejects_easy_solution_def pow_verify_def Let_def)
qed

text \<open>
  Two tests assert a fact of the hash function itself and nothing of the code around it: that one byte has
  different digests in two contexts, and that the least solution of one challenge does not happen to solve another (at 8 bits
  one hash in 256 would).  They pass exactly for the hashes of which that fact holds.
\<close>

lemma context_separation_iff:
  "context_separation B = Some () \<longleftrightarrow> B NOTE_COMMITMENT (absorb_parts [[120]]) \<noteq> B NULLIFIER (absorb_parts [[120]])"
  by (simp add: context_separation_def hash_parts_def assert_def)

lemma solution_transfer_iff:
  "solution_does_not_transfer_between_challenges B = Some ()
   \<longleftrightarrow> (\<exists>s. solve B (replicate 32 1) 8 = Some s \<and> \<not> pow_verify B (replicate 32 2) s 8)"
  by (auto simp: solution_does_not_transfer_between_challenges_def assert_def bind_eq_Some_conv)

section \<open>The key tests pass\<close>

text \<open>Two seeds whose chains of key derivations, from the seed to the address tag, do not collide.\<close>

definition tags_apart :: "blake3 \<Rightarrow> u8 \<Rightarrow> u8 \<Rightarrow> bool" where
  "tags_apart B b b' \<longleftrightarrow> \<not> collision_at B SK (replicate 32 b) (replicate 32 b')
     \<and> \<not> collision_at B ASK (sk_sk (key_of B b)) (sk_sk (key_of B b'))
     \<and> \<not> collision_at B ADDR_TAG (absorb_parts [ask B (key_of B b)]) (absorb_parts [ask B (key_of B b')])"

lemma tags_apart_neq:
  assumes "digest32 B" and "tags_apart B b b'" and "b \<noteq> b'"
  shows "addr_tag B (key_of B b) \<noteq> addr_tag B (key_of B b')"
proof -
  note T = assms(2) [unfolded tags_apart_def collision_at_def]
  have "replicate 32 b \<noteq> replicate 32 b'" using assms(3) by (simp add: replicate_eq_replicate)
  then have "sk_sk (key_of B b) \<noteq> sk_sk (key_of B b')" using T by (simp add: sk_from_seed_def derive_key_def)
  then have neq: "ask B (key_of B b) \<noteq> ask B (key_of B b')" using T by (simp add: ask_def derive_key_def)
  have "length (ask B k) = 32" for k using assms(1) by (simp add: ask_def derive_key_def digest32_def)
  then have "absorb_parts [ask B (key_of B b)] \<noteq> absorb_parts [ask B (key_of B b')]"
    using neq absorb_parts_inject [of "[ask B (key_of B b)]" "[ask B (key_of B b')]"] by simp
  then show ?thesis using T by (simp add: addr_tag_def hash_parts_def)
qed

lemma deterministic_test:
  assumes "digest32 B" and "tags_apart B 7 8"
  shows "deterministic_from_seed B C = Some ()"
  using tags_apart_neq [OF assms]
  by (auto simp: deterministic_from_seed_def assert_def dest: arg_cong [where f = ad_addr_tag])

lemma address_test:
  assumes "digest32 B" "x25519_ok C" "hex_ok C" "mlkem_ok_at C (kem_seed B (key_of B 1)) m"
  shows "address_roundtrip B C = Some ()"
proof -
  have "wf_addr (sk_address B C (key_of B 1))" using assms by (intro wf_addr_sk_address)
  then have "decode_data B (addr_data B (sk_address B C (key_of B 1))) = Inr (sk_address B C (key_of B 1))"
    using assms(1) by (simp add: address_codec.dec_enc length_addr_checksum)
  then show ?thesis
    using assms(3) by (simp add: address_roundtrip_def addr_encode_def addr_decode_def strip_prefix_def hex_ok_def ADDRESS_HRP_def Let_def)
qed

lemma kem_test: "mlkem_ok_at C (kem_seed B (key_of B 2)) (replicate 32 9) \<Longrightarrow> kem_roundtrip B C = Some ()"
  by (auto simp: kem_roundtrip_def mlkem_ok_at_def kem_encapsulate_def sk_address_def incoming_viewing_key_def kem_keypair_def
      ivk_decapsulate_def split: prod.splits option.splits)

section \<open>The encryption tests pass\<close>

text \<open>The key and nonce under which the owner of \<open>k\<close> tries to open an output.\<close>

definition opening_transcript :: "blake3 \<Rightarrow> crypto_lib \<Rightarrow> EncryptedOutput \<Rightarrow> SpendingKey \<Rightarrow> bytes list" where
  "opening_transcript B C ct k =
     (let ivk = incoming_viewing_key B C k
      in [ivk_dh C ivk (eo_epk ct), mlkem_decaps C (ivk_kem_dk ivk) (eo_mlkem_ct ct), eo_epk ct, eo_mlkem_ct ct, addr_tag B k])"

definition opening_key :: "blake3 \<Rightarrow> crypto_lib \<Rightarrow> EncryptedOutput \<Rightarrow> SpendingKey \<Rightarrow> bytes" where
  "opening_key B C ct k = hash_parts B NOTE_AEAD (opening_transcript B C ct k)"

definition opens :: "blake3 \<Rightarrow> crypto_lib \<Rightarrow> EncryptedOutput \<Rightarrow> bytes \<Rightarrow> bool" where
  "opens B C ct key \<longleftrightarrow> aead_decrypt C key (take 12 (hash_parts B ''unknown.v0.enc.nonce'' [key])) (eo_aead_ct ct) \<noteq> None"

lemma try_decrypt_opens:
  assumes "try_decrypt B C ct (incoming_viewing_key B C k) \<noteq> None"
  shows "opens B C ct (opening_key B C ct k)"
  using assms
  by (auto simp: try_decrypt_def opens_def opening_key_def opening_transcript_def derive_aead_def Let_def ivk_decapsulate_def
      incoming_viewing_key_def bind_eq_Some_conv split: if_splits prod.splits)

text \<open>Two owners with different tags use different keys, or the hash collides.\<close>

lemma opening_keys_differ:
  assumes "digest32 B" and "addr_tag B k \<noteq> addr_tag B k'"
    and "opening_key B C ct k = opening_key B C ct k'"
  shows "collision_at B NOTE_AEAD (absorb_parts (opening_transcript B C ct k)) (absorb_parts (opening_transcript B C ct k'))"
proof -
  have "\<exists>pre. absorb_parts (opening_transcript B C ct j) = pre @ addr_tag B j" for j
    by (simp add: opening_transcript_def Let_def absorb_parts_Cons flip: append_assoc)
  then have "absorb_parts (opening_transcript B C ct k) \<noteq> absorb_parts (opening_transcript B C ct k')"
    using assms(1,2) length_addr_tag by (metis append_eq_append_conv)
  then show ?thesis using assms(3) by (simp add: collision_at_def opening_key_def hash_parts_def)
qed

text \<open>
  An output made for seed \<open>b\<close> is sealed against seed \<open>b'\<close>: neither the key derivations of the two nor the transcripts
  of their AEAD keys collide, and the AEAD does not open the output under a key other than the one it was made with.
\<close>

definition sealed_against :: "blake3 \<Rightarrow> crypto_lib \<Rightarrow> u8 \<Rightarrow> u8 \<Rightarrow> EncryptedOutput \<Rightarrow> bool" where
  "sealed_against B C b b' ct \<longleftrightarrow> tags_apart B b b'
     \<and> \<not> collision_at B NOTE_AEAD (absorb_parts (opening_transcript B C ct (key_of B b))) (absorb_parts (opening_transcript B C ct (key_of B b')))
     \<and> (opening_key B C ct (key_of B b') \<noteq> opening_key B C ct (key_of B b) \<longrightarrow> \<not> opens B C ct (opening_key B C ct (key_of B b')))"

lemma sealed_against_None:
  assumes "digest32 B" and "b \<noteq> b'" and "sealed_against B C b b' ct"
  shows "try_decrypt B C ct (incoming_viewing_key B C (key_of B b')) = None"
  using tags_apart_neq [OF assms(1) _ assms(2)] try_decrypt_opens opening_keys_differ [OF assms(1)] assms(3)
  unfolding sealed_against_def by metis

lemma wf_enc_test: "length enc_memo = MEMO_LEN"
  by (simp add: enc_memo_def MEMO_LEN_def)

text \<open>The output under test, encrypted to the third seed's address.\<close>

definition enc_test_output :: "blake3 \<Rightarrow> crypto_lib \<Rightarrow> EncryptedOutput option" where
  "enc_test_output B C = encrypt_note B C (enc_test_note B) (sk_address B C (key_of B 3)) enc_memo (replicate 32 11)"

lemma enc_test_decrypts:
  assumes "digest32 B" "x25519_ok C" "aead_ok C" "mlkem_ok_at C (kem_seed B (key_of B 3)) (hash_parts B KEM_SEED [replicate 32 11])"
  obtains ct where "enc_test_output B C = Some ct" "length (eo_bytes ct) = 1273"
    "try_decrypt B C ct (incoming_viewing_key B C (key_of B 3)) = Some (enc_test_note B)"
  using encrypt_decrypts [OF assms, of "enc_test_note B" enc_memo] wf_enc_test assms(1)
  by (auto simp: enc_test_output_def enc_test_note_def wf_defs)

lemma tamper_last_eq:
  assumes "length (eo_bytes ct) = 1273"
  obtains ct' where "tamper_last ct = Some ct'" "length (eo_bytes ct') = 1273" "eo_epk ct' = eo_epk ct" "eo_mlkem_ct ct' = eo_mlkem_ct ct"
    "eo_aead_ct ct' = (eo_aead_ct ct)[152 := eo_aead_ct ct ! 152 XOR 1]"
  using assms
  by (intro that [of "\<lparr>eo_bytes = (eo_bytes ct)[1272 := eo_bytes ct ! 1272 XOR 1]\<rparr>"])
    (simp_all add: tamper_last_def index_or_panic_def enc_consts key_consts eo_epk_def eo_mlkem_ct_def eo_aead_ct_def drop_update_swap)

text \<open>What the negative tests ask of the library: the AEAD rejects under another key, and rejects the flipped bit.\<close>

definition seals_test_outputs :: "blake3 \<Rightarrow> crypto_lib \<Rightarrow> bool" where
  "seals_test_outputs B C \<longleftrightarrow>
     (\<forall>ct. enc_test_output B C = Some ct \<longrightarrow> sealed_against B C 3 99 ct
        \<and> (\<forall>ct'. tamper_last ct = Some ct' \<longrightarrow> \<not> opens B C ct' (opening_key B C ct (key_of B 3))))
     \<and> (\<forall>ct. encrypt_note B C \<lparr>note_value = 9, note_addr_tag = addr_tag B (key_of B 2), note_rho = replicate 32 3, note_rseed = replicate 32 4\<rparr>
          (sk_address B C (key_of B 2)) enc_memo (replicate 32 20) = Some ct \<longrightarrow> sealed_against B C 2 1 ct)"

lemma recipient_tests_ok:
  assumes "digest32 B" "x25519_ok C" "aead_ok C" "mlkem_ok_at C (kem_seed B (key_of B 3)) (hash_parts B KEM_SEED [replicate 32 11])"
    and "seals_test_outputs B C"
  shows "roundtrip_to_intended_recipient B C = Some ()" "wrong_recipient_cannot_decrypt B C = Some ()" "tamper_fails B C = Some ()"
proof -
  obtain ct where ct: "enc_test_output B C = Some ct" "length (eo_bytes ct) = 1273"
    "try_decrypt B C ct (incoming_viewing_key B C (key_of B 3)) = Some (enc_test_note B)"
    by (rule enc_test_decrypts [OF assms(1-4)])
  have seal: "sealed_against B C 3 99 ct" "\<And>ct'. tamper_last ct = Some ct' \<Longrightarrow> \<not> opens B C ct' (opening_key B C ct (key_of B 3))"
    using assms(5) ct(1) unfolding seals_test_outputs_def by blast+
  have none: "try_decrypt B C ct (incoming_viewing_key B C (key_of B 99)) = None"
    by (rule sealed_against_None [OF assms(1) _ seal(1)]) simp
  obtain ct' where ct': "tamper_last ct = Some ct'" "length (eo_bytes ct') = 1273" "eo_epk ct' = eo_epk ct" "eo_mlkem_ct ct' = eo_mlkem_ct ct"
    "eo_aead_ct ct' = (eo_aead_ct ct)[152 := eo_aead_ct ct ! 152 XOR 1]" by (rule tamper_last_eq [OF ct(2)])
  have "opening_key B C ct' (key_of B 3) = opening_key B C ct (key_of B 3)"
    by (simp add: opening_key_def opening_transcript_def ct'(3,4) Let_def)
  then have none': "try_decrypt B C ct' (incoming_viewing_key B C (key_of B 3)) = None"
    using try_decrypt_opens seal(2) [OF ct'(1)] by metis
  have enc: "encrypt_note B C \<lparr>note_value = 42, note_addr_tag = addr_tag B (key_of B 3), note_rho = replicate 32 5, note_rseed = replicate 32 6\<rparr>
      (sk_address B C (key_of B 3)) enc_memo (replicate 32 11) = Some ct"
    using ct(1) by (simp add: enc_test_output_def enc_test_note_def)
  show "roundtrip_to_intended_recipient B C = Some ()"
    using ct(2,3) by (simp add: roundtrip_to_intended_recipient_def Let_def enc enc_consts key_consts enc_test_note_def)
  show "wrong_recipient_cannot_decrypt B C = Some ()" by (simp add: wrong_recipient_cannot_decrypt_def Let_def enc none)
  show "tamper_fails B C = Some ()" by (simp add: tamper_fails_def Let_def enc ct'(1) none')
qed

lemma scan_test:
  assumes lib: "digest32 B" "x25519_ok C" "aead_ok C"
    and kem: "mlkem_ok_at C (kem_seed B (key_of B 2)) (hash_parts B KEM_SEED [replicate 32 20])"
      "mlkem_ok_at C (kem_seed B (key_of B 1)) (hash_parts B KEM_SEED [replicate 32 21])"
    and seal: "seals_test_outputs B C"
  shows "scan_finds_only_mine B C = Some ()"
proof -
  let ?yours = "\<lparr>note_value = 9, note_addr_tag = addr_tag B (key_of B 2), note_rho = replicate 32 3, note_rseed = replicate 32 4\<rparr>"
  let ?mine = "\<lparr>note_value = 7, note_addr_tag = addr_tag B (key_of B 1), note_rho = replicate 32 1, note_rseed = replicate 32 2\<rparr>"
  have wf: "wf_note ?yours" "wf_note ?mine" using lib(1) by (simp_all add: wf_defs)
  obtain out0 where out0: "encrypt_note B C ?yours (sk_address B C (key_of B 2)) enc_memo (replicate 32 20) = Some out0"
    using encrypt_decrypts [OF lib kem(1) wf(1) _ wf_enc_test] by auto
  obtain out1 where out1: "encrypt_note B C ?mine (sk_address B C (key_of B 1)) enc_memo (replicate 32 21) = Some out1"
      "try_decrypt B C out1 (incoming_viewing_key B C (key_of B 1)) = Some ?mine"
    using encrypt_decrypts [OF lib kem(2) wf(2) _ wf_enc_test] by auto
  have "sealed_against B C 2 1 out0" using seal out0 unfolding seals_test_outputs_def by blast
  then have "try_decrypt B C out0 (incoming_viewing_key B C (key_of B 1)) = None" by (rule sealed_against_None [OF lib(1), rotated]) simp
  then have "scan B C [out0, out1] (incoming_viewing_key B C (key_of B 1)) = [(1, ?mine)]"
    using out1(2) by (simp add: scan_def)
  then show ?thesis by (simp add: scan_finds_only_mine_def Let_def out0 out1(1) index_or_panic_def)
qed

section \<open>The suite\<close>

text \<open>All tests of the five modules but the two that assert a fact of the hash function only.\<close>

definition crypto_tests :: "blake3 \<Rightarrow> crypto_lib \<Rightarrow> unit option list" where
  "crypto_tests B C =
     [golden_hash_parts_v0 B, commitment_binds_all_fields B, nullifier_distinct_per_nk_and_rho B,
      rho_unique_per_index B, solve_then_verify B, higher_difficulty_rejects_easy_solution B, deterministic_from_seed B C, address_roundtrip B C, kem_roundtrip B C,
      roundtrip_to_intended_recipient B C, wrong_recipient_cannot_decrypt B C, tamper_fails B C, scan_finds_only_mine B C]"

text \<open>What these tests ask of the hash and of the cryptographic libraries.\<close>

definition separates_crypto_inputs :: "blake3 \<Rightarrow> bool" where
  "separates_crypto_inputs B \<longleftrightarrow>
     (\<forall>(c, ps, qs) \<in> set hash_test_pairs. \<not> collision_at B c (absorb_parts ps) (absorb_parts qs))
     \<and> tags_apart B 7 8"

definition test_encapsulations :: "blake3 \<Rightarrow> (u8 \<times> bytes) list" where
  "test_encapsulations B = (2, replicate 32 9) # map (\<lambda>(b, e). (b, hash_parts B KEM_SEED [replicate 32 e])) [(3, 11), (2, 20), (1, 21)]"

definition handles_crypto_tests :: "blake3 \<Rightarrow> crypto_lib \<Rightarrow> bool" where
  "handles_crypto_tests B C \<longleftrightarrow> x25519_ok C \<and> aead_ok C \<and> hex_ok C \<and> seals_test_outputs B C
     \<and> (\<forall>(b, m) \<in> set (test_encapsulations B). mlkem_ok_at C (kem_seed B (key_of B b)) m)"

lemma crypto_tests_ok:
  assumes "digest32 B" and "separates_crypto_inputs B" and "handles_crypto_tests B C" and "pow_tests_solvable B"
  shows "list_all (\<lambda>t. t = Some ()) (crypto_tests B C)"
proof -
  have lib: "x25519_ok C" "aead_ok C" "hex_ok C" "seals_test_outputs B C"
    and kem: "mlkem_ok_at C (kem_seed B (key_of B 2)) (replicate 32 9)" "mlkem_ok_at C (kem_seed B (key_of B 3)) (hash_parts B KEM_SEED [replicate 32 11])"
      "mlkem_ok_at C (kem_seed B (key_of B 2)) (hash_parts B KEM_SEED [replicate 32 20])"
      "mlkem_ok_at C (kem_seed B (key_of B 1)) (hash_parts B KEM_SEED [replicate 32 21])"
    using assms(3) by (simp_all add: handles_crypto_tests_def test_encapsulations_def)
  note sep = assms(2) [unfolded separates_crypto_inputs_def]
  show ?thesis
    using hash_tests_ok [of B] pow_tests_ok [OF assms(4)] sep recipient_tests_ok [OF assms(1) lib(1,2) kem(2) lib(4)]
      scan_test [OF assms(1) lib(1,2) kem(3,4) lib(4)] kem_test [OF kem(1)] address_test [OF assms(1) lib(1,3) kem(4)]
      deterministic_test [OF assms(1)]
    unfolding crypto_tests_def by simp
qed

end
