(* ===== verification/Spend_Tests.thy ===== *)
theory Spend_Tests
  imports Crypto_Tests Knockout Lifecycle "HOL-Library.Sublist"
begin

text \<open>
  The test modules of \<^verbatim>\<open>crates/prover-dev\<close>, \<^verbatim>\<open>crates/knockout\<close>, \<^verbatim>\<open>crates/wallet\<close> and \<^verbatim>\<open>crates/node\<close>; a test that
  panics or fails an assertion is \<open>None\<close>.  The prover's fixture derives its output nonces from the real input's
  nullifier, so it is a valid witness only if that nullifier sorts before the one of the dummy:
  \<open>vt_ordered\<close> is that condition on the hash.
\<close>

section \<open>The prover's fixture\<close>

definition vt_input :: "blake3 \<Rightarrow> Note" where
  "vt_input B = \<lparr>note_value = 100, note_addr_tag = addr_tag B (key_of B 1), note_rho = replicate 32 9, note_rseed = replicate 32 8\<rparr>"

definition valid_transfer :: "blake3 \<Rightarrow> (SpendWitness \<times> Anchor) option" where
  "valid_transfer B =
     do { let sk = key_of B 1;
          let key = nk B sk;
          let tag = addr_tag B sk;
          let input = vt_input B;
          let (tree, pos) = ct_append (ct_new B) (commitment B input);
          let (tree, dummy_pos) = ct_append tree (commitment B (dummy B (replicate 32 7)));
          let (tree, anchor) = ct_seal B tree 0;
          path \<leftarrow> ct_witness B tree pos;
          let dummy_in = dummy B (replicate 32 5);
          unused \<leftarrow> ct_witness B tree 0;
          let inputs = [\<lparr>iw_note = input, iw_path = path, iw_is_dummy = False\<rparr>,
                        \<lparr>iw_note = dummy_in, iw_path = unused, iw_is_dummy = True\<rparr>];
          let first_nf = nullifier B input key;
          let recipient_tag = addr_tag B (key_of B 2);
          let out0 = \<lparr>note_value = 100, note_addr_tag = recipient_tag, note_rho = rho_transfer B first_nf 0, note_rseed = replicate 32 1\<rparr>;
          let out1 = \<lparr>note_value = 0, note_addr_tag = tag, note_rho = rho_transfer B first_nf 1, note_rseed = replicate 32 2\<rparr>;
          Some (\<lparr>sw_spender_nk = key, sw_spender_addr_tag = tag, sw_inputs = inputs, sw_outputs = [out0, out1],
                 sw_mint_value = 0, sw_binding_digest = replicate 32 3\<rparr>, anchor) }"

section \<open>The prover's tests\<close>

definition valid_witness_proves_and_verifies :: "blake3 \<Rightarrow> unit option" where
  "valid_witness_proves_and_verifies B =
     do { (w, anchor) \<leftarrow> valid_transfer B;
          (pi, pf) \<leftarrow> expect (prove B w anchor);
          expect (dev_verify B pi pf) }"

text \<open>\<^verbatim>\<open>unwrap_err\<close>.\<close>

definition unwrap_err :: "'e + 'a \<Rightarrow> 'e option" where
  "unwrap_err r = (case r of Inl e \<Rightarrow> Some e | Inr _ \<Rightarrow> None)"

definition imbalanced_value_rejected :: "blake3 \<Rightarrow> unit option" where
  "imbalanced_value_rejected B =
     do { (w, anchor) \<leftarrow> valid_transfer B;
          let w = update_output 0 (\<lambda>out. out\<lparr>note_value := 101\<rparr>) w;
          err \<leftarrow> unwrap_err (prove B w anchor);
          assert (err = Unsatisfied ''C7: value imbalance'') }"

definition forged_membership_rejected :: "blake3 \<Rightarrow> unit option" where
  "forged_membership_rejected B =
     do { (w, anchor) \<leftarrow> valid_transfer B;
          let w = update_input 0 (\<lambda>i. i\<lparr>iw_note := \<lparr>note_value = 100, note_addr_tag = sw_spender_addr_tag w,
                note_rho = replicate 32 42, note_rseed = replicate 32 1\<rparr>\<rparr>) w;
          err \<leftarrow> unwrap_err (prove B w anchor);
          assert (err = Unsatisfied ''C1: membership proof invalid'') }"

definition stealing_someone_elses_note_rejected :: "blake3 \<Rightarrow> unit option" where
  "stealing_someone_elses_note_rejected B =
     do { (w, anchor) \<leftarrow> valid_transfer B;
          let w = w\<lparr>sw_spender_addr_tag := addr_tag B (key_of B 77)\<rparr>;
          err \<leftarrow> unwrap_err (prove B w anchor);
          assert (case err of Unsatisfied _ \<Rightarrow> True) }"

definition verifier_rejects_tampered_public_inputs :: "blake3 \<Rightarrow> unit option" where
  "verifier_rejects_tampered_public_inputs B =
     do { (w, anchor) \<leftarrow> valid_transfer B;
          (pi, pf) \<leftarrow> expect (prove B w anchor);
          m \<leftarrow> add_or_panic (pi_mint_value pi) 1;
          let pi = pi\<lparr>pi_mint_value := m\<rparr>;
          assert (dev_verify B pi pf = Inl VerifyInvalid) }"

definition verifier_rejects_nonzero_padding :: "blake3 \<Rightarrow> unit option" where
  "verifier_rejects_nonzero_padding B =
     do { (w, anchor) \<leftarrow> valid_transfer B;
          (pi, pf) \<leftarrow> expect (prove B w anchor);
          _ \<leftarrow> index_or_panic pf (PROOF_BUCKET - 1);
          let pf = pf[PROOF_BUCKET - 1 := 1];
          assert (dev_verify B pi pf = Inl VerifyMalformed) }"

section \<open>The knockout tests\<close>

definition every_constraint_is_load_bearing :: "blake3 \<Rightarrow> unit option" where
  "every_constraint_is_load_bearing B =
     do { results \<leftarrow> run_knockouts B;
          let failures = map (\<lambda>k. ko_mutation k @ '' (expected '' @ ko_expected_constraint k @ '')'')
                (filter (\<lambda>k. \<not> ko_passed k) results);
          assert (failures = []);
          assert (length results \<ge> 13) }"

fun isolable_loop :: "Knockout list \<Rightarrow> unit option" where
  "isolable_loop [] = Some ()"
| "isolable_loop (k # ks) =
     do { (case ko_fired k of
             Some msg \<Rightarrow> if ko_expected_constraint k \<in> {''C2'', ''C7'', ''C8'', ''C4''}
                         then assert (sublist (ko_expected_constraint k) msg) else Some ()
           | None \<Rightarrow> Some ());
          isolable_loop ks }"

definition expected_constraint_fires_where_isolable :: "blake3 \<Rightarrow> unit option" where
  "expected_constraint_fires_where_isolable B = do { ks \<leftarrow> run_knockouts B; isolable_loop ks }"

section \<open>The wallet's tests\<close>

definition end_to_end_transfer_verifies :: "blake3 \<Rightarrow> crypto_lib \<Rightarrow> unit option" where
  "end_to_end_transfer_verifies B C =
     do { let alice = w_from_seed B (replicate 32 1);
          let bob = w_from_seed B (replicate 32 2);
          let alice_note = \<lparr>note_value = 100, note_addr_tag = ad_addr_tag (w_address B C alice), note_rho = replicate 32 9, note_rseed = replicate 32 8\<rparr>;
          let (tree, pos) = ct_append (ct_new B) (commitment B alice_note);
          let (tree, anchor) = ct_seal B tree 0;
          let alice = alice\<lparr>w_unspent := w_unspent alice @ [\<lparr>nr_note = alice_note, nr_position = pos\<rparr>]\<rparr>;
          r \<leftarrow> build_transfer B C alice (w_address B C bob) 30 anchor (ct_witness B tree) (replicate 32 42);
          tx \<leftarrow> expect r;
          _ \<leftarrow> expect (validate_stateless B tx (dev_verify B) 0);
          out0 \<leftarrow> index_or_panic (tx_enc_outputs tx) 0;
          let (bob, got) = try_receive B C bob out0 1;
          assert got;
          b \<leftarrow> balance bob;
          assert (b = 30);
          out1 \<leftarrow> index_or_panic (tx_enc_outputs tx) 1;
          let (alice2, got) = try_receive B C (w_from_seed B (replicate 32 1)) out1 2;
          assert got;
          b \<leftarrow> balance alice2;
          assert (b = 70) }"

definition insufficient_funds :: "blake3 \<Rightarrow> crypto_lib \<Rightarrow> unit option" where
  "insufficient_funds B C =
     do { let alice = w_from_seed B (replicate 32 1);
          let bob = w_from_seed B (replicate 32 2);
          let tree = ct_new B;
          let anchor = \<lparr>anc_height = 0, anc_root = ct_root B tree\<rparr>;
          r \<leftarrow> build_transfer B C alice (w_address B C bob) 10 anchor (ct_witness B tree) (replicate 32 0);
          err \<leftarrow> unwrap_err r;
          assert (err = InsufficientFunds 0 10) }"

definition spending_marks_note_consumed :: "blake3 \<Rightarrow> crypto_lib \<Rightarrow> unit option" where
  "spending_marks_note_consumed B C =
     do { let alice_note = \<lparr>note_value = 50, note_addr_tag = ad_addr_tag (w_address B C (w_from_seed B (replicate 32 1))),
                note_rho = replicate 32 1, note_rseed = replicate 32 2\<rparr>;
          let alice = w_from_seed B (replicate 32 1);
          let alice = alice\<lparr>w_unspent := w_unspent alice @ [\<lparr>nr_note = alice_note, nr_position = 0\<rparr>]\<rparr>;
          b \<leftarrow> balance alice;
          assert (b = 50);
          let nf = nullifier B alice_note (nk B (w_sk alice));
          let alice = observe_nullifiers B alice [nf];
          b \<leftarrow> balance alice;
          assert (b = 0) }"

section \<open>The node's test\<close>

definition full_lifecycle_demo_succeeds :: "blake3 \<Rightarrow> crypto_lib \<Rightarrow> unit option" where
  "full_lifecycle_demo_succeeds B C =
     do { r \<leftarrow> run_demo B C;
          log \<leftarrow> expect r;
          assert (list_ex (\<lambda>l. case l of FinalLine _ \<Rightarrow> True | _ \<Rightarrow> False) log) }"

section \<open>The prover's tests pass\<close>

definition vt_tree :: "blake3 \<Rightarrow> CommitmentTree" where
  "vt_tree B = fst (ct_append (fst (ct_append (ct_new B) (commitment B (vt_input B)))) (commitment B (dummy B (replicate 32 7))))"

abbreviation vt_sealed :: "blake3 \<Rightarrow> CommitmentTree" where
  "vt_sealed B \<equiv> fst (ct_seal B (vt_tree B) 0)"

abbreviation vt_anchor :: "blake3 \<Rightarrow> Anchor" where
  "vt_anchor B \<equiv> snd (ct_seal B (vt_tree B) 0)"

definition vt_path :: "blake3 \<Rightarrow> MerklePath" where
  "vt_path B = \<lparr>mp_position = 0, mp_siblings = slot_path B (vt_sealed B) 0\<rparr>"

abbreviation vt_nf :: "blake3 \<Rightarrow> Note \<Rightarrow> Nullifier" where
  "vt_nf B n \<equiv> nullifier B n (nk B (key_of B 1))"

definition vt_out :: "blake3 \<Rightarrow> u64 \<Rightarrow> u8 \<Rightarrow> u8 \<Rightarrow> Note" where
  "vt_out B v b j = \<lparr>note_value = v, note_addr_tag = addr_tag B (key_of B b), note_rho = rho_transfer B (vt_nf B (vt_input B)) j,
     note_rseed = replicate 32 (j + 1)\<rparr>"

text \<open>The witness, with the spender's tag, the spent note and the paid value left open.\<close>

definition vt_witness :: "blake3 \<Rightarrow> bytes \<Rightarrow> Note \<Rightarrow> u64 \<Rightarrow> SpendWitness" where
  "vt_witness B tag n v = \<lparr>sw_spender_nk = nk B (key_of B 1), sw_spender_addr_tag = tag,
     sw_inputs = [\<lparr>iw_note = n, iw_path = vt_path B, iw_is_dummy = False\<rparr>,
                  \<lparr>iw_note = dummy B (replicate 32 5), iw_path = vt_path B, iw_is_dummy = True\<rparr>],
     sw_outputs = [vt_out B v 2 0, vt_out B 0 1 1], sw_mint_value = 0, sw_binding_digest = replicate 32 3\<rparr>"

abbreviation vt_valid :: "blake3 \<Rightarrow> SpendWitness" where
  "vt_valid B \<equiv> vt_witness B (addr_tag B (key_of B 1)) (vt_input B) 100"

lemma ct_leaves_vt: "ct_leaves (vt_tree B) = [cm_bytes (commitment B (vt_input B)), cm_bytes (commitment B (dummy B (replicate 32 7)))]"
  and wf_vt: "wf_tree B (vt_tree B)"
  by (simp_all add: vt_tree_def)

lemma vt_path_eqs:
  "ct_witness B (vt_sealed B) 0 = Some (vt_path B)" "verify_path B (commitment B (vt_input B)) (vt_path B) (anc_root (vt_anchor B))"
proof -
  have few: "length (ct_leaves (vt_tree B)) \<le> 2 ^ TREE_DEPTH" by (simp add: ct_leaves_vt TREE_DEPTH_def)
  then show w: "ct_witness B (vt_sealed B) 0 = Some (vt_path B)" by (simp add: ct_witness_eq vt_path_def ct_leaves_vt)
  obtain p where "ct_witness B (vt_sealed B) 0 = Some p" "verify_path B (commitment B (vt_input B)) p (anc_root (vt_anchor B))"
    by (rule sealed_witness [OF wf_vt few, of 0 "commitment B (vt_input B)" 0]) (simp_all add: ct_leaves_vt)
  then show "verify_path B (commitment B (vt_input B)) (vt_path B) (anc_root (vt_anchor B))" using w by simp
qed

lemma first_position: "snd (ct_append (ct_new B) cm) = 0"
  by (simp add: ct_append_def ct_new_def ct_len_def Let_def)

lemma valid_transfer_eq: "valid_transfer B = Some (vt_valid B, vt_anchor B)"
  unfolding valid_transfer_def Let_def split_beta first_position vt_tree_def [symmetric] vt_path_eqs(1)
  by (simp add: vt_witness_def vt_out_def)

definition vt_ordered :: "blake3 \<Rightarrow> bool" where
  "vt_ordered B \<longleftrightarrow> nf_bytes (vt_nf B (vt_input B)) \<le> nf_bytes (vt_nf B (dummy B (replicate 32 5)))"

lemma vt_canonical: "vt_ordered B \<Longrightarrow> canonicalize B (vt_witness B tag (vt_input B) v) = vt_witness B tag (vt_input B) v"
  by (simp add: canonicalize_def vt_witness_def vt_ordered_def)

abbreviation vt_public :: "blake3 \<Rightarrow> SpendPublicInputs" where
  "vt_public B \<equiv> public_inputs B (vt_valid B) (vt_anchor B)"

lemma vt_proves:
  assumes "vt_ordered B"
  shows "prove B (vt_valid B) (vt_anchor B) = Inr (vt_public B, vec_resize PROOF_BUCKET 0 (dev_tag B (vt_public B)))"
proof -
  have "spend_statement B (vt_valid B) (vt_public B)"
    using vt_path_eqs(2) [of B] by (simp add: spend_statement_def public_inputs_def input_ok_def vt_witness_def vt_out_def vt_input_def
        interface_consts upt_rec word_less_nat_alt)
  then show ?thesis by (simp add: prove_Inr_iff vt_canonical [OF assms])
qed

lemma unwrap_err_simps [simp]: "unwrap_err (Inl e) = Some e" "unwrap_err (Inr x) = None"
  by (simp_all add: unwrap_err_def)

lemma prover_tests_ok:
  assumes "digest32 B" and "vt_ordered B"
  shows "valid_witness_proves_and_verifies B = Some ()" "imbalanced_value_rejected B = Some ()"
    "verifier_rejects_nonzero_padding B = Some ()"
proof -
  note pf = dev_proof_eq [OF assms(1), of "vt_public B"] and len = length_dev_tag [OF assms(1), of "vt_public B"]
  show "valid_witness_proves_and_verifies B = Some ()"
    by (simp add: valid_witness_proves_and_verifies_def valid_transfer_eq vt_proves [OF assms(2)] dev_verify_Inr_iff [OF assms(1), THEN iffD2] pf)
  show "verifier_rejects_nonzero_padding B = Some ()"
    using set_update_memI [of 159 "replicate 160 0" "1 :: u8"] pf [unfolded PROOF_BUCKET_def]
    by (auto simp: verifier_rejects_nonzero_padding_def valid_transfer_eq vt_proves [OF assms(2)] len index_or_panic_def PROOF_BUCKET_def
        dev_verify_def list_update_append)
  have upd: "update_output 0 (\<lambda>out. out\<lparr>note_value := 101\<rparr>) (vt_witness B tag n 100) = vt_witness B tag n 101" for tag n
    by (simp add: update_output_def vt_witness_def vt_out_def)
  have "prove B (vt_witness B (addr_tag B (key_of B 1)) (vt_input B) 101) (vt_anchor B) = Inl (Unsatisfied ''C7: value imbalance'')"
    unfolding prove_def Let_def vt_canonical [OF assms(2)]
    using vt_path_eqs(2) [of B] by (simp add: check_spend_statement_def public_inputs_def vt_witness_def vt_out_def vt_input_def interface_consts)
  then show "imbalanced_value_rejected B = Some ()" by (simp add: imbalanced_value_rejected_def valid_transfer_eq upd)
qed

text \<open>In the other order the fixture is not a valid witness: its output nonces are not derived from the first nullifier.\<close>

lemma valid_witness_needs_order:
  assumes "\<not> vt_ordered B"
    and "rho_transfer B (vt_nf B (dummy B (replicate 32 5))) 0 \<noteq> rho_transfer B (vt_nf B (vt_input B)) 0"
  shows "valid_witness_proves_and_verifies B = None"
proof -
  have "hd (sw_inputs (canonicalize B (vt_valid B))) = \<lparr>iw_note = dummy B (replicate 32 5), iw_path = vt_path B, iw_is_dummy = True\<rparr>"
    using assms(1) by (simp add: canonicalize_def vt_witness_def vt_ordered_def)
  then have "\<not> (\<exists>pi pf. prove B (vt_valid B) (vt_anchor B) = Inr (pi, pf))"
    unfolding prove_ok_iff using assms(2) by (simp add: vt_witness_def vt_out_def TX_OUTPUTS_def upt_rec)
  then obtain e where "prove B (vt_valid B) (vt_anchor B) = Inl e" by (metis sum.exhaust surj_pair)
  then show ?thesis by (simp add: valid_witness_proves_and_verifies_def valid_transfer_eq)
qed

text \<open>The tests that only a collision of the hash can fail.\<close>

definition vt_forged :: "blake3 \<Rightarrow> Note" where
  "vt_forged B = \<lparr>note_value = 100, note_addr_tag = addr_tag B (key_of B 1), note_rho = replicate 32 42, note_rseed = replicate 32 1\<rparr>"

text \<open>The forged note does not lead to the root: its commitment or a node of its path would collide.\<close>

lemma forged_path:
  assumes "digest32 B" and "verify_path B (commitment B (vt_forged B)) (vt_path B) (anc_root (vt_anchor B))"
  shows "collision_at B NOTE_COMMITMENT (absorb_parts (commitment_parts (vt_forged B))) (absorb_parts (commitment_parts (vt_input B)))
    \<or> (\<exists>(m, m') \<in> set (zip (path_msgs B (cm_bytes (commitment B (vt_forged B))) 0 (mp_siblings (vt_path B)))
          (path_msgs B (cm_bytes (commitment B (vt_input B))) 0 (mp_siblings (vt_path B)))). collision_at B MERKLE_NODE m m')"
proof -
  have len: "length (cm_bytes (commitment B n)) = 32" for n using assms(1) by (simp add: commitment_def)
  have sibs: "list_all (\<lambda>s. length s = 32) (mp_siblings (vt_path B))"
    using slot_path_length32 [OF assms(1), of "vt_sealed B" 0] wf_vt [of B] len by (simp add: vt_path_def wf_leaves_def ct_leaves_vt)
  have "path_root B (cm_bytes (commitment B (vt_forged B))) 0 (mp_siblings (vt_path B))
      = path_root B (cm_bytes (commitment B (vt_input B))) 0 (mp_siblings (vt_path B))"
    using assms(2) vt_path_eqs(2) [of B] by (simp add: verify_path_def vt_path_def)
  note paths = path_root_binding [OF this _ assms(1) len len sibs sibs]
  have wf: "wf_note (vt_forged B)" "wf_note (vt_input B)" "vt_forged B \<noteq> vt_input B"
    using assms(1) by (simp_all add: wf_defs vt_forged_def vt_input_def)
  have "commitment B (vt_forged B) = commitment B (vt_input B) \<Longrightarrow> ?thesis"
    using hash_parts_binding [OF _ commitment_parts_short [OF wf(1)] commitment_parts_short [OF wf(2)], of B NOTE_COMMITMENT] wf(3)
    by (simp add: commitment_def commitment_parts_inject)
  then show ?thesis using paths by (auto simp: Commitment.expand)
qed

lemma forged_membership_test:
  assumes "\<not> verify_path B (commitment B (vt_forged B)) (vt_path B) (anc_root (vt_anchor B))"
  shows "forged_membership_rejected B = Some ()"
proof -
  let ?t = "addr_tag B (key_of B 1)"
  have upd: "update_input 0 (\<lambda>i. i\<lparr>iw_note := \<lparr>note_value = 100, note_addr_tag = ?t, note_rho = replicate 32 42, note_rseed = replicate 32 1\<rparr>\<rparr>)
      (vt_valid B) = vt_witness B ?t (vt_forged B) 100"
    by (simp add: update_input_def vt_witness_def vt_forged_def)
  have val: "note_value (vt_forged B) = 100" by (simp add: vt_forged_def)
  have "prove B (vt_witness B ?t (vt_forged B) 100) (vt_anchor B) = Inl (Unsatisfied ''C1: membership proof invalid'')"
    using assms by (simp add: prove_def Let_def canonicalize_def check_spend_statement_def public_inputs_def vt_witness_def val interface_consts)
  then show ?thesis using upd
    by (simp add: forged_membership_rejected_def valid_transfer_eq) (simp add: vt_witness_def)
qed

lemma stealing_test:
  assumes "addr_tag B (key_of B 1) \<noteq> addr_tag B (key_of B 77)"
  shows "stealing_someone_elses_note_rejected B = Some ()"
proof -
  let ?w = "vt_witness B (addr_tag B (key_of B 77)) (vt_input B) 100"
  have upd: "(vt_witness B t n v)\<lparr>sw_spender_addr_tag := t'\<rparr> = vt_witness B t' n v" for t t' n v by (simp add: vt_witness_def)
  have "\<not> (\<exists>pi pf. prove B ?w (vt_anchor B) = Inr (pi, pf))"
    unfolding prove_ok_iff using assms by (simp add: vt_witness_def vt_input_def input_ok_def)
  then obtain e where "prove B ?w (vt_anchor B) = Inl e" by (metis sum.exhaust surj_pair)
  then show ?thesis by (cases e) (simp add: stealing_someone_elses_note_rejected_def valid_transfer_eq upd)
qed

lemma tampered_inputs_test:
  assumes "digest32 B" and "vt_ordered B"
    and "\<not> collision_at B DEV_PROOF (absorb_parts [pi_encode ((vt_public B)\<lparr>pi_mint_value := 1\<rparr>)]) (absorb_parts [pi_encode (vt_public B)])"
  shows "verifier_rejects_tampered_public_inputs B = Some ()"
proof -
  have mint: "pi_mint_value (vt_public B) = 0" by (simp add: public_inputs_def vt_witness_def)
  have enc: "pi_encode ((vt_public B)\<lparr>pi_mint_value := 1\<rparr>) \<noteq> pi_encode (vt_public B)" by (simp add: pi_encode_def mint)
  have "dev_tag B ((vt_public B)\<lparr>pi_mint_value := 1\<rparr>) \<noteq> dev_tag B (vt_public B)"
  proof
    assume "dev_tag B ((vt_public B)\<lparr>pi_mint_value := 1\<rparr>) = dev_tag B (vt_public B)"
    moreover have "length (pi_encode ((vt_public B)\<lparr>pi_mint_value := 1\<rparr>)) = length (pi_encode (vt_public B))" by (simp add: pi_encode_def)
    ultimately show False using enc assms(3) by (simp add: collision_at_def dev_tag_def hash_parts_def absorb_parts_Cons)
  qed
  then show ?thesis
    using dev_proof_eq [OF assms(1), of "vt_public B", unfolded PROOF_BUCKET_def] length_dev_tag [OF assms(1), of "vt_public B"]
    by (simp add: verifier_rejects_tampered_public_inputs_def valid_transfer_eq vt_proves [OF assms(2)] mint add_or_panic_def dev_verify_def
        PROOF_BUCKET_def)
qed

section \<open>The knockout tests pass\<close>

lemma every_constraint_test:
  assumes "digest32 B" and "\<not> hash_coincidence B"
  shows "every_constraint_is_load_bearing B = Some ()"
proof -
  have "all_caught B = Some True" using all_caught_iff [OF assms(1)] assms(2) by simp
  then obtain ks where ks: "run_knockouts B = Some ks" "list_all ko_passed ks" by (auto simp: all_caught_def bind_eq_Some_conv)
  have "length ks = 13" using ks(1) by (auto simp: run_knockouts_def bind_eq_Some_conv split: option.splits)
  moreover have "filter (\<lambda>k. \<not> ko_passed k) ks = []" using ks(2) by (simp add: list_all_iff filter_empty_conv)
  ultimately show ?thesis by (simp add: every_constraint_is_load_bearing_def ks(1))
qed

text \<open>The four mutations whose constraint the second test expects by name, in either order of the two inputs.\<close>

lemma base_fires:
  assumes shape: "base_shape B w anchor i d o0 o1" and dig: "digest32 B" and ord: "base_order w i d r q"
  defines "pi \<equiv> public_inputs B w anchor"
  shows "check_spend_statement B w (pi\<lparr>pi_nullifiers := (pi_nullifiers pi)[0 := Nullifier (flip_first (nf_bytes (pi_nullifiers pi ! 0)))]\<rparr>)
      = Inl (Unsatisfied (''C2'' @ '': nullifier derivation mismatch''))"
    and "check_spend_statement B (update_input q (\<lambda>i. i\<lparr>iw_note := (iw_note i)\<lparr>note_value := 1000\<rparr>\<rparr>) w)
        (public_inputs B (update_input q (\<lambda>i. i\<lparr>iw_note := (iw_note i)\<lparr>note_value := 1000\<rparr>\<rparr>) w) anchor)
      = Inl (Unsatisfied (''C4'' @ '': dummy note must have zero value''))"
    and "check_spend_statement B (update_output 0 (\<lambda>out. out\<lparr>note_value := 71\<rparr>) w)
        (public_inputs B (update_output 0 (\<lambda>out. out\<lparr>note_value := 71\<rparr>) w) anchor)
      = Inl (Unsatisfied (''C7'' @ '': value imbalance''))"
    and "check_spend_statement B w (pi\<lparr>pi_binding_digest := flip_first (pi_binding_digest pi)\<rparr>)
      = Inl (Unsatisfied (''C8'' @ '': binding digest mismatch''))"
proof -
  have nf: "nullifier B n k \<noteq> Nullifier (flip_first (nf_bytes (nullifier B n k)))" for n k
    using flip_first_neq [of "nf_bytes (nullifier B n k)"] wf_nf_nullifier [OF dig, of n k] by (cases "nullifier B n k") (fastforce simp: wf_defs)
  have dig3: "flip_first (replicate 32 3) \<noteq> replicate 32 3" by (rule flip_first_neq) simp
  note simps = pi_def check_spend_statement_def public_inputs_def base_shape_def verify_path_def update_input_def update_output_def interface_consts
  have order: "r = 0 \<and> q = 1 \<and> sw_inputs w = [i, d] \<or> r = 1 \<and> q = 0 \<and> sw_inputs w = [d, i]" using ord by (simp add: base_order_def)
  show "check_spend_statement B w (pi\<lparr>pi_nullifiers := (pi_nullifiers pi)[0 := Nullifier (flip_first (nf_bytes (pi_nullifiers pi ! 0)))]\<rparr>)
      = Inl (Unsatisfied (''C2'' @ '': nullifier derivation mismatch''))"
    using order shape nf by (elim disjE) (simp_all add: simps)
  show "check_spend_statement B (update_input q (\<lambda>i. i\<lparr>iw_note := (iw_note i)\<lparr>note_value := 1000\<rparr>\<rparr>) w)
        (public_inputs B (update_input q (\<lambda>i. i\<lparr>iw_note := (iw_note i)\<lparr>note_value := 1000\<rparr>\<rparr>) w) anchor)
      = Inl (Unsatisfied (''C4'' @ '': dummy note must have zero value''))"
    using order shape by (elim disjE) (simp_all add: simps)
  show "check_spend_statement B (update_output 0 (\<lambda>out. out\<lparr>note_value := 71\<rparr>) w)
        (public_inputs B (update_output 0 (\<lambda>out. out\<lparr>note_value := 71\<rparr>) w) anchor)
      = Inl (Unsatisfied (''C7'' @ '': value imbalance''))"
    using order shape by (elim disjE) (simp_all add: simps)
  show "check_spend_statement B w (pi\<lparr>pi_binding_digest := flip_first (pi_binding_digest pi)\<rparr>)
      = Inl (Unsatisfied (''C8'' @ '': binding digest mismatch''))"
    using order shape dig3 by (elim disjE) (simp_all add: simps)
qed

lemma isolable_fires:
  assumes "check_spend_statement B w pi = Inl (Unsatisfied (e @ rest))"
  shows "isolable_loop (expect_reject B m e w pi # ks) = isolable_loop ks"
proof -
  have "sublist e (prove_error_msg (Unsatisfied (e @ rest)))" unfolding prove_error_msg_def ProveError.case by (rule sublist_appendI)
  then show ?thesis using assms by (simp add: expect_reject_def)
qed

lemma isolable_skips:
  "e \<notin> {''C2'', ''C7'', ''C8'', ''C4''} \<Longrightarrow> isolable_loop (expect_reject B m e w pi # ks) = isolable_loop ks"
  by (simp add: expect_reject_def split: sum.split)

lemma expected_constraint_test:
  assumes "digest32 B"
  shows "expected_constraint_fires_where_isolable B = Some ()"
proof -
  obtain w anchor i d o0 o1 where base: "baseline B = Some (w, public_inputs B w anchor, anchor)"
    and shape: "base_shape B w anchor i d o0 o1" using baseline_shape by blast
  obtain r q where ord: "base_order w i d r q" and pos: "position_of (\<lambda>i. \<not> iw_is_dummy i) (sw_inputs w) = Some r"
      "position_of iw_is_dummy (sw_inputs w) = Some q" using base_positions [OF shape] by blast
  note fires = base_fires [OF shape assms ord, THEN isolable_fires]
  have v: "add_or_panic (note_value (sw_outputs w ! 0)) 1 = Some 71" using shape by (simp add: base_shape_def add_or_panic_def)
  have skip: "isolable_loop (\<lparr>ko_mutation = m, ko_expected_constraint = ''none'', ko_passed = ok, ko_fired = f\<rparr> # ks) = isolable_loop ks" for m ok f ks
    by (cases f) simp_all
  show ?thesis
    by (simp add: expected_constraint_fires_where_isolable_def run_knockouts_def ko_base_def ko_c1_path_def ko_c1_anchor_def ko_c2_def ko_c3_def ko_c4_def
        ko_c6_input_def ko_c6_output_def ko_c5_commitment_def ko_c5_rho_def ko_c7_def ko_c8_def ko_c0_def base pos v Let_def
        fires skip isolable_skips del: isolable_loop.simps(2))
qed

section \<open>The wallet's tests pass\<close>

lemma insufficient_funds_test: "insufficient_funds B C = Some ()"
  by (simp add: insufficient_funds_def w_from_seed_def build_transfer_def select_inputs_def balance_def sum_or_panic_def Let_def)

lemma spending_test: "spending_marks_note_consumed B C = Some ()"
  by (simp add: spending_marks_note_consumed_def w_from_seed_def balance_def sum_or_panic_def add_or_panic_def observe_nullifiers_def Let_def)

lemma end_to_end_test:
  assumes lib: "digest32 B" "x25519_ok C" "aead_ok C"
    and kem: "mlkem_ok_at C (kem_seed B (key_of B 2)) (hash_parts B KEM_SEED [derive_rseed B (replicate 32 42) 10])"
      "mlkem_ok_at C (kem_seed B (key_of B 1)) (hash_parts B KEM_SEED [derive_rseed B (replicate 32 42) 11])"
    and nfs: "vt_nf B (vt_input B) \<noteq> vt_nf B (dummy B (replicate 32 0xD0))"
  shows "end_to_end_transfer_verifies B C = Some ()"
proof -
  let ?t = "fst (ct_append (ct_new B) (commitment B (vt_input B)))" and ?r = "\<lparr>nr_note = vt_input B, nr_position = 0\<rparr>"
  let ?W = "\<lparr>w_sk = key_of B 1, w_unspent = [?r], w_seen_nullifiers = {}\<rparr>"
  let ?s = "fst (ct_seal B ?t 0)" and ?a = "snd (ct_seal B ?t 0)"
  obtain p where p: "ct_witness B ?s 0 = Some p" "verify_path B (commitment B (vt_input B)) p (anc_root ?a)"
    by (rule sealed_witness [of B ?t 0 "commitment B (vt_input B)" 0]) (simp_all add: TREE_DEPTH_def)
  note w = single_note_wallet [of ?W ?r 30, simplified]
  have val: "note_value (vt_input B) = 100" "note_addr_tag (vt_input B) = addr_tag B (key_of B 1)" by (simp_all add: vt_input_def)
  have own: "\<forall>r \<in> set [?r]. note_addr_tag (nr_note r) = addr_tag B (w_sk ?W) \<and> nr_value r < MAX_MONEY"
    by (simp add: val MAX_MONEY_def)
  have wit: "\<forall>r \<in> set [?r]. \<exists>p. ct_witness B ?s (nr_position r) = Some p \<and> verify_path B (commitment B (nr_note r)) p (anc_root ?a)"
    using p by simp
  have "balance ?W = Some 100" "select_inputs ?W 30 = Some (Inr [?r])" "(30 :: u64) < MAX_MONEY" "distinct (transfer_nullifiers B ?W [?r])"
    using w nfs by (simp_all add: val MAX_MONEY_def)
  note tr = build_transfer_ok [where W = ?W and wit = "ct_witness B ?s" and rng = "replicate 32 42", OF lib kem(1) _ this(1,2) own wit this(3,4)]
  obtain tx out bk where tr: "build_transfer B C ?W (sk_address B C (key_of B 2)) 30 ?a (ct_witness B ?s) (replicate 32 42) = Some (Inr tx)"
      "validate_stateless B tx (dev_verify B) 0 = Inr ()" "note_value out = 30"
      "map (\<lambda>e. try_decrypt B C e (incoming_viewing_key B C (key_of B 2))) (take 1 (tx_enc_outputs tx)) = [Some out]"
      "map (\<lambda>e. try_decrypt B C e (incoming_viewing_key B C (key_of B 1))) (drop 1 (tx_enc_outputs tx)) = [Some bk]"
      "unat (note_value bk) + unat (30 :: u64) = 100"
    using tr kem(2) by (auto simp: val)
  obtain e0 e1 where tx: "tx_enc_outputs tx = [e0, e1]" "try_decrypt B C e0 (incoming_viewing_key B C (key_of B 2)) = Some out"
      "try_decrypt B C e1 (incoming_viewing_key B C (key_of B 1)) = Some bk"
    using tr(4,5) by (cases "tx_enc_outputs tx") auto
  have ch: "note_value bk = 70" using tr(6) by (simp add: word_unat_eq_iff)
  have note_eq: "\<lparr>note_value = 100, note_addr_tag = ad_addr_tag (w_address B C (w_from_seed B (replicate 32 1))),
      note_rho = replicate 32 9, note_rseed = replicate 32 8\<rparr> = vt_input B"
    by (simp add: vt_input_def w_address_def w_from_seed_def)
  have rec: "try_receive B C (w_from_seed B (replicate 32 2)) e0 1 = ((w_from_seed B (replicate 32 2))\<lparr>w_unspent := [\<lparr>nr_note = out, nr_position = 1\<rparr>]\<rparr>, True)"
      "try_receive B C (w_from_seed B (replicate 32 1)) e1 2 = ((w_from_seed B (replicate 32 1))\<lparr>w_unspent := [\<lparr>nr_note = bk, nr_position = 2\<rparr>]\<rparr>, True)"
    using tx tr(3) ch by (simp_all add: try_receive_def w_from_seed_def)
  show ?thesis
    unfolding end_to_end_transfer_verifies_def Let_def note_eq split_beta first_position
    using tr(1-3) tx(1) ch rec
    by (simp add: balance_def sum_or_panic_def add_or_panic_def index_or_panic_def w_address_def w_from_seed_def)
qed

section \<open>The node's test passes\<close>

text \<open>Under the conditions under which the scripted run completes.\<close>

lemma full_lifecycle_test:
  assumes "digest32 B" and "x25519_ok C" and "aead_ok C"
    and "\<forall>(i, eph) \<in> set (demo_encryptions B). mlkem_ok_at C (kem_seed B (demo_key B i)) (hash_parts B KEM_SEED [eph])"
    and "\<forall>(i, n, eph) \<in> set (demo_outputs B). sealed_for B C (map (demo_key B) [1, 2, 3]) (demo_key B i) n eph"
    and "distinct (map (demo_key B) [1, 2, 3])" and "distinct (demo_nullifiers B)"
  shows "full_lifecycle_demo_succeeds B C = Some ()"
  using demo_completes [OF assms] by (simp add: full_lifecycle_demo_succeeds_def demo_log_def)

section \<open>The suite\<close>

definition spend_tests :: "blake3 \<Rightarrow> crypto_lib \<Rightarrow> unit option list" where
  "spend_tests B C =
     [valid_witness_proves_and_verifies B, imbalanced_value_rejected B, forged_membership_rejected B,
      stealing_someone_elses_note_rejected B, verifier_rejects_tampered_public_inputs B, verifier_rejects_nonzero_padding B,
      every_constraint_is_load_bearing B, expected_constraint_fires_where_isolable B,
      end_to_end_transfer_verifies B C, insufficient_funds B C, spending_marks_note_consumed B C]"

text \<open>What these tests ask of the hash.\<close>

definition separates_spend_inputs :: "blake3 \<Rightarrow> bool" where
  "separates_spend_inputs B \<longleftrightarrow> vt_nf B (vt_input B) \<noteq> vt_nf B (dummy B (replicate 32 0xD0))
     \<and> tags_apart B 1 77 \<and> \<not> hash_coincidence B
     \<and> \<not> collision_at B NOTE_COMMITMENT (absorb_parts (commitment_parts (vt_forged B))) (absorb_parts (commitment_parts (vt_input B)))
     \<and> (\<forall>(m, m') \<in> set (zip (path_msgs B (cm_bytes (commitment B (vt_forged B))) 0 (mp_siblings (vt_path B)))
          (path_msgs B (cm_bytes (commitment B (vt_input B))) 0 (mp_siblings (vt_path B)))). \<not> collision_at B MERKLE_NODE m m')
     \<and> \<not> collision_at B DEV_PROOF (absorb_parts [pi_encode ((vt_public B)\<lparr>pi_mint_value := 1\<rparr>)]) (absorb_parts [pi_encode (vt_public B)])"

lemma spend_tests_ok:
  assumes "digest32 B" and "separates_spend_inputs B" and "x25519_ok C" and "aead_ok C" and "vt_ordered B"
    and "\<forall>(b, i) \<in> {(2, 10), (1, 11)}. mlkem_ok_at C (kem_seed B (key_of B b)) (hash_parts B KEM_SEED [derive_rseed B (replicate 32 42) i])"
  shows "list_all (\<lambda>t. t = Some ()) (spend_tests B C)"
proof -
  note sep = assms(2) [unfolded separates_spend_inputs_def]
  have "\<not> verify_path B (commitment B (vt_forged B)) (vt_path B) (anc_root (vt_anchor B))"
    using forged_path [OF assms(1)] sep by blast
  moreover have "addr_tag B (key_of B 1) \<noteq> addr_tag B (key_of B 77)" using tags_apart_neq [OF assms(1)] sep by simp
  ultimately show ?thesis
    using sep assms(5,6) unfolding spend_tests_def
    by (simp add: prover_tests_ok [OF assms(1)] forged_membership_test stealing_test tampered_inputs_test [OF assms(1)]
        every_constraint_test [OF assms(1)] expected_constraint_test [OF assms(1)] end_to_end_test [OF assms(1,3,4)]
        insufficient_funds_test spending_test)
qed

end
