(* ===== verification/Storage_Tests.thy ===== *)
theory Storage_Tests
  imports Storage
begin

text \<open>
  The test module of \<^verbatim>\<open>crates/storage\<close>; a test that panics or fails an assertion is \<open>None\<close>.  A test works in a
  directory of its own: \<open>dir\<close> is the path of that directory, and \<open>after file\<close> is the database library once the
  file holds \<open>file\<close>, so that a second \<^verbatim>\<open>Store::open\<close> sees what the first session wrote.
\<close>

section \<open>Tests\<close>

definition store_cm :: "u8 \<Rightarrow> Commitment" where "store_cm b = Commitment (replicate 32 b)"
definition store_nf :: "u8 \<Rightarrow> Nullifier" where "store_nf b = Nullifier (replicate 32 b)"

definition survives_reopen ::
  "('db, 'txn, 'snap) redb \<Rightarrow> ('db \<Rightarrow> ('db, 'txn, 'snap) redb) \<Rightarrow> string \<Rightarrow> unit option" where
  "survives_reopen R after dir =
     do { let path = dir @ ''/ledger.redb'';
          s \<leftarrow> expect (store_open R path);
          written \<leftarrow> expect (commit_checkpoint R s 1 5000 [(0, store_cm 10), (1, store_cm 11), (2, store_cm 12)] [store_nf 1, store_nf 2]);
          let R = after written;
          s \<leftarrow> expect (store_open R path);
          height \<leftarrow> expect (meta R s ''height'');
          assert (height = Some 1);
          sup \<leftarrow> expect (meta R s ''supply'');
          assert (sup = Some 5000);
          c1 \<leftarrow> expect (contains_nullifier R s (store_nf 1));
          assert c1;
          c2 \<leftarrow> expect (contains_nullifier R s (store_nf 2));
          assert c2;
          c9 \<leftarrow> expect (contains_nullifier R s (store_nf 9));
          assert (\<not> c9);
          n \<leftarrow> expect (nullifier_count R s);
          assert (n = 2);
          leaves \<leftarrow> expect (load_leaves R s);
          assert (leaves = [replicate 32 10, replicate 32 11, replicate 32 12]) }"

definition append_pairs :: "CommitmentTree \<Rightarrow> Commitment list \<Rightarrow> CommitmentTree \<times> (u64 \<times> Commitment) list" where
  "append_pairs t leaves = fold (\<lambda>c (t, pairs). let (t, pos) = ct_append t c in (t, pairs @ [(pos, c)])) leaves (t, [])"

definition rebuilt_tree_root_matches_original :: "blake3 \<Rightarrow> ('db, 'txn, 'snap) redb \<Rightarrow> string \<Rightarrow> unit option" where
  "rebuilt_tree_root_matches_original B R dir =
     do { let path = dir @ ''/t.redb'';
          let leaves = map store_cm [0, 1, 2, 3, 4, 5, 6];
          let (original, pairs) = append_pairs (ct_new B) leaves;
          let root_before = ct_root B original;
          s \<leftarrow> expect (store_open R path);
          s \<leftarrow> expect (commit_checkpoint R s 1 0 pairs []);
          rebuilt \<leftarrow> expect (load_tree B R s);
          assert (ct_root B rebuilt = root_before);
          assert (ct_len rebuilt = 7) }"

definition incremental_checkpoints_accumulate :: "('db, 'txn, 'snap) redb \<Rightarrow> string \<Rightarrow> unit option" where
  "incremental_checkpoints_accumulate R dir =
     do { let path = dir @ ''/i.redb'';
          s \<leftarrow> expect (store_open R path);
          s \<leftarrow> expect (commit_checkpoint R s 1 100 [(0, store_cm 1)] [store_nf 1]);
          s \<leftarrow> expect (commit_checkpoint R s 2 200 [(1, store_cm 2)] [store_nf 2]);
          height \<leftarrow> expect (meta R s ''height'');
          assert (height = Some 2);
          sup \<leftarrow> expect (meta R s ''supply'');
          assert (sup = Some 200);
          n \<leftarrow> expect (nullifier_count R s);
          assert (n = 2);
          leaves \<leftarrow> expect (load_leaves R s);
          assert (length leaves = 2) }"

section \<open>The tests pass\<close>

text \<open>The files of the tests, in the directory \<open>dir\<close>.\<close>

definition test_files :: "string \<Rightarrow> string set" where
  "test_files dir = (\<lambda>name. dir @ name) ` {''/ledger.redb'', ''/t.redb'', ''/i.redb''}"

definition reads_back :: "('db, 'txn, 'snap) redb \<Rightarrow> 'db \<Rightarrow> bool" where
  "reads_back R db \<longleftrightarrow> readable R db \<and> (\<exists>n. nullifier_count R db = Inr n)"

text \<open>The conditions of the tests: a library that behaves as documented, now and after the file was written, on files in order.\<close>

definition scratch_dir ::
  "('db, 'txn, 'snap) redb \<Rightarrow> ('db \<Rightarrow> ('db, 'txn, 'snap) redb) \<Rightarrow> ('db \<Rightarrow> tables) \<Rightarrow> ('txn \<Rightarrow> tables) \<Rightarrow> ('snap \<Rightarrow> tables)
   \<Rightarrow> ('db \<Rightarrow> tbl set) \<Rightarrow> ('txn \<Rightarrow> tbl set) \<Rightarrow> string \<Rightarrow> bool" where
  "scratch_dir R after c wc sc ex wx dir \<longleftrightarrow> redb_ok R c wc sc \<and> (\<forall>written. redb_ok (after written) c wc sc)
     \<and> (\<exists>paths. files_ok R after c ex wx paths \<and> test_files dir \<subseteq> paths)"

lemma scratch_open:
  assumes "scratch_dir R after c wc sc ex wx dir" and "name \<in> {''/ledger.redb'', ''/t.redb'', ''/i.redb''}"
  obtains db where "store_open R (dir @ name) = Inr db" "tb_leaves (c db) = Map.empty" "tb_nfs (c db) = Map.empty"
proof -
  obtain paths where "files_ok R after c ex wx paths" "dir @ name \<in> paths" "redb_ok R c wc sc" "\<forall>written. redb_ok (after written) c wc sc"
    using assms unfolding scratch_dir_def test_files_def by blast
  from files_open(1) [OF this] that show thesis by (auto simp: no_tables_def)
qed

lemma scratch_commit:
  assumes "scratch_dir R after c wc sc ex wx dir" and "name \<in> {''/ledger.redb'', ''/t.redb'', ''/i.redb''}"
  obtains db' store where "commit_checkpoint R db h sp lvs nfs = Inr db'" "reads_back R db'"
    "store_open (after db') (dir @ name) = Inr store" "reads_back (after db') store" "c store = c db'"
    "c db' = \<lparr>tb_leaves = tb_leaves (c db) ++ map_of (map (\<lambda>(p, cm). (p, cm_bytes cm)) (rev lvs)),
      tb_nfs = (\<lambda>k. if k \<in> nf_bytes ` set nfs then Some h else tb_nfs (c db) k),
      tb_meta = (tb_meta (c db))(''height'' \<mapsto> h, ''supply'' \<mapsto> sp)\<rparr>"
proof -
  obtain paths where f: "files_ok R after c ex wx paths" "dir @ name \<in> paths" and ok: "redb_ok R c wc sc" "\<forall>written. redb_ok (after written) c wc sc"
    using assms unfolding scratch_dir_def test_files_def by blast
  have works: "redb_works R ex wx" "\<And>fl. redb_works (after fl) ex wx" using f(1) by (simp_all add: files_ok_def)
  obtain db' where w: "commit_checkpoint R db h sp lvs nfs = Inr db'" "ex db' = UNIV"
    using commit_checkpoint_works [OF works(1)] by blast
  obtain store where s: "store_open (after db') (dir @ name) = Inr store" "c store = c db'" "ex store = UNIV"
    using files_open(2) [OF f ok] by blast
  have "reads_back R db'" "reads_back (after db') store"
    using redb_worksE(7) [OF works(1) w(2)] redb_worksE(7) [OF works(2) s(3)] by (simp_all add: reads_back_def)
  with w(1) s show thesis using that commit_checkpoint_tables [OF ok(1) w(1)] by blast
qed

text \<open>The reads of a database in terms of its tables.\<close>

lemma reads_back_eqs:
  assumes "redb_ok R c wc sc" and "reads_back R db"
  shows "meta R db key = Inr (tb_meta (c db) key)" "contains_nullifier R db nf = Inr (nf_bytes nf \<in> dom (tb_nfs (c db)))"
    "nullifier_count R db = Inr (word_of_nat (card (dom (tb_nfs (c db)))))"
    "sorted_wrt (<) (map fst xs) \<Longrightarrow> map_of xs = tb_leaves (c db) \<Longrightarrow> \<forall>x \<in> set xs. length (snd x) = 32
       \<Longrightarrow> load_leaves R db = Inr (map snd xs)"
  using assms nullifier_count_tables [OF assms(1)]
  by (auto simp: reads_back_def meta_readable contains_nullifier_readable intro: redb_store.leaves_tabs)

lemma two_nullifiers: "dom (\<lambda>k. if k \<in> nf_bytes ` set [store_nf 1, store_nf 2] then Some h else None) = {replicate 32 1, replicate 32 2}"
  by (auto simp: store_nf_def dom_def split: if_splits)

lemma survives_reopen_test:
  assumes scratch: "scratch_dir R after c wc sc ex wx dir"
  shows "survives_reopen R after dir = Some ()"
proof -
  have name: "''/ledger.redb'' \<in> {''/ledger.redb'', ''/t.redb'', ''/i.redb''}" by simp
  obtain db where db: "store_open R (dir @ ''/ledger.redb'') = Inr db" "tb_leaves (c db) = Map.empty" "tb_nfs (c db) = Map.empty"
    by (rule scratch_open [OF scratch name])
  let ?rows = "[(0, store_cm 10), (1, store_cm 11), (2, store_cm 12)]" and ?nfs = "[store_nf 1, store_nf 2]"
  obtain db' store where w: "commit_checkpoint R db 1 5000 ?rows ?nfs = Inr db'" "reads_back R db'"
    "store_open (after db') (dir @ ''/ledger.redb'') = Inr store" "reads_back (after db') store" "c store = c db'"
    "c db' = \<lparr>tb_leaves = tb_leaves (c db) ++ map_of (map (\<lambda>(p, cm). (p, cm_bytes cm)) (rev ?rows)),
      tb_nfs = (\<lambda>k. if k \<in> nf_bytes ` set ?nfs then Some 1 else tb_nfs (c db) k),
      tb_meta = (tb_meta (c db))(''height'' \<mapsto> 1, ''supply'' \<mapsto> 5000)\<rparr>"
    by (rule scratch_commit [OF scratch name])
  have ok: "redb_ok (after db') c wc sc" using scratch by (simp add: scratch_dir_def)
  note rd = reads_back_eqs [OF ok w(4)]
  have nfs: "dom (tb_nfs (c store)) = {replicate 32 1, replicate 32 2}" using two_nullifiers [of 1] by (simp add: w(5,6) db(3) cong: if_cong)
  have "load_leaves (after db') store = Inr (map snd [(0 :: u64, replicate 32 10), (1, replicate 32 11), (2, replicate 32 12)])"
    by (rule rd(4)) (auto simp: w(5,6) db(2) store_cm_def)
  then show ?thesis
    unfolding survives_reopen_def Let_def db(1) w(1,3) rd(1-3) nfs expect_simps bind.bind_lunit
    by (simp add: w(1,3,5,6) rd(1-3) nfs) (simp add: store_nf_def)
qed

lemma append_pairs_eq: "append_pairs (ct_new B) leaves = ((ct_new B)\<lparr>ct_leaves := map cm_bytes leaves\<rparr>, snapshot_rows (map cm_bytes leaves))"
proof (induction leaves rule: rev_induct)
  case Nil
  then show ?case by (simp add: append_pairs_def snapshot_rows_def ct_new_def)
next
  case (snoc l ls)
  then show ?case
    by (simp add: append_pairs_def ct_append_def ct_len_def Let_def snapshot_rows_def enumerate_append_eq comp_def split_beta)
qed

lemma rebuilt_tree_test:
  assumes scratch: "scratch_dir R after c wc sc ex wx dir"
  shows "rebuilt_tree_root_matches_original B R dir = Some ()"
proof -
  have name: "''/t.redb'' \<in> {''/ledger.redb'', ''/t.redb'', ''/i.redb''}" by simp
  obtain db where db: "store_open R (dir @ ''/t.redb'') = Inr db" "tb_leaves (c db) = Map.empty" "tb_nfs (c db) = Map.empty"
    by (rule scratch_open [OF scratch name])
  define ls where "ls = map cm_bytes (map store_cm [0, 1, 2, 3, 4, 5, 6])"
  obtain db' where w: "commit_checkpoint R db 1 0 (snapshot_rows ls) [] = Inr db'" "reads_back R db'"
    by (rule scratch_commit [OF scratch name])
  have ok: "redb_ok R c wc sc" using scratch by (simp add: scratch_dir_def)
  have "load_leaves R db' = Inr ls"
    by (rule redb_store.snapshot_roundtrip(1) [OF ok w(1)]) (use w(2) in \<open>auto simp: reads_back_def ls_def store_cm_def db(2,3)\<close>)
  then have tree: "load_tree B R db' = Inr (from_raw_leaves B ls)" by (simp add: load_tree_def)
  show ?thesis
    unfolding rebuilt_tree_root_matches_original_def Let_def append_pairs_eq ls_def [symmetric]
    by (simp add: db(1) w(1) tree from_raw_leaves_def) (simp add: ls_def ct_len_def)
qed

lemma incremental_test:
  assumes scratch: "scratch_dir R after c wc sc ex wx dir"
  shows "incremental_checkpoints_accumulate R dir = Some ()"
proof -
  have name: "''/i.redb'' \<in> {''/ledger.redb'', ''/t.redb'', ''/i.redb''}" by simp
  obtain db where db: "store_open R (dir @ ''/i.redb'') = Inr db" "tb_leaves (c db) = Map.empty" "tb_nfs (c db) = Map.empty"
    by (rule scratch_open [OF scratch name])
  obtain db1 where w1: "commit_checkpoint R db 1 100 [(0, store_cm 1)] [store_nf 1] = Inr db1"
    "c db1 = \<lparr>tb_leaves = tb_leaves (c db) ++ map_of (map (\<lambda>(p, cm). (p, cm_bytes cm)) (rev [(0, store_cm 1)])),
      tb_nfs = (\<lambda>k. if k \<in> nf_bytes ` set [store_nf 1] then Some 1 else tb_nfs (c db) k),
      tb_meta = (tb_meta (c db))(''height'' \<mapsto> 1, ''supply'' \<mapsto> 100)\<rparr>"
    by (rule scratch_commit [OF scratch name])
  obtain db2 where w2: "commit_checkpoint R db1 2 200 [(1, store_cm 2)] [store_nf 2] = Inr db2" "reads_back R db2"
    "c db2 = \<lparr>tb_leaves = tb_leaves (c db1) ++ map_of (map (\<lambda>(p, cm). (p, cm_bytes cm)) (rev [(1, store_cm 2)])),
      tb_nfs = (\<lambda>k. if k \<in> nf_bytes ` set [store_nf 2] then Some 2 else tb_nfs (c db1) k),
      tb_meta = (tb_meta (c db1))(''height'' \<mapsto> 2, ''supply'' \<mapsto> 200)\<rparr>"
    by (rule scratch_commit [OF scratch name])
  have ok: "redb_ok R c wc sc" using scratch by (simp add: scratch_dir_def)
  note rd = reads_back_eqs [OF ok w2(2)]
  have nfs: "dom (tb_nfs (c db2)) = {replicate 32 1, replicate 32 2}"
    by (auto simp: w2(3) w1(2) db(3) store_nf_def dom_def split: if_splits)
  have "load_leaves R db2 = Inr (map snd [(0 :: u64, replicate 32 1), (1, replicate 32 2)])"
    by (rule rd(4)) (auto simp: w2(3) w1(2) db(2) store_cm_def)
  then show ?thesis
    by (simp add: incremental_checkpoints_accumulate_def db(1) w1(1) w2(1) rd(1,3) nfs) (simp add: w2(3))
qed

section \<open>The suite\<close>

definition storage_tests ::
  "blake3 \<Rightarrow> ('db, 'txn, 'snap) redb \<Rightarrow> ('db \<Rightarrow> ('db, 'txn, 'snap) redb) \<Rightarrow> string \<Rightarrow> unit option list" where
  "storage_tests B R after dir =
     [survives_reopen R after dir, rebuilt_tree_root_matches_original B R dir, incremental_checkpoints_accumulate R dir]"

lemma storage_tests_ok:
  assumes "scratch_dir R after c wc sc ex wx dir"
  shows "list_all (\<lambda>t. t = Some ()) (storage_tests B R after dir)"
  using survives_reopen_test [OF assms] rebuilt_tree_test [OF assms] incremental_test [OF assms]
  by (simp add: storage_tests_def)

end
