(* ===== verification/Probe_Hash.thy ===== *)
theory Probe_Hash
  imports Consensus_Tests Tx_Tests Component_Tests Spend_Tests Storage_Tests
begin

text \<open>
  Instances of the parameters on which the repository's tests pass: a hash that separates the inputs the tests
  expect to be told apart, a cryptographic library with an authenticated AEAD, and a file in memory.
\<close>

unbundle bit_operations_syntax

section \<open>A hash that separates the test inputs\<close>

text \<open>
  For keys and address tags the digest is the key material, for the AEAD key the address tag, for the golden
  test the message.  Else it is one byte and zeros: for tree nodes the sum of the first bytes of the children, for a
  commitment and a nullifier the sum of the first bytes of their fields, and else the sum of the message.
\<close>

definition pad32 :: "bytes \<Rightarrow> bytes" where
  "pad32 m = take 32 (m @ replicate 32 0)"

definition byte_at :: "bytes \<Rightarrow> nat \<Rightarrow> u8" where
  "byte_at m i = (if i < length m then m ! i else 0)"

definition probe_byte :: "string \<Rightarrow> bytes \<Rightarrow> u8" where
  "probe_byte c m =
     (if c = MERKLE_NODE then m ! 8 + m ! 48
      else if c = NOTE_COMMITMENT then byte_at m 8 + byte_at m 24 + byte_at m 64 + byte_at m 104
      else if c = NULLIFIER then 1 + byte_at m 8 + byte_at m 48
      else sum_list m)"

definition probe_hash :: blake3 where
  "probe_hash c m =
     (if c \<in> {SK, ASK, NK, ''unknown.v0.test''} then pad32 m
      else if c = ADDR_TAG then pad32 (drop 8 m)
      else if c = NOTE_AEAD then pad32 (drop (length m - 32) m)
      else probe_byte c m # replicate 31 0)"

lemma length_pad32 [simp]: "length (pad32 m) = 32"
  and pad32_id [simp]: "length m = 32 \<Longrightarrow> pad32 m = m"
  by (simp_all add: pad32_def)

lemma digest32_probe [simp]: "digest32 probe_hash"
  by (simp add: digest32_def probe_hash_def)

lemma probe_sum:
  "c \<notin> {SK, ASK, NK, ''unknown.v0.test'', ADDR_TAG, NOTE_AEAD, MERKLE_NODE, NOTE_COMMITMENT, NULLIFIER}
   \<Longrightarrow> probe_hash c m = sum_list m # replicate 31 0"
  by (simp add: probe_hash_def probe_byte_def)

lemma probe_node: "length l = 32 \<Longrightarrow> length r = 32 \<Longrightarrow> probe_hash MERKLE_NODE (absorb_parts [l, r]) = (hd l + hd r) # replicate 31 0"
  by (cases l; cases r) (simp_all add: probe_hash_def probe_byte_def absorb_parts_Cons nth_append ds_defs)

lemma probe_path:
  assumes "list_all (\<lambda>s. length s = 32) sibs" and "length cur = 32" and "length cur' = 32" and "hd cur \<noteq> hd cur'"
    and "(m, m') \<in> set (zip (path_msgs probe_hash cur idx sibs) (path_msgs probe_hash cur' idx sibs))"
  shows "probe_hash MERKLE_NODE m \<noteq> probe_hash MERKLE_NODE m'"
  using assms
proof (induction sibs arbitrary: cur cur' idx)
  case (Cons s sibs)
  let ?n = "\<lambda>c. if idx AND 1 = 0 then node_hash probe_hash c s else node_hash probe_hash s c"
  have n: "length (?n c) = 32" "hd (?n c) = hd c + hd s" if "length c = 32" for c
    using that Cons.prems(1) by (simp_all add: node_hash_def hash_parts_def probe_node add.commute)
  consider "m = absorb_parts (if idx AND 1 = 0 then [cur, s] else [s, cur])"
      "m' = absorb_parts (if idx AND 1 = 0 then [cur', s] else [s, cur'])"
    | "(m, m') \<in> set (zip (path_msgs probe_hash (?n cur) (drop_bit 1 idx) sibs) (path_msgs probe_hash (?n cur') (drop_bit 1 idx) sibs))"
    using Cons.prems(5) by (auto simp del: One_nat_def)
  then show ?case
  proof cases
    case 1
    then show ?thesis using Cons.prems(1-4) by (auto simp: probe_node)
  next
    case 2
    show ?thesis by (rule Cons.IH [OF _ _ _ _ 2]) (use Cons.prems(1-4) n in auto)
  qed
qed simp

lemma probe_tx:
  "binding_digest probe_hash tx = (sum_list (absorb_parts (binding_parts tx))) # replicate 31 0"
  by (simp add: binding_digest_def hash_parts_def probe_sum ds_defs)

lemma sum_list_absorb: "sum_list (absorb_parts ps) = sum_list (map (\<lambda>p. sum_list (u64_to_le_bytes (word_of_nat (length p))) + sum_list p) ps)"
  by (induction ps) (simp_all add: absorb_parts_Cons add.assoc)

lemma sum_list_bytes: "sum_list (replicate n (x :: u8)) = of_nat n * x"
  by (induction n) (simp_all add: algebra_simps)

text \<open>The digest of a test transaction of a round, but for what its anchor contributes.\<close>

lemma probe_cluster_tx:
  "\<exists>K. \<forall>n1 n2 s. binding_digest probe_hash (cluster_tx probe_hash a n1 n2 s)
     = (K + 32 * (n1 + n2) + 32 * (s + (s XOR 0xF0)) + 2546 * s) # replicate 31 0"
  by (rule exI [of _ "sum_list (u64_to_le_bytes 8) + sum_list (u64_to_le_bytes (anc_height a))
      + sum_list (u64_to_le_bytes (word_of_nat (length (anc_root a)))) + sum_list (anc_root a)
      + 4 * sum_list (u64_to_le_bytes 32) + 2 * sum_list (u64_to_le_bytes 1273)"])
    (simp add: probe_tx cluster_tx_def cluster_dev_tx_eq binding_parts_def sum_list_absorb sum_list_bytes tx_consts algebra_simps)

lemma probe_round_digests: "round_digests_differ probe_hash"
proof -
  have "binding_digest probe_hash (cluster_tx probe_hash a n1 n2 s) \<noteq> binding_digest probe_hash (cluster_tx probe_hash a m1 m2 t)"
    if "((n1, n2, s), m1, m2, t) \<in> set round_pairs" for a n1 n2 s m1 m2 t
  proof -
    obtain K where K: "\<And>n1 n2 s. binding_digest probe_hash (cluster_tx probe_hash a n1 n2 s)
       = (K + 32 * (n1 + n2) + 32 * (s + (s XOR 0xF0)) + 2546 * s) # replicate 31 0"
      using probe_cluster_tx [of a] by blast
    show ?thesis using that unfolding K round_pairs_def by (auto simp: add.assoc)
  qed
  then show ?thesis unfolding round_digests_differ_def by fastforce
qed

lemma flip_bit0_replicate: "flip_bit0 (replicate (Suc n) x) = (x XOR 1) # replicate n x"
  by (simp add: flip_bit0_def)

lemma probe_malleability:
  "binding_digest probe_hash sample_tx \<noteq> binding_digest probe_hash other_commitment"
  "binding_digest probe_hash sample_tx \<noteq> binding_digest probe_hash other_output"
  using flip_bit0_replicate [of 31 3] flip_bit0_replicate [of 1272 7]
  by (simp_all add: probe_tx other_commitment_def other_output_def sample_tx_def binding_parts_def sum_list_absorb sum_list_bytes)

lemma to_le_0: "to_le k 0 = replicate k 0"
  by (induction k) simp_all

lemma sum_small_le_bytes: "unat x < 256 \<Longrightarrow> sum_list (u64_to_le_bytes x) = word_of_nat (unat x)"
  using to_le.simps(2) [of 7 "unat x"] by (simp add: u64_to_le_bytes_def to_le_0 sum_list_bytes)

lemma probe_message: "message_x probe_hash m = reduce (ucast (word_of_nat (unat (sum_list (absorb_parts [m]))) :: u64))"
  by (simp add: message_x_def field_from_def hash_parts_def probe_sum ds_defs u64_from_le_bytes_def)

lemma probe_quota:
  "distinct (map (rate_nullifier probe_hash (quota_note 3000) 7) [0, 1, 2])"
  "rate_nullifier probe_hash (staker 1) 5 0 \<noteq> rate_nullifier probe_hash (staker 2) 5 0"
  "message_x probe_hash pay_alice \<noteq> message_x probe_hash pay_bob"
proof -
  have rn: "rate_nullifier probe_hash n e k = sum_list (absorb_parts [qn_quota_key n, u64_to_le_bytes e, u64_to_le_bytes k]) # replicate 31 0" for n e k
    by (simp add: rate_nullifier_def hash_parts_def probe_sum ds_defs)
  have le: "sum_list (u64_to_le_bytes 0) = 0" "sum_list (u64_to_le_bytes 1) = 1" "sum_list (u64_to_le_bytes 2) = 2"
    by (simp_all add: sum_small_le_bytes)
  show "distinct (map (rate_nullifier probe_hash (quota_note 3000) 7) [0, 1, 2])"
    by (simp add: rn sum_list_absorb le)
  show "rate_nullifier probe_hash (staker 1) 5 0 \<noteq> rate_nullifier probe_hash (staker 2) 5 0"
    by (simp add: rn sum_list_absorb staker_def sum_list_bytes)
  show "message_x probe_hash pay_alice \<noteq> message_x probe_hash pay_bob"
    by (simp add: probe_message sum_list_absorb pay_alice_def pay_bob_def sum_small_le_bytes reduce_def P_def)
qed

lemma probe_tree:
  assumes "(pos, leaf) \<in> set [(0, tree_cm 1), (1, tree_cm 2), (2, tree_cm 3)]"
    and "(m, m') \<in> set (zip (path_msgs probe_hash (cm_bytes (tree_cm 99)) pos (slot_path probe_hash (roundtrip_tree probe_hash) pos))
            (path_msgs probe_hash (cm_bytes leaf) pos (slot_path probe_hash (roundtrip_tree probe_hash) pos)))"
  shows "\<not> collision_at probe_hash MERKLE_NODE m m'"
proof -
  have "list_all (\<lambda>s. length s = 32) (slot_path probe_hash (roundtrip_tree probe_hash) pos)"
    by (rule slot_path_length32) (simp_all add: roundtrip_tree_def wf_leaves_def tree_cm_def)
  then have "probe_hash MERKLE_NODE m \<noteq> probe_hash MERKLE_NODE m'"
    by (rule probe_path [OF _ _ _ _ assms(2)]) (use assms(1) in \<open>auto simp: tree_cm_def\<close>)
  then show ?thesis by (simp add: collision_at_def)
qed

text \<open>The elements of a nullifier set in ascending order.\<close>

definition nullifiers_in_order :: "Nullifier set \<Rightarrow> Nullifier list" where
  "nullifiers_in_order N = map Nullifier (sorted_list_of_set (nf_bytes ` N))"

lemma set_nullifiers_in_order: "finite N \<Longrightarrow> set (nullifiers_in_order N) = N"
  by (simp add: nullifiers_in_order_def image_image)

section \<open>The cryptographic tests\<close>

lemma probe_keys [simp]:
  "sk_sk (key_of probe_hash b) = replicate 32 b" "nk probe_hash (key_of probe_hash b) = replicate 32 b"
  "addr_tag probe_hash (key_of probe_hash b) = replicate 32 b"
  by (simp_all add: sk_from_seed_def nk_def ask_def addr_tag_def derive_key_def probe_hash_def hash_parts_def absorb_parts_Cons)
    (simp_all add: ds_defs)

lemma byte_at_append: "length p = i \<Longrightarrow> q \<noteq> [] \<Longrightarrow> byte_at (p @ q) i = hd q"
  by (auto simp: byte_at_def nth_append hd_conv_nth)

lemma hd_le_bytes: "hd (u64_to_le_bytes x) = word_of_nat (unat x mod 256)"
  using to_le.simps(2) [of 7 "unat x"] by (simp add: u64_to_le_bytes_def)

lemma le_bytes_neq_Nil [simp]: "u64_to_le_bytes x \<noteq> []"
  by (metis length_0_conv length_u64_to_le_bytes zero_neq_numeral)

text \<open>The first byte of the part behind \<open>i\<close> bytes.\<close>

lemma byte_at_part:
  "length p + 8 = i \<Longrightarrow> q \<noteq> [] \<Longrightarrow> byte_at (p @ u64_to_le_bytes l @ q @ r) i = hd q"
  using byte_at_append [of "p @ u64_to_le_bytes l" i "q @ r"] by simp

lemma probe_commitment:
  assumes "wf_note n"
  shows "hash_parts probe_hash NOTE_COMMITMENT (commitment_parts n)
    = (hd (u64_to_le_bytes (note_value n)) + hd (note_addr_tag n) + hd (note_rho n) + hd (note_rseed n)) # replicate 31 0"
proof -
  let ?l = "\<lambda>n. u64_to_le_bytes (word_of_nat n)" and ?v = "u64_to_le_bytes (note_value n)"
  let ?m = "absorb_parts (commitment_parts n)"
  have ne: "note_addr_tag n \<noteq> []" "note_rho n \<noteq> []" "note_rseed n \<noteq> []"
    and len: "length (note_addr_tag n) = 32" "length (note_rho n) = 32" "length (note_rseed n) = 32" using assms by (auto simp: wf_defs)
  have m: "?m = ?l 8 @ ?v @ ?l 32 @ note_addr_tag n @ ?l 32 @ note_rho n @ ?l 32 @ note_rseed n"
    using len by (simp add: commitment_parts_def absorb_parts_Cons)
  have "byte_at ?m 8 = hd ?v" unfolding m using byte_at_part [of "[]" 8 ?v] by simp
  moreover have "byte_at ?m 24 = hd (note_addr_tag n)"
    unfolding m using byte_at_part [of "?l 8 @ ?v" 24 "note_addr_tag n"] ne by simp
  moreover have "byte_at ?m 64 = hd (note_rho n)"
    unfolding m using byte_at_part [of "?l 8 @ ?v @ ?l 32 @ note_addr_tag n" 64 "note_rho n"] ne len by simp
  moreover have "byte_at ?m 104 = hd (note_rseed n)"
    unfolding m using byte_at_part [of "?l 8 @ ?v @ ?l 32 @ note_addr_tag n @ ?l 32 @ note_rho n" 104 "note_rseed n" _ "[]"] ne len by simp
  ultimately show ?thesis by (simp add: hash_parts_def probe_hash_def probe_byte_def) (simp add: ds_defs)
qed

lemma probe_nullifier:
  assumes "length k = 32" and "length rho = 32"
  shows "hash_parts probe_hash NULLIFIER [k, rho] = (1 + hd k + hd rho) # replicate 31 0"
proof -
  let ?l = "u64_to_le_bytes 32" and ?m = "absorb_parts [k, rho]"
  have m: "?m = ?l @ k @ ?l @ rho" using assms by (simp add: absorb_parts_Cons)
  have ne: "k \<noteq> []" "rho \<noteq> []" using assms by auto
  have "byte_at ?m 8 = hd k" unfolding m using byte_at_part [of "[]" 8 k] ne by simp
  moreover have "byte_at ?m 48 = hd rho" unfolding m using byte_at_part [of "?l @ k" 48 rho _ "[]"] ne assms by simp
  ultimately show ?thesis by (simp add: hash_parts_def probe_hash_def probe_byte_def) (simp add: ds_defs)
qed

lemma probe_hash_pairs:
  assumes "(c, ps, qs) \<in> set hash_test_pairs"
  shows "\<not> collision_at probe_hash c (absorb_parts ps) (absorb_parts qs)"
proof -
  have sums: "sum_list (u64_to_le_bytes 10) = 10" "sum_list (u64_to_le_bytes 11) = 11" by (simp_all add: sum_small_le_bytes)
  have wf: "wf_note (test_note 5 1)" "\<forall>m \<in> set (note_variants (test_note 5 1)). wf_note m"
    by (simp_all add: wf_defs test_note_def note_variants_def)
  consider "c = ''unknown.v0.test''" | m where "c = NOTE_COMMITMENT" "ps = commitment_parts (test_note 5 1)" "qs = commitment_parts m"
      "m \<in> set (note_variants (test_note 5 1))"
    | "c = NULLIFIER" | "c = RHO_TRANSFER" | "c = RHO_MINT"
    using assms by (auto simp: hash_test_pairs_def)
  then have "hash_parts probe_hash c ps \<noteq> hash_parts probe_hash c qs"
  proof cases
    case 1
    have "hd (hash_parts probe_hash ''unknown.v0.test'' (p # rest)) = word_of_nat (unat (word_of_nat (length p) :: u64) mod 256)" for p rest
      by (simp add: hash_parts_def probe_hash_def pad32_def absorb_parts_Cons hd_append hd_le_bytes)
    moreover have "length alpha = 5" by (simp add: alpha_def)
    ultimately have "hd (hash_parts probe_hash c ps) \<noteq> hd (hash_parts probe_hash c qs)"
      using assms 1 by (auto simp: hash_test_pairs_def ds_defs)
    then show ?thesis by auto
  next
    case 2
    then show ?thesis using wf by (auto simp: probe_commitment) (auto simp: note_variants_def test_note_def hd_le_bytes)
  next
    case 3
    then show ?thesis using assms by (auto simp: hash_test_pairs_def ds_defs probe_nullifier [unfolded ds_defs])
  next
    case 4
    then show ?thesis using assms by (auto simp: hash_test_pairs_def ds_defs hash_parts_def probe_sum sum_list_absorb)
  next
    case 5
    then show ?thesis using assms by (auto simp: hash_test_pairs_def ds_defs hash_parts_def probe_sum sum_list_absorb sums)
  qed
  then show ?thesis by (simp add: collision_at_def hash_parts_def)
qed

text \<open>A digest of one byte and zeros has eight leading zero bits only if the byte is zero.\<close>

lemma leading_zeros_u8_eq_8: "leading_zeros_u8 b \<ge> 8 \<longleftrightarrow> b = 0"
proof
  let ?P = "\<lambda>i. \<not> bit b i"
  assume "leading_zeros_u8 b \<ge> 8"
  then have "length (takeWhile ?P (rev [0 ..< 8])) \<ge> 8" by (simp add: leading_zeros_u8_def)
  moreover have "length (takeWhile ?P (rev [0 ..< 8])) + length (dropWhile ?P (rev [0 ..< 8])) = 8"
    by (simp only: length_append [symmetric] takeWhile_dropWhile_id length_rev length_upt)
  ultimately have "dropWhile ?P (rev [0 ..< 8]) = []" by (simp only: length_0_conv [symmetric])
  then have "?P i" if "i < 8" for i using that by (simp only: dropWhile_eq_Nil_conv set_rev set_upt) simp
  then show "b = 0" by (auto intro!: bit_word_eqI)
qed (simp add: leading_zeros_u8_def takeWhile_eq_all_conv [THEN iffD2])

lemma probe_pow:
  "pow_verify probe_hash (replicate 32 b) s 8 \<longleftrightarrow> 40 + 32 * b + sum_list (u64_to_le_bytes (pow_nonce s)) = 0"
proof -
  have le: "sum_list (u64_to_le_bytes 32) = 32" "sum_list (u64_to_le_bytes 8) = 8" by (simp_all add: sum_small_le_bytes)
  have "pow_hash probe_hash (replicate 32 b) (pow_nonce s) = (40 + 32 * b + sum_list (u64_to_le_bytes (pow_nonce s))) # replicate 31 0"
    by (simp add: pow_hash_def hash_parts_def probe_sum ds_defs sum_list_absorb sum_list_bytes le algebra_simps)
  then show ?thesis using leading_zeros_u8_eq_8 by (simp add: pow_verify_def)
qed

lemma probe_solvable: "pow_tests_solvable probe_hash"
proof -
  have "sum_list (u64_to_le_bytes 152) = 152" "sum_list (u64_to_le_bytes 248) = 248" by (simp_all add: sum_small_le_bytes)
  then have a: "pow_verify probe_hash (replicate 32 42) \<lparr>pow_nonce = 152\<rparr> 8" "pow_verify probe_hash (replicate 32 7) \<lparr>pow_nonce = 248\<rparr> 8"
    by (simp_all add: probe_pow)
  have "pow_verify probe_hash (replicate 32 7) \<lparr>pow_nonce = 248\<rparr> 4" by (rule pow_verify_antimono [OF a(2)]) simp
  with a(1) show ?thesis unfolding pow_tests_solvable_def by blast
qed

lemma probe_tags_apart: "tags_apart probe_hash b b'"
proof -
  have "ask probe_hash (key_of probe_hash c) = replicate 32 c" for c
    by (simp add: ask_def derive_key_def) (simp add: probe_hash_def ds_defs)
  then have "probe_hash ADDR_TAG (absorb_parts [ask probe_hash (key_of probe_hash c)]) = replicate 32 c" for c
    using probe_keys(3) [of c] by (simp add: addr_tag_def hash_parts_def)
  moreover have "probe_hash c (replicate 32 x) = replicate 32 x" if "c \<in> {SK, ASK}" for c x
    using that by (auto simp: probe_hash_def)
  ultimately show ?thesis by (auto simp: tags_apart_def collision_at_def)
qed

lemma probe_crypto_inputs: "separates_crypto_inputs probe_hash"
  using probe_hash_pairs probe_tags_apart by (auto simp: separates_crypto_inputs_def)

text \<open>An AEAD that carries its key in the tag.\<close>

definition probe_crypto :: crypto_lib where
  "probe_crypto = null_crypto\<lparr>
     aead_encrypt := \<lambda>k n pt. Some (pt @ take 16 (k @ replicate 16 0)),
     aead_decrypt := \<lambda>k n ct. if drop (length ct - 16) ct = take 16 (k @ replicate 16 0) then Some (take (length ct - 16) ct) else None\<rparr>"

lemma probe_crypto_ok:
  "x25519_ok probe_crypto" "mlkem_ok_at probe_crypto seed m" "aead_ok probe_crypto" "hex_ok probe_crypto"
proof -
  show "x25519_ok probe_crypto" "mlkem_ok_at probe_crypto seed m"
    by (simp_all add: x25519_ok_def mlkem_ok_at_def probe_crypto_def null_crypto_def key_consts)
  show "aead_ok probe_crypto" by (auto simp: aead_ok_def probe_crypto_def min_def)
  show "hex_ok probe_crypto" using null_crypto_ok(4) by (simp add: hex_ok_def probe_crypto_def)
qed

lemma probe_aead_key:
  assumes "length tag = 32"
  shows "hash_parts probe_hash NOTE_AEAD [a, b, p, q, tag] = tag"
  using assms
  by (simp add: hash_parts_def probe_hash_def absorb_parts_Cons flip: append_assoc) (simp add: ds_defs)

lemma probe_sealed:
  assumes "encrypt_note probe_hash probe_crypto n (sk_address probe_hash probe_crypto k) memo eph = Some ct"
  shows "eo_aead_ct ct = encode_plaintext n memo @ take 16 (addr_tag probe_hash k)"
proof -
  have fields: "x25519_pub probe_crypto a = replicate 32 0" "x25519_dh probe_crypto a b = replicate 32 0"
      "mlkem_from_seed probe_crypto a = ([], replicate 1184 0)" "mlkem_encaps probe_crypto a b = Some (replicate 1088 0, replicate 32 0)"
      "aead_encrypt probe_crypto a b pt = Some (pt @ take 16 (a @ replicate 16 0))" for a b pt
    by (simp_all add: probe_crypto_def null_crypto_def)
  show ?thesis
    using assms by (auto simp: encrypt_note_def fields kem_encapsulate_def derive_aead_def probe_aead_key Let_def eo_aead_ct_def key_consts split: if_splits)
qed

lemma probe_opening_key: "opening_key probe_hash C ct (key_of probe_hash b) = replicate 32 b"
  by (simp add: opening_key_def opening_transcript_def Let_def probe_aead_key)

lemma probe_opens: "opens probe_hash probe_crypto ct (replicate 32 b) \<longleftrightarrow> drop (length (eo_aead_ct ct) - 16) (eo_aead_ct ct) = replicate 16 b"
  by (simp add: opens_def probe_crypto_def)

lemma probe_sealed_against:
  assumes "encrypt_note probe_hash probe_crypto n (sk_address probe_hash probe_crypto (key_of probe_hash b)) memo eph = Some ct" and "b \<noteq> b'"
  shows "sealed_against probe_hash probe_crypto b b' ct"
proof -
  have "\<not> collision_at probe_hash NOTE_AEAD (absorb_parts (opening_transcript probe_hash probe_crypto ct (key_of probe_hash b)))
      (absorb_parts (opening_transcript probe_hash probe_crypto ct (key_of probe_hash b')))"
    using probe_opening_key [of probe_crypto ct b] probe_opening_key [of probe_crypto ct b'] assms(2)
    by (simp add: collision_at_def opening_key_def hash_parts_def)
  moreover have "\<not> opens probe_hash probe_crypto ct (replicate 32 b')" using assms(2) by (simp add: probe_opens probe_sealed [OF assms(1)])
  ultimately show ?thesis using assms(2) by (simp add: sealed_against_def probe_opening_key probe_tags_apart)
qed

lemma probe_tampered:
  assumes "enc_test_output probe_hash probe_crypto = Some ct" and "tamper_last ct = Some ct'"
  shows "\<not> opens probe_hash probe_crypto ct' (replicate 32 3)"
proof -
  let ?pt = "encode_plaintext (enc_test_note probe_hash) enc_memo"
  have aead: "eo_aead_ct ct = ?pt @ replicate 16 3" using probe_sealed assms(1) by (simp add: enc_test_output_def)
  obtain c2 where c2: "enc_test_output probe_hash probe_crypto = Some c2" "length (eo_bytes c2) = 1273"
    by (rule enc_test_decrypts [of probe_hash probe_crypto]) (simp_all add: probe_crypto_ok)
  have len: "length (eo_bytes ct) = 1273" using c2 assms(1) by simp
  obtain c3 where c3: "tamper_last ct = Some c3" "eo_aead_ct c3 = (eo_aead_ct ct)[152 := eo_aead_ct ct ! 152 XOR 1]" by (rule tamper_last_eq [OF len])
  have pt: "length ?pt = 137" using wf_enc_test by (simp add: length_encode_plaintext enc_test_note_def wf_defs enc_consts)
  then have "eo_aead_ct ct' = ?pt @ (replicate 16 3)[15 := 2]"
    using c3 assms(2) by (simp add: aead list_update_append nth_append)
  moreover have "(replicate 16 3)[15 := 2] ! 15 \<noteq> replicate 16 (3 :: u8) ! 15" by simp
  then have "(replicate 16 3)[15 := 2] \<noteq> replicate 16 (3 :: u8)" by metis
  ultimately show ?thesis by (simp add: probe_opens)
qed

lemma probe_crypto_handles: "handles_crypto_tests probe_hash probe_crypto"
proof -
  have "seals_test_outputs probe_hash probe_crypto"
    unfolding seals_test_outputs_def
  proof (intro conjI allI impI)
    fix ct
    assume ct: "enc_test_output probe_hash probe_crypto = Some ct"
    then show "sealed_against probe_hash probe_crypto 3 99 ct"
      unfolding enc_test_output_def by (rule probe_sealed_against) simp
    show "\<not> opens probe_hash probe_crypto ct' (opening_key probe_hash probe_crypto ct (key_of probe_hash 3))" if "tamper_last ct = Some ct'" for ct'
      using probe_tampered [OF ct that] by (simp add: probe_opening_key)
  next
    fix ct
    assume "encrypt_note probe_hash probe_crypto \<lparr>note_value = 9, note_addr_tag = addr_tag probe_hash (key_of probe_hash 2), note_rho = replicate 32 3, note_rseed = replicate 32 4\<rparr>
          (sk_address probe_hash probe_crypto (key_of probe_hash 2)) enc_memo (replicate 32 20) = Some ct"
    then show "sealed_against probe_hash probe_crypto 2 1 ct" by (rule probe_sealed_against) simp
  qed
  then show ?thesis by (simp add: handles_crypto_tests_def probe_crypto_ok case_prod_unfold)
qed

section \<open>The spend tests\<close>

lemma probe_nf: "length (note_rho n) = 32 \<Longrightarrow> nullifier probe_hash n (replicate 32 1) = Nullifier ((2 + hd (note_rho n)) # replicate 31 0)"
  using probe_nullifier [of "replicate 32 1" "note_rho n"] by (simp add: nullifier_def)

lemma probe_dummy_rho: "note_rho (dummy probe_hash (replicate 32 b)) = (32 + 32 * b) # replicate 31 0"
proof -
  have "sum_list (u64_to_le_bytes 32) = 32" by (simp add: sum_small_le_bytes)
  then show ?thesis by (simp add: dummy_def hash_parts_def probe_sum ds_defs sum_list_absorb sum_list_bytes)
qed

lemma probe_root:
  assumes "list_all (\<lambda>s. length s = 32) sibs" and "length cur = 32"
  shows "hd (path_root probe_hash cur idx sibs) = hd cur + sum_list (map hd sibs)
    \<and> (sibs \<noteq> [] \<longrightarrow> tl (path_root probe_hash cur idx sibs) = replicate 31 0)"
  using assms
proof (induction sibs arbitrary: cur idx)
  case (Cons s sibs)
  let ?n = "if idx AND 1 = 0 then node_hash probe_hash cur s else node_hash probe_hash s cur"
  have n: "?n = (hd cur + hd s) # replicate 31 0"
    using Cons.prems by (simp add: node_hash_def hash_parts_def probe_node add.commute)
  show ?case using Cons.IH [of ?n "drop_bit 1 idx"] Cons.prems(1) by (cases sibs) (auto simp only: path_root.simps n, simp_all add: add.assoc)
qed simp

text \<open>The baseline of the knockout battery spends the prover's fixture.\<close>

lemma baseline_vt:
  obtains w pi nf where "baseline B = Some (w, pi, vt_anchor B)" "sw_spender_addr_tag w = addr_tag B (key_of B 1)"
    "\<forall>i \<in> set (sw_inputs w). \<not> iw_is_dummy i \<longrightarrow> iw_note i = vt_input B \<and> iw_path i = vt_path B"
    "note_rho (sw_outputs w ! 0) = rho_transfer B nf 0"
proof -
  obtain w pi anchor where base: "baseline B = Some (w, pi, anchor)" using baseline_shape by blast
  note w = base [unfolded baseline_def Let_def split_beta first_position vt_input_def [symmetric] vt_tree_def [symmetric] vt_path_eqs(1),
      simplified bind.bind_lunit bind_eq_Some_conv]
  have facts: "anchor = vt_anchor B" "sw_spender_addr_tag w = addr_tag B (key_of B 1)"
    "\<forall>i \<in> set (sw_inputs w). \<not> iw_is_dummy i \<longrightarrow> iw_note i = vt_input B \<and> iw_path i = vt_path B"
    "\<exists>nf. note_rho (sw_outputs w ! 0) = rho_transfer B nf 0"
    using w by (auto simp: canonicalize_def simp del: sort_key_simps)
  then show ?thesis using base that by blast
qed

lemma probe_vt_siblings: "list_all (\<lambda>s. length s = 32) (mp_siblings (vt_path probe_hash))" "mp_siblings (vt_path probe_hash) \<noteq> []"
proof -
  have "wf_leaves (vt_sealed probe_hash)" by (simp add: wf_leaves_def ct_leaves_vt commitment_def)
  then show "list_all (\<lambda>s. length s = 32) (mp_siblings (vt_path probe_hash))"
    using slot_path_length32 [of probe_hash "vt_sealed probe_hash" 0] wf_vt [of probe_hash] by (simp add: vt_path_def)
  have "length (mp_siblings (vt_path probe_hash)) = 32" by (simp add: vt_path_def TREE_DEPTH_def)
  then show "mp_siblings (vt_path probe_hash) \<noteq> []" by auto
qed

lemma probe_no_coincidence: "\<not> hash_coincidence probe_hash"
proof -
  let ?cur = "cm_bytes (commitment probe_hash (vt_input probe_hash))"
  obtain w pi nf where base: "baseline probe_hash = Some (w, pi, vt_anchor probe_hash)" "sw_spender_addr_tag w = replicate 32 1"
    "\<forall>i \<in> set (sw_inputs w). \<not> iw_is_dummy i \<longrightarrow> iw_note i = vt_input probe_hash \<and> iw_path i = vt_path probe_hash"
    "note_rho (sw_outputs w ! 0) = rho_transfer probe_hash nf 0" by (rule baseline_vt [of probe_hash]) simp
  obtain s ss where sibs: "mp_siblings (vt_path probe_hash) = s # ss" using probe_vt_siblings(2) by (cases "mp_siblings (vt_path probe_hash)") auto
  have cur: "length ?cur = 32" by (simp add: commitment_def)
  have root: "anc_root (vt_anchor probe_hash) = path_root probe_hash ?cur 0 (s # ss)"
    using vt_path_eqs(2) [of probe_hash] by (simp add: verify_path_def vt_path_def sibs [unfolded vt_path_def, simplified])
  have len: "list_all (\<lambda>s. length s = 32) (s # ss)" "list_all (\<lambda>s. length s = 32) (flip_first s # ss)"
    using probe_vt_siblings(1) by (simp_all add: sibs flip_first_def)
  have "s \<noteq> []" using len(1) by auto
  then have hd_flip: "hd (flip_first s) \<noteq> hd s"
    using flip_first_neq [of "[hd s]"] by (cases s) (simp_all add: flip_first_def)
  have "path_root probe_hash ?cur 0 (flip_first s # ss) \<noteq> path_root probe_hash ?cur 0 (s # ss)"
  proof
    assume eq: "path_root probe_hash ?cur 0 (flip_first s # ss) = path_root probe_hash ?cur 0 (s # ss)"
    have "hd ?cur + sum_list (map hd (flip_first s # ss)) = hd ?cur + sum_list (map hd (s # ss))"
      using probe_root [OF len(1) cur, of 0] probe_root [OF len(2) cur, of 0] by (simp only: eq)
    with hd_flip show False by simp
  qed
  then have "\<not> verify_path probe_hash (commitment probe_hash (vt_input probe_hash)) (corrupted (vt_path probe_hash)) (anc_root (vt_anchor probe_hash))"
    by (simp add: verify_path_def corrupted_def sibs root del: path_root.simps) (simp add: vt_path_def)
  moreover have "anc_root (vt_anchor probe_hash) \<noteq> replicate 32 0xAB"
  proof
    assume "anc_root (vt_anchor probe_hash) = replicate 32 0xAB"
    then have "tl (replicate 32 (0xAB :: u8)) = replicate 31 0" using probe_root [OF len(1) cur, of 0] by (simp add: root del: path_root.simps)
    then show False by simp
  qed
  moreover have "rho_transfer probe_hash nf 0 \<noteq> replicate 32 0x42"
  proof
    assume "rho_transfer probe_hash nf 0 = replicate 32 0x42"
    then have "tl (rho_transfer probe_hash nf 0) = tl (replicate 32 (0x42 :: u8))" by simp
    then show False by (simp add: rho_transfer_def hash_parts_def probe_sum ds_defs)
  qed
  ultimately show ?thesis using base unfolding hash_coincidence_def by auto
qed

lemma probe_spend_inputs: "separates_spend_inputs probe_hash" "vt_ordered probe_hash"
proof -
  have wf: "wf_note (vt_input probe_hash)" "wf_note (vt_forged probe_hash)" by (simp_all add: wf_defs vt_input_def vt_forged_def)
  have nf: "nullifier probe_hash (vt_input probe_hash) (replicate 32 1) = Nullifier (11 # replicate 31 0)"
      "nullifier probe_hash (dummy probe_hash (replicate 32 b)) (replicate 32 1) = Nullifier ((34 + 32 * b) # replicate 31 0)" for b
    by (simp_all add: probe_nf probe_dummy_rho vt_input_def)
  have cm: "hash_parts probe_hash NOTE_COMMITMENT (commitment_parts (vt_input probe_hash)) = 118 # replicate 31 0"
      "hash_parts probe_hash NOTE_COMMITMENT (commitment_parts (vt_forged probe_hash)) = 144 # replicate 31 0"
    using wf by (simp_all add: probe_commitment hd_le_bytes) (simp_all add: vt_input_def vt_forged_def)
  have path: "\<not> collision_at probe_hash MERKLE_NODE m m'"
    if "(m, m') \<in> set (zip (path_msgs probe_hash (cm_bytes (commitment probe_hash (vt_forged probe_hash))) 0 (mp_siblings (vt_path probe_hash)))
          (path_msgs probe_hash (cm_bytes (commitment probe_hash (vt_input probe_hash))) 0 (mp_siblings (vt_path probe_hash))))" for m m'
    using probe_path [OF probe_vt_siblings(1) _ _ _ that] by (simp add: collision_at_def commitment_def cm)
  have le: "sum_list (u64_to_le_bytes 0) = 0" "sum_list (u64_to_le_bytes 1) = 1" by (simp_all add: sum_small_le_bytes)
  have "\<not> collision_at probe_hash DEV_PROOF (absorb_parts [pi_encode ((vt_public probe_hash)\<lparr>pi_mint_value := 1\<rparr>)])
      (absorb_parts [pi_encode (vt_public probe_hash)])"
    by (simp add: collision_at_def probe_sum ds_defs sum_list_absorb) (simp add: pi_encode_def public_inputs_def vt_witness_def le)
  then show "separates_spend_inputs probe_hash"
    using probe_no_coincidence path probe_tags_apart unfolding separates_spend_inputs_def probe_keys nf
    by (auto simp: collision_at_def cm [unfolded hash_parts_def])
  show "vt_ordered probe_hash" unfolding vt_ordered_def probe_keys nf by simp
qed

end
