(* ===== verification/Unit_Tests.thy ===== *)
theory Unit_Tests
  imports Probe_Hash
begin

text \<open>
  The test suites together: under which conditions on the hash and on the libraries the tests of all crates
  but three (\<^verbatim>\<open>node\<close>, whose one test has the conditions of the scripted run, \<^verbatim>\<open>testkit\<close>, whose one test compares with
  frozen outputs of BLAKE3, and \<^verbatim>\<open>circuit-bench\<close>) pass.
\<close>

section \<open>The suites\<close>

definition component_tests :: "blake3 \<Rightarrow> unit option list" where
  "component_tests B =
     [starts_at_e0_and_decays_to_tail, monotonic_non_increasing, distribute_sums_exactly,
      equal_weights_equal_shares_modulo_remainder, descriptor_is_auditable,
      quota_scales_with_stake_and_floors_at_one, honest_usage_within_quota_is_admitted B,
      same_slot_same_message_is_a_benign_duplicate B, slot_reuse_for_two_messages_recovers_the_secret B,
      different_epochs_reset_quota_and_dont_collide B, distinct_stakers_do_not_interfere B, field_inverse_is_correct,
      witness_roundtrip_small B, witness_survives_appends B, anchor_window_eviction B]
     @ map (all_witnesses_verify B) [1 ..< 200]"

text \<open>
  What the tests ask of the hash: 32-byte digests, that it does not collide on the messages whose digests
  a test expects to differ, and none of the four coincidences of the knockout battery.
\<close>

definition separates_test_inputs :: "blake3 \<Rightarrow> bool" where
  "separates_test_inputs B \<longleftrightarrow> digest32 B \<and> separates_crypto_inputs B \<and> separates_spend_inputs B \<and> round_digests_differ B
     \<and> (\<forall>tx \<in> {other_commitment, other_output}.
          \<not> collision_at B TX_BINDING (absorb_parts (binding_parts sample_tx)) (absorb_parts (binding_parts tx)))
     \<and> distinct (map (rate_nullifier B (quota_note 3000) 7) [0, 1, 2])
     \<and> rate_nullifier B (staker 1) 5 0 \<noteq> rate_nullifier B (staker 2) 5 0
     \<and> message_x B pay_alice \<noteq> message_x B pay_bob
     \<and> (\<forall>(pos, leaf) \<in> set [(0, tree_cm 1), (1, tree_cm 2), (2, tree_cm 3)].
          \<forall>(m, m') \<in> set (zip (path_msgs B (cm_bytes (tree_cm 99)) pos (slot_path B (roundtrip_tree B) pos))
            (path_msgs B (cm_bytes leaf) pos (slot_path B (roundtrip_tree B) pos))). \<not> collision_at B MERKLE_NODE m m')"

lemma component_tests_ok:
  assumes "separates_test_inputs B"
  shows "list_all (\<lambda>t. t = Some ()) (component_tests B)"
proof -
  have "witness_roundtrip_small B = Some ()"
    using roundtrip_test [of B] assms unfolding separates_test_inputs_def by blast
  moreover have "list_all (\<lambda>t. t = Some ()) (map (all_witnesses_verify B) [1 ..< 200])"
    by (auto simp: list_all_iff all_witnesses_test simp del: upt_rec_numeral)
  ultimately show ?thesis
    using assms unfolding component_tests_def list_all_append
    by (simp add: separates_test_inputs_def decay_test monotonic_test distribute_tests quota_arithmetic_tests registry_tests
        honest_usage_test slot_reuse_test survives_test eviction_test del: upt_rec_numeral)
qed

text \<open>What they ask of the cryptographic libraries, beyond the suites' own conditions: the wallet's two encapsulations.\<close>

definition handles_test_encryptions :: "blake3 \<Rightarrow> crypto_lib \<Rightarrow> bool" where
  "handles_test_encryptions B C \<longleftrightarrow> handles_crypto_tests B C
     \<and> (\<forall>(b, i) \<in> {(2, 10), (1, 11)}. mlkem_ok_at C (kem_seed B (key_of B b)) (hash_parts B KEM_SEED [derive_rseed B (replicate 32 42) i]))"

section \<open>Property\<close>

text \<open>C11. The repository's own unit tests, as theorems on every hash and on every instance of the libraries.  Assume of the hash that
  it does not collide on the inputs that the tests expect to be told apart and shows none of the coincidences that spoil the knockout
  battery (\<open>separates_test_inputs\<close>), that it orders the two nullifiers of
  the prover's fixture as the fixture takes for granted (\<open>vt_ordered\<close>), and that the two proof-of-work challenges have a
  solution (\<open>pow_tests_solvable\<close>); of the cryptographic libraries, that they decrypt what was encrypted to a key and that the AEAD rejects a wrong key
  and the flipped bit; of the database library and the files, the documented effect of each library call, and that no
  input or output fails.  Then every test of the modules \<^verbatim>\<open>emission\<close>, \<^verbatim>\<open>antispam-quota\<close>, \<^verbatim>\<open>tree\<close>, \<^verbatim>\<open>primitives\<close>, \<^verbatim>\<open>notes\<close>, \<^verbatim>\<open>antispam-pow\<close>, \<^verbatim>\<open>keys\<close>,
  \<^verbatim>\<open>encryption\<close>, \<^verbatim>\<open>tx\<close>, \<^verbatim>\<open>state\<close>, \<^verbatim>\<open>storage\<close>, \<^verbatim>\<open>consensus\<close>, \<^verbatim>\<open>prover-dev\<close>, \<^verbatim>\<open>knockout\<close> and \<^verbatim>\<open>wallet\<close> runs to its end without a panic and
  without a failed assertion, but for \<^verbatim>\<open>context_separation\<close> and \<^verbatim>\<open>solution_does_not_transfer_between_challenges\<close>, which assert a
  fact of the hash function alone and are left out.\<close>

theorem unit_tests_pass:
  assumes "separates_test_inputs B" and "vt_ordered B" and "pow_tests_solvable B" and "handles_test_encryptions B C"
    and "redb_ok R c wc sc" and "\<forall>file. redb_ok (after file) c wc sc" and "files_ok R after c ex wx (insert path (test_files dir))"
    and "\<forall>N. finite N \<longrightarrow> set (iter N) = N"
  shows "list_all (\<lambda>t. t = Some ()) (component_tests B @ crypto_tests B C @ tx_tests B @ state_tests B R after iter path
    @ storage_tests B R after dir @ consensus_tests B @ spend_tests B C)"
proof -
  have sep: "digest32 B" "separates_crypto_inputs B" "separates_spend_inputs B" using assms(1) by (simp_all add: separates_test_inputs_def)
  have lib: "handles_crypto_tests B C" "x25519_ok C" "aead_ok C"
    using assms(4) by (simp_all add: handles_test_encryptions_def handles_crypto_tests_def)
  have "list_all (\<lambda>t. t = Some ()) (tx_tests B)" "list_all (\<lambda>t. t = Some ()) (consensus_tests B)"
    using tx_tests_ok [of B] consensus_tests_ok [of B] assms(1) unfolding separates_test_inputs_def by blast+
  moreover have "scratch_dir R after c wc sc ex wx dir" using assms(5-7) unfolding scratch_dir_def by blast
  then have "list_all (\<lambda>t. t = Some ()) (storage_tests B R after dir)" by (rule storage_tests_ok)
  moreover have "list_all (\<lambda>t. t = Some ()) (state_tests B R after iter path)"
    by (rule state_tests_ok [OF sep(1) assms(5,6,8,7)]) simp
  moreover have "list_all (\<lambda>t. t = Some ()) (spend_tests B C)"
    using spend_tests_ok [OF sep(1,3) lib(2,3) assms(2)] assms(4) unfolding handles_test_encryptions_def by blast
  ultimately show ?thesis
    using component_tests_ok [OF assms(1)] crypto_tests_ok [OF sep(1,2) lib(1) assms(3)] unfolding list_all_append by blast
qed

lemma unit_tests_pass_witness:
  "list_all (\<lambda>t. t = Some ()) (component_tests probe_hash @ crypto_tests probe_hash probe_crypto @ tx_tests probe_hash
     @ state_tests probe_hash mem_redb mem_after nullifiers_in_order ''ledger.redb''
     @ storage_tests probe_hash mem_redb mem_after ''/tmp'' @ consensus_tests probe_hash @ spend_tests probe_hash probe_crypto)"
proof (rule unit_tests_pass)
  show "separates_test_inputs probe_hash"
    using probe_round_digests probe_malleability probe_quota probe_tree probe_crypto_inputs probe_spend_inputs
    unfolding separates_test_inputs_def by (auto simp: collision_at_def binding_digest_def hash_parts_def)
  show "handles_test_encryptions probe_hash probe_crypto"
    using probe_crypto_handles by (simp add: handles_test_encryptions_def probe_crypto_ok)
qed (use mem_redb_ok mem_after_ok mem_files_ok set_nullifiers_in_order probe_spend_inputs(2) probe_solvable in blast)+

end
