(* ===== verification/Spec2Isabelle.thy ===== *)
theory Spec2Isabelle
  imports Lifecycle Knockout Consensus Testkit Simulator Circuit_Bench Unit_Tests
begin

text \<open>
  A verification library for the shielded ledger prototype under \<^verbatim>\<open>src/crates\<close>.

  \<^bold>\<open>The program.\<close>  Notes (value, owner tag, nonce, randomness) live as commitments in an append-only
  Merkle tree and are spent by publishing a nullifier.  A transaction has two inputs and two
  outputs, an anchor (height and tree root), two encrypted outputs, an anti-spam artefact (proof of work or a
  stake quota) and a proof of the spend statement.  Consensus orders the transactions of a round,
  every replica applies the same checkpoint to its ledger (judge each transaction in order, append its
  commitments, mint the emission to validators, seal a new anchor), and the node delivers
  nullifiers and ciphertexts to wallets, which trial-decrypt them, choose notes and build new transactions.  The
  ledger is saved to and restored from a key-value store.

  \<^bold>\<open>Theories and the code they model\<close> (each opens with its own summary):
  \<^item> \<open>Prelude\<close>: machine words, byte strings, arithmetic that panics, the \<open>codec\<close> interface,
    shared lemmas.  \<open>Primitives\<close>: \<^verbatim>\<open>primitives\<close> (framed hashing, context registry).
    \<open>Interfaces\<close>: \<^verbatim>\<open>interfaces\<close> (shared types and limits) and the interfaces \<open>accumulator\<close>,
    \<open>proof_system\<close> and \<open>state_machine\<close>.
  \<^item> \<open>Notes\<close>: \<^verbatim>\<open>notes\<close>.  \<open>Commitment_Tree\<close>: \<^verbatim>\<open>tree\<close> (root, witness, seal, anchor window, path check).
  \<^item> \<open>Quota_Field\<close>, \<open>Quota\<close>: \<^verbatim>\<open>antispam-quota\<close> (the prime field, rate proofs, the registry).
    \<open>Pow\<close>: \<^verbatim>\<open>antispam-pow\<close>.  \<open>Emission\<close>: \<^verbatim>\<open>emission\<close>.
  \<^item> \<open>Keys\<close>: \<^verbatim>\<open>keys\<close>.  \<open>Encryption\<close>: \<^verbatim>\<open>encryption\<close>.  \<open>Tx\<close>: \<^verbatim>\<open>tx\<close> (lanes, wire codec, stateless
    validation).  \<open>Prover_Dev\<close>: \<^verbatim>\<open>prover-dev\<close> (the spend statement, prover, verifier).
  \<^item> \<open>Ledger\<close>: \<^verbatim>\<open>state\<close>, the checkpoint state machine.  \<open>Storage\<close>: \<^verbatim>\<open>storage\<close> and the interface
    \<open>snapshot_store\<close>.  \<open>Persistence\<close>: \<^verbatim>\<open>Ledger::persist\<close> and \<^verbatim>\<open>Ledger::restore\<close>.
  \<^item> \<open>Consensus\<close>: \<^verbatim>\<open>consensus\<close> (commit order over the interface \<open>ordered_map\<close>, the replica cluster).
    \<open>Wallet\<close>: \<^verbatim>\<open>wallet\<close>.  \<open>Node\<close>: \<^verbatim>\<open>node\<close>.  \<open>Knockout\<close>: \<^verbatim>\<open>knockout\<close>.  \<open>Testkit\<close>: \<^verbatim>\<open>testkit\<close>.
  \<^item> \<open>Float64\<close>: the \<^verbatim>\<open>f64\<close> of the language with computed rounding.  \<open>Simulator\<close>: \<^verbatim>\<open>sim\<close>.
    \<open>Circuit_Bench\<close>: \<^verbatim>\<open>bench/circuit-bench\<close> over a parameter for the STARK library and one for the clock.
  \<^item> The test modules over the model.  \<open>Component_Tests\<close>: \<^verbatim>\<open>emission\<close>, \<^verbatim>\<open>antispam-quota\<close>, \<^verbatim>\<open>tree\<close>.  \<open>Crypto_Tests\<close>:
    \<^verbatim>\<open>primitives\<close>, \<^verbatim>\<open>notes\<close>, \<^verbatim>\<open>antispam-pow\<close>, \<^verbatim>\<open>keys\<close>, \<^verbatim>\<open>encryption\<close>.  \<open>Spend_Tests\<close>: \<^verbatim>\<open>prover-dev\<close>, \<^verbatim>\<open>knockout\<close>,
    \<^verbatim>\<open>wallet\<close>, \<^verbatim>\<open>node\<close>.  \<open>Tx_Tests\<close>: \<^verbatim>\<open>tx\<close>.  \<open>Ledger_Tests\<close>: \<^verbatim>\<open>state\<close>.  \<open>Storage_Tests\<close>: \<^verbatim>\<open>storage\<close>.
    \<open>Consensus_Tests\<close>: \<^verbatim>\<open>consensus\<close>.  The tests of \<^verbatim>\<open>testkit\<close> and \<^verbatim>\<open>circuit-bench\<close> stand in the theories of those crates.
    \<open>Probe_Hash\<close>: a hash, a cryptographic library and a file on which the tests pass.  \<open>Unit_Tests\<close>: the suites together.
  \<^item> \<open>Lifecycle\<close>: a transfer from the sender's wallet through the sequencer to the other wallets, and the scripted
    run of \<^verbatim>\<open>run_demo\<close>.  This theory: the properties that join wallet and ledger.

  \<^bold>\<open>Conventions.\<close>  A struct is a record with prefixed fields, an enum a datatype, \<^verbatim>\<open>u8\<close> to \<^verbatim>\<open>u128\<close>
  are words of that width, \<^verbatim>\<open>usize\<close> is \<open>nat\<close>.  A method that mutates returns the new state.  A
  panic (overflow as in a debug build, an index out of range, \<^verbatim>\<open>unwrap\<close> of nothing) is \<open>None\<close>, an
  error value is \<open>Inl\<close>.  Arrays of fixed size are lists; the \<open>wf\<close> predicates state the sizes.
  The proof-of-work search is a partial function, where \<open>None\<close> is a search that does not
  end; every other loop is a total function, so no bound or fuel was chosen.

  \<^bold>\<open>Parameters and hypotheses.\<close>  BLAKE3 is a function of a context and a byte string; theorems assume at
  most that digests have 32 bytes (\<open>digest32\<close>), and a claim that would need collision
  resistance concludes with the collision instead.  X25519, ML-KEM, the AEAD and hex are the record
  \<open>crypto_lib\<close> with \<open>x25519_ok\<close>, \<open>mlkem_ok_at\<close>, \<open>aead_ok\<close>, \<open>hex_ok\<close>.  The database redb is the
  record \<open>redb\<close> with \<open>redb_ok\<close> (what a successful call does to the tables),
  \<open>readable\<close> (reads do not fail), \<open>redb_works\<close> (no call fails) and \<open>files_ok\<close> (what \<^verbatim>\<open>create\<close> finds in a file).  The iteration order of a \<^verbatim>\<open>HashSet\<close> is an argument.  The
  witnesses instantiate all of them by concrete functions.

  \<^bold>\<open>What is shown.\<close>
  \<^item> \<open>Ledger\<close>: checkpoints refine the life cycle of \<^verbatim>\<open>specs/anchors.md\<close>; over every reachable ledger, no
    nullifier is accepted twice, the supply is the audited one and the anchor window is exact;
    checkpoints are total under stated bounds (and panic beyond 128 validators); accepted transactions were admissible.
  \<^item> \<open>Consensus\<close>: the commit order is a reference linearization, a cluster does what one node does that executes the reference
    order, whatever the order of submission, and a valid transaction without conflict is committed in its round.
  \<^item> \<open>Persistence\<close>: snapshot and restart of a reachable ledger, and what a restart loses.
  \<^item> \<open>Wallet\<close>, \<open>Node\<close>, \<open>Lifecycle\<close>, this theory: selection is exact, transfers are valid and delivered, delivery
    positions are right, a payment goes through end to end, the scripted run completes with its exact log, and three
    defects (reused dummies, notes dropped on rejection, phantom payments).
  \<^item> \<open>Simulator\<close>: the report of the simulation under IEEE rounding, that no proof-of-work difficulty is workable in its
    model, and that issuance on a chain does not depend on its transactions.  \<open>Circuit_Bench\<close>: the benchmark panics
    exactly when a proof of its workload is not made, serialised or verified, and its extrapolation is exact.
  \<^item> \<open>Unit_Tests\<close>: the tests of fifteen crates, but for two that assert a fact of the hash function only, pass for every hash that
    separates their inputs, shows none of the knockout battery's coincidences, orders two nullifiers of the prover's fixture and lets two proof-of-work challenges be solved, and for every
    library that behaves as documented, not for BLAKE3 alone.  The node's test passes where the scripted run completes, the
    test of the golden vectors for exactly the hashes with the frozen digests, the benchmark's test exactly when its proof
    of four permutations is made, serialised and verified.
  \<^item> \<open>Prover_Dev\<close>, \<open>Knockout\<close>: the check decides the declarative statement, the prover is complete, the
    nullifier key is not bound to the owner, and the mutation battery is exact.
  \<^item> \<open>Commitment_Tree\<close>, \<open>Quota\<close>, \<open>Pow\<close>, \<open>Emission\<close>, \<open>Keys\<close>, \<open>Encryption\<close>, \<open>Tx\<close>: equivalence with reference
    definitions, codecs as exact round trips, field and quota correctness, bounds of the
    schedule, and the panics the code can reach.

  \<^bold>\<open>Not modelled.\<close>  The wording and column formatting of the lines that node, simulator and benchmark print, the
  messages of assertions, the \<^verbatim>\<open>Debug\<close> implementations and the type aliases that choose the STARK library's instances are left out.  The network and the BFT protocol are not in
  the repository: consensus is the deterministic commit rule that stands for them.
\<close>

section \<open>Properties that span components\<close>

text \<open>C6. A payment goes through, end to end.  Take a reachable ledger at proof-of-work difficulty 0 with room for one more
  checkpoint (height, supply, tree, validators, quota shares), and a wallet whose selected notes are its own leaves of
  the ledger, such that the nullifiers of its transfer, padding included, are distinct and fresh.  It builds a transfer against the current anchor; the next checkpoint accepts it; the recipient's wallet,
  given the first output at its reported position, records a note of exactly the amount; and that note is
  spendable: the new ledger has a path for it that verifies against the new anchor.\<close>

theorem payment_goes_through:
  assumes "chain B (dev_verify B) gs L hist" and "digest32 B" and "x25519_ok C" and "aead_ok C"
    and "mlkem_ok_at C (kem_seed B (w_sk R)) (hash_parts B KEM_SEED [derive_rseed B rng 10])"
    and "mlkem_ok_at C (kem_seed B (w_sk W)) (hash_parts B KEM_SEED [derive_rseed B rng 11])"
    and "balance W = Some funds" and "select_inputs W amount = Some (Inr sel)"
    and "\<forall>r \<in> set sel. note_addr_tag (nr_note r) = addr_tag B (w_sk W) \<and> nr_value r < MAX_MONEY"
    and "\<forall>r \<in> set sel. unat (nr_position r) < length (ct_leaves (lg_tree L))
        \<and> ct_leaves (lg_tree L) ! unat (nr_position r) = cm_bytes (commitment B (nr_note r))"
    and "0 < amount" and "amount < MAX_MONEY" and "distinct (transfer_nullifiers B W sel)"
    and "\<forall>nf \<in> set (transfer_nullifiers B W sel). \<not> nullifier_seen L nf"
    and "lg_difficulty_bits L = 0" and "unat (lg_height L) + 1 < 2 ^ 64"
    and "em_half_life (lg_emission L) \<noteq> 0" and "em_e_tail (lg_emission L) \<le> em_e0 (lg_emission L)"
    and "length (lg_validators L) \<le> 128" and "unat (lg_supply L) + unat (em_e0 (lg_emission L)) < 2 ^ 64"
    and "quota_reduced (lg_quota L)" and "length (ct_leaves (lg_tree L)) + 130 \<le> 2 ^ TREE_DEPTH"
  shows "\<exists>tx L' S out path. build_transfer B C W (w_address B C R) amount (current_anchor B L) (tree_witness B L) rng = Some (Inr tx)
    \<and> apply_checkpoint B L [tx] (dev_verify B) = Some (L', S) \<and> cs_rejected S = []
    \<and> w_unspent (fst (try_receive B C R (tx_enc_outputs tx ! 0) (cs_output_positions S ! 0)))
      = w_unspent R @ [\<lparr>nr_note = out, nr_position = cs_output_positions S ! 0\<rparr>]
    \<and> note_value out = amount
    \<and> tree_witness B L' (cs_output_positions S ! 0) = Some path
    \<and> verify_path B (commitment B out) path (anc_root (current_anchor B L'))"
proof -
  note inv = chain_inv [OF assms(1)]
  have cap: "length (ct_leaves (lg_tree L)) \<le> 2 ^ TREE_DEPTH" using assms(22) by linarith
  have wit: "\<forall>r \<in> set sel. \<exists>p. tree_witness B L (nr_position r) = Some p
      \<and> verify_path B (commitment B (nr_note r)) p (anc_root (current_anchor B L))"
    using ledger_leaf_provable [OF inv cap] assms(10) by blast
  obtain tx out bk where tx: "build_transfer B C W (sk_address B C (w_sk R)) amount (current_anchor B L) (tree_witness B L) rng = Some (Inr tx)"
      "validate_stateless B tx (dev_verify B) 0 = Inr ()" "wf_anchor (current_anchor B L) \<longrightarrow> wf_tx_body tx"
      "tx_antispam tx = LanePow \<lparr>pow_nonce = 0\<rparr>" "tx_anchor tx = current_anchor B L" "tx_nullifiers tx = transfer_nullifiers B W sel"
      "tx_commitments tx = [commitment B out, commitment B bk]"
      "map (\<lambda>e. try_decrypt B C e (incoming_viewing_key B C (w_sk R))) (take 1 (tx_enc_outputs tx)) = [Some out]" "note_value out = amount"
    using build_transfer_ok [OF assms(2-9) wit assms(12,13)] by (elim exE conjE)
  have wf: "wf_tx_body tx" using tx(3) anchor_of_inv(2) [OF inv assms(2)] by blast
  obtain L' S where step: "apply_checkpoint B L [tx] (dev_verify B) = Some (L', S)"
    using checkpoint_total [OF assms(16-21), of "[tx]" B "dev_verify B"] tx(4) by auto
  have fresh: "set (tx_nullifiers tx) \<inter> lg_nullifiers L = {}" using assms(14) tx(6) by (auto simp: nullifier_seen_def)
  have rej: "cs_rejected S = []"
    using single_pow_tx [OF step tx(4) _ fresh] tx(2,5) assms(15) anchor_of_inv(1) [OF inv] by simp
  then have acc: "accepted_by [tx] S = [tx]" by (simp add: accepted_by_def)
  have "length (ct_leaves (lg_tree L')) \<le> length (ct_leaves (lg_tree L)) + 2 * length [tx] + length (lg_validators L)"
    by (rule checkpoint_growth [OF step inv]) (use wf assms(19) in simp_all)
  then have cap': "length (ct_leaves (lg_tree L')) \<le> 2 ^ TREE_DEPTH" using assms(19,22) by simp
  then have "length (ct_leaves (lg_tree L')) \<le> 2 ^ 64" by (simp add: TREE_DEPTH_def)
  note pos = positions_of_accepted [OF step inv _ this, unfolded acc, simplified, OF wf]
  have leaf: "ct_leaves (lg_tree L') ! unat (cs_output_positions S ! 0) = cm_bytes (commitment B out)"
    using pos(2) [of 0] by (simp add: tx(7))
  have "unat (cs_output_positions S ! 0) < length (ct_leaves (lg_tree L'))" using pos(3) [of 0] by (simp add: tx(7))
  then obtain path where path: "tree_witness B L' (cs_output_positions S ! 0) = Some path"
      "verify_path B (commitment B out) path (anc_root (current_anchor B L'))"
    using ledger_leaf_provable [OF _ cap' _ leaf] checkpoint_refines [OF step inv] by blast
  obtain e0 rest where "tx_enc_outputs tx = e0 # rest" "try_decrypt B C e0 (incoming_viewing_key B C (w_sk R)) = Some out"
    using tx(8) by (cases "tx_enc_outputs tx") auto
  then have "w_unspent (fst (try_receive B C R (tx_enc_outputs tx ! 0) (cs_output_positions S ! 0)))
      = w_unspent R @ [\<lparr>nr_note = out, nr_position = cs_output_positions S ! 0\<rparr>]"
    using assms(11) tx(9) by (simp add: try_receive_def)
  moreover have "build_transfer B C W (w_address B C R) amount (current_anchor B L) (tree_witness B L) rng = Some (Inr tx)"
    using tx(1) by (simp add: w_address_def)
  ultimately show ?thesis using step rej tx(9) path by blast
qed

text \<open>A chain for the witnesses that funds one owner with two notes.\<close>

definition pay_notes :: "(Commitment \<times> u64) list" where
  "pay_notes = [(commitment last_hash (owned_note 9), 100), (commitment last_hash (owned_note 7), 100)]"

definition pay_ledger :: Ledger where
  "pay_ledger = the (genesis last_hash sample_emission [\<lparr>vi_weight = 1, vi_addr_tag = replicate 32 200\<rparr>] 0 pay_notes)"

lemma pay_genesis: "genesis last_hash sample_emission [\<lparr>vi_weight = 1, vi_addr_tag = replicate 32 200\<rparr>] 0 pay_notes = Some pay_ledger"
  by (simp add: pay_ledger_def genesis_def pay_notes_def add_or_panic_def)

lemma pay_ledger_simps:
  "lg_height pay_ledger = 0" "lg_supply pay_ledger = 200" "lg_emission pay_ledger = sample_emission"
  "lg_validators pay_ledger = [\<lparr>vi_weight = 1, vi_addr_tag = replicate 32 200\<rparr>]"
  "lg_nullifiers pay_ledger = {}" "lg_quota pay_ledger = qr_new" "lg_difficulty_bits pay_ledger = 0"
  by (simp_all add: pay_ledger_def genesis_def pay_notes_def add_or_panic_def)

lemma pay_ledger_leaves: "ct_leaves (lg_tree pay_ledger) = [replicate 32 8, replicate 32 8]"
  using genesis_view(1) [OF pay_genesis] by (simp add: view_def pay_notes_def commitment_owned_note)

lemma pay_ledger_chain: "chain last_hash V pay_notes pay_ledger []"
  by (rule chain_genesis [OF pay_genesis])

lemma sample_emission_simps: "em_half_life sample_emission \<noteq> 0" "em_e_tail sample_emission = 100" "em_e0 sample_emission = 1000"
  by (simp_all add: sample_emission_def)

lemma payment_goes_through_witness:
  "\<exists>tx L' S (out :: Note). build_transfer last_hash null_crypto (owner_wallet 9 0) (w_address last_hash null_crypto (w_from_seed last_hash (replicate 32 2))) 30
        (current_anchor last_hash pay_ledger) (tree_witness last_hash pay_ledger) (replicate 32 42) = Some (Inr tx)
     \<and> apply_checkpoint last_hash pay_ledger [tx] (dev_verify last_hash) = Some (L', S) \<and> cs_rejected S = [] \<and> note_value out = 30"
proof -
  let ?R = "w_from_seed last_hash (replicate 32 2)" and ?r = "\<lparr>nr_note = owned_note 9, nr_position = 0\<rparr>"
  note sel = owner_wallet_simps [of 9 0]
  show ?thesis
    using payment_goes_through [where B = last_hash and C = null_crypto and R = ?R and rng = "replicate 32 42" and W = "owner_wallet 9 0" and amount = 30,
        OF pay_ledger_chain _ _ _ _ _ sel(1,2)] owner_wallet_nullifiers(2) [of 9 0]
    by (auto simp: MAX_MONEY_def sel(3) pay_ledger_simps pay_ledger_leaves commitment_owned_note nullifier_seen_def
        sample_emission_simps quota_reduced_def qr_new_def TREE_DEPTH_def)
qed

text \<open>C35. Two one-input transfers of one wallet conflict.  The padding note of a transfer depends on
  nothing but the wallet's key, so every transfer that spends a single note publishes the same dummy nullifier: once one
  of them is in the chain, no later checkpoint accepts another, even when they spend different notes.\<close>

theorem single_input_transfers_conflict:
  assumes "chain B V gs L hist" and "tx1 \<in> set hist"
    and "build_transfer B C W1 r1 amount1 a1 wit1 rng1 = Some (Inr tx1)" and "select_inputs W1 amount1 = Some (Inr [s1])"
    and "build_transfer B C W2 r2 amount2 a2 wit2 rng2 = Some (Inr tx2)" and "select_inputs W2 amount2 = Some (Inr [s2])"
    and "w_sk W2 = w_sk W1" and "\<forall>tx \<in> set ordered. wf_tx_body tx" and "apply_checkpoint B L ordered V = Some (L', S)"
  shows "tx2 \<notin> set (accepted_by ordered S)"
proof
  assume acc: "tx2 \<in> set (accepted_by ordered S)"
  let ?nf = "nullifier B (dummy B (replicate 32 0xD0)) (nk B (w_sk W1))"
  have dummy: "?nf \<in> set (transfer_nullifiers B W [s])" if "w_sk W = w_sk W1" for W s
    using that by (simp add: transfer_nullifiers_def transfer_notes_def TX_INPUTS_def)
  have nfs: "tx_nullifiers tx1 = transfer_nullifiers B W1 [s1]" "tx_nullifiers tx2 = transfer_nullifiers B W2 [s2]"
    using build_transfer_Inr(1) [OF assms(3,4)] build_transfer_Inr(1) [OF assms(5,6)] by (simp_all add: TX_INPUTS_def)
  have "?nf \<in> set (tx_nullifiers tx1)" "?nf \<in> set (tx_nullifiers tx2)" using dummy [of W1 s1] dummy [OF assms(7), of s2] nfs by simp_all
  then have "?nf \<in> lg_nullifiers L" using chain_history [OF assms(1)] assms(2) by auto
  moreover have "?nf \<in> set (concat (map tx_nullifiers (accepted_by ordered S)))" 
    using acc \<open>?nf \<in> set (tx_nullifiers tx2)\<close> by auto
  ultimately show False using checkpoint_accepts(3) [OF assms(9) chain_inv [OF assms(1)] assms(8)] by blast
qed

lemma single_input_transfers_conflict_witness:
  "\<exists>tx1 tx2 L L' S a wit. chain last_hash (dev_verify last_hash) pay_notes L [tx1]
     \<and> build_transfer last_hash null_crypto (owner_wallet 7 1) (sk_address last_hash null_crypto sample_key) 30 a wit [] = Some (Inr tx2)
     \<and> validate_stateless last_hash tx2 (dev_verify last_hash) 0 = Inr ()
     \<and> apply_checkpoint last_hash L [tx2] (dev_verify last_hash) = Some (L', S) \<and> accepted_by [tx2] S = []"
proof -
  let ?V = "dev_verify last_hash"
  have inv: "ledger_inv last_hash pay_ledger" by (rule chain_inv [OF pay_ledger_chain [of ?V]])
  have wf: "wf_tree last_hash (lg_tree pay_ledger)" using inv by (simp add: ledger_inv_def)
  have built: "\<exists>tx. build_transfer last_hash null_crypto (owner_wallet b pos) (sk_address last_hash null_crypto sample_key) 30
        (current_anchor last_hash pay_ledger) (ct_witness last_hash (lg_tree pay_ledger)) [] = Some (Inr tx)
      \<and> validate_stateless last_hash tx ?V 0 = Inr () \<and> (wf_anchor (current_anchor last_hash pay_ledger) \<longrightarrow> wf_tx_body tx)
      \<and> tx_antispam tx = LanePow \<lparr>pow_nonce = 0\<rparr> \<and> tx_anchor tx = current_anchor last_hash pay_ledger
      \<and> set (tx_nullifiers tx) = {Nullifier (replicate 32 b), Nullifier (replicate 32 0xD0)}"
    if "b \<noteq> 0xD0" "pos = 0 \<or> pos = 1" for b pos
    using that by (intro owner_transfer wf) (auto simp: pay_ledger_leaves commitment_owned_note TREE_DEPTH_def current_anchor_def)
  obtain tx1 where tx1: "build_transfer last_hash null_crypto (owner_wallet 9 0) (sk_address last_hash null_crypto sample_key) 30
        (current_anchor last_hash pay_ledger) (ct_witness last_hash (lg_tree pay_ledger)) [] = Some (Inr tx1)"
      "validate_stateless last_hash tx1 ?V 0 = Inr ()" "wf_tx_body tx1" "tx_antispam tx1 = LanePow \<lparr>pow_nonce = 0\<rparr>"
      "tx_anchor tx1 = current_anchor last_hash pay_ledger"
    using built [of 9 0] anchor_of_inv(2) [OF inv] by auto
  obtain tx2 where tx2: "build_transfer last_hash null_crypto (owner_wallet 7 1) (sk_address last_hash null_crypto sample_key) 30
        (current_anchor last_hash pay_ledger) (ct_witness last_hash (lg_tree pay_ledger)) [] = Some (Inr tx2)"
      "validate_stateless last_hash tx2 ?V 0 = Inr ()" "wf_tx_body tx2" "tx_antispam tx2 = LanePow \<lparr>pow_nonce = 0\<rparr>"
    using built [of 7 1] anchor_of_inv(2) [OF inv] by auto
  obtain L S1 where s1: "apply_checkpoint last_hash pay_ledger [tx1] ?V = Some (L, S1)"
    using checkpoint_total [of pay_ledger "[tx1]" last_hash ?V] tx1(4)
    by (auto simp: pay_ledger_simps sample_emission_simps quota_reduced_def qr_new_def)
  have rej: "cs_rejected S1 = []"
    using single_pow_tx [OF s1 tx1(4)] tx1(2,5) anchor_of_inv(1) [OF inv] by (simp add: pay_ledger_simps)
  have "chain last_hash ?V pay_notes L ([] @ accepted_by [tx1] S1)"
    using tx1(3) by (intro chain_step [OF pay_ledger_chain _ s1]) simp
  then have chain: "chain last_hash ?V pay_notes L [tx1]" by (simp add: accepted_by_def rej)
  have "emission_at sample_emission 1 = Some 991"
    by (simp add: emission_at_def sample_emission_def sub_or_panic_def decay_factor_def SCALE_def add_or_panic_def)
  then have L: "lg_emission L = sample_emission" "length (lg_validators L) = 1" "unat (lg_height L) = 1" "unat (lg_supply L) = 1191"
    using checkpoint_supply [OF s1] by (simp_all add: pay_ledger_simps emission_or_0_def validator_weight_def)
  obtain st nh where "process_txs last_hash ?V pay_ledger nh 0 [tx1] (staging_init pay_ledger) = Some st" "lg_quota L = st_quota st"
    by (rule checkpoint_steps [OF s1])
  then have q: "quota_reduced (lg_quota L)"
    using tx1(4) by (auto simp: process_tx_def quota_check_def staging_init_def pay_ledger_simps quota_reduced_def qr_new_def accept_def reject_def
        split: if_splits sum.splits)
  obtain L' S where s2: "apply_checkpoint last_hash L [tx2] ?V = Some (L', S)"
    using checkpoint_total [of L "[tx2]" last_hash ?V] tx2(4) q by (auto simp: L sample_emission_simps)
  have "tx2 \<notin> set (accepted_by [tx2] S)"
    by (rule single_input_transfers_conflict [OF chain _ tx1(1) owner_wallet_simps(2) tx2(1) owner_wallet_simps(2) _ _ s2])
      (simp_all add: owner_wallet_simps(3) tx2(3))
  then have "accepted_by [tx2] S = []" by (auto simp: accepted_by_def split: if_splits)
  with chain tx2(1,2) s2 show ?thesis by blast
qed

end
